(* ===== verification/Prelude.thy ===== *)
theory Prelude
  imports Main "HOL-Library.Word" "HOL-Library.Extended_Nat"
begin

unbundle bit_operations_syntax

text \<open>
  The vocabulary shared by every component of the development: the JavaScript values and
  operators the sources use (32-bit bitwise operators, array reads, thrown errors), the loop
  combinators their \<^verbatim>\<open>for\<close> loops become, and the generic lemmas on lists, sums and words that
  the component proofs rest on.

  \<^item> A thrown exception is the \<open>Inl\<close> side of \<open>js_error + 'a\<close>; \<open>bindR\<close> sequences two fallible
    steps and \<open>forR\<close> is a \<^verbatim>\<open>for\<close> loop whose body may throw. A loop whose body cannot throw is
    the library's \<open>fold\<close>.
  \<^item> JavaScript's bitwise operators work on 32-bit integers and take shift counts modulo 32;
    \<open>u32\<close>, \<open>shl\<close> and \<open>shr\<close> are that arithmetic (\<open>shr\<close> is \<^verbatim>\<open>>>>\<close>, the unsigned shift).
  \<^item> \<open>arr_get\<close> reads an array: \<open>None\<close> is \<^verbatim>\<open>undefined\<close>.
\<close>

section \<open>Values and errors\<close>

type_synonym u32 = "32 word"

datatype js_error =
    RangeError string
  | TypeError string
  | Error string
  | URIError string

type_synonym 'a res = "js_error + 'a"

named_theorems res_simps \<open>evaluation of fallible steps\<close>

fun bindR :: "'a res \<Rightarrow> ('a \<Rightarrow> 'b res) \<Rightarrow> 'b res" where
  "bindR (Inl e) f = Inl e"
| "bindR (Inr x) f = f x"

fun forR :: "('i \<Rightarrow> 's \<Rightarrow> 's res) \<Rightarrow> 'i list \<Rightarrow> 's \<Rightarrow> 's res" where
  "forR f [] s = Inr s"
| "forR f (i # is) s = bindR (f i s) (forR f is)"

definition assertR :: "bool \<Rightarrow> unit res" where
  "assertR c = (if c then Inr () else Inl (Error ''Assertion error''))"

definition arr_get :: "'a list \<Rightarrow> int \<Rightarrow> 'a option" where
  "arr_get xs i = (if 0 \<le> i \<and> i < int (length xs) then Some (xs ! nat i) else None)"

definition shl :: "u32 \<Rightarrow> nat \<Rightarrow> u32" where
  "shl x n = push_bit (n mod 32) x"

definition shr :: "u32 \<Rightarrow> nat \<Rightarrow> u32" where
  "shr x n = drop_bit (n mod 32) x"

text \<open>The property names every object literal inherits from \<^verbatim>\<open>Object.prototype\<close>: a lookup
  \<^verbatim>\<open>table[name]\<close> finds a truthy value for each of them.\<close>

definition inheritedNames :: "string list" where
  "inheritedNames = [''constructor'', ''__defineGetter__'', ''__defineSetter__'', ''hasOwnProperty'',
     ''__lookupGetter__'', ''__lookupSetter__'', ''isPrototypeOf'', ''propertyIsEnumerable'',
     ''toString'', ''valueOf'', ''__proto__'', ''toLocaleString'']"

section \<open>Fallible steps\<close>

lemma bindR_Inr [simp]: "bindR r Inr = r"
  by (cases r) auto

lemma bindR_assoc: "bindR (bindR r f) g = bindR r (\<lambda>x. bindR (f x) g)"
  by (cases r) auto

lemma bindR_eq_Inr_iff: "bindR r f = Inr y \<longleftrightarrow> (\<exists>x. r = Inr x \<and> f x = Inr y)"
  by (cases r) auto

lemma assertR_True [simp]: "assertR True = Inr ()"
  by (simp add: assertR_def)

lemma bindR_cong: "r = r' \<Longrightarrow> (\<And>x. r' = Inr x \<Longrightarrow> f x = g x) \<Longrightarrow> bindR r f = bindR r' g"
  by (cases r') auto

lemma forR_append: "forR f (xs @ ys) s = bindR (forR f xs s) (forR f ys)"
  by (induction xs arbitrary: s) (auto simp: bindR_assoc intro: bindR_cong)

text \<open>
  The three ways the proofs use a loop: a body that always succeeds is a \<open>fold\<close>; an
  invariant kept by every successful step holds at the end; two loops whose bodies agree on
  the indices visited agree.
\<close>

lemma forR_Inr_fold:
  assumes "\<And>i s. i \<in> set is \<Longrightarrow> f i s = Inr (g i s)"
  shows "forR f is s = Inr (fold g is s)"
  using assms by (induction "is" arbitrary: s) auto

lemma forR_invariant:
  assumes "forR f is s = Inr t" and "I s"
    and "\<And>i u v. i \<in> set is \<Longrightarrow> I u \<Longrightarrow> f i u = Inr v \<Longrightarrow> I v"
  shows "I t"
  using assms
proof (induction "is" arbitrary: s)
  case Nil
  then show ?case by simp
next
  case (Cons i "is")
  from Cons.prems(1) obtain u where u: "f i s = Inr u" "forR f is u = Inr t"
    by (auto simp: bindR_eq_Inr_iff)
  have "I u" using Cons.prems(2,3) u(1) by auto
  with u(2) Cons.prems(3) show ?case by (intro Cons.IH) auto
qed

lemma forR_total:
  assumes "I s"
    and "\<And>i u. i \<in> set is \<Longrightarrow> I u \<Longrightarrow> \<exists>v. f i u = Inr v \<and> I v"
  shows "\<exists>t. forR f is s = Inr t \<and> I t"
  using assms
proof (induction "is" arbitrary: s)
  case Nil
  then show ?case by simp
next
  case (Cons i "is")
  from Cons.prems(2) [of i s] Cons.prems(1) obtain u where u: "f i s = Inr u" "I u" by auto
  with Cons have "\<exists>t. forR f is u = Inr t \<and> I t" by (intro Cons.IH) auto
  with u show ?case by simp
qed

lemma fold_invariant:
  assumes "I s" and "\<And>i u. i \<in> set is \<Longrightarrow> I u \<Longrightarrow> I (f i u)"
  shows "I (fold f is s)"
  using assms by (induction "is" arbitrary: s) auto

text \<open>
  A loop that overwrites cell after cell of an array, where the value written at \<open>j\<close> is
  computed from the cells \<open>j, j + 1, \<dots>\<close>, which still hold the original values.
\<close>

lemma forR_inplace:
  assumes "n \<le> length xs"
    and "\<And>j s. j < n \<Longrightarrow> length s = length xs \<Longrightarrow> (\<And>k. j \<le> k \<Longrightarrow> k < length xs \<Longrightarrow> s ! k = xs ! k)
      \<Longrightarrow> f j s = Inr (s[j := h j])"
  shows "forR f [0..<n] xs = Inr (map h [0..<n] @ drop n xs)"
  using assms
proof (induction n)
  case 0
  then show ?case by simp
next
  case (Suc n)
  let ?s = "map h [0..<n] @ drop n xs"
  have "forR f [0..<n] xs = Inr ?s" using Suc by (intro Suc.IH) auto
  moreover have "f n ?s = Inr (?s[n := h n])"
    using Suc.prems by (intro Suc.prems(2)) (auto simp: nth_append)
  moreover have "?s[n := h n] = map h [0..<Suc n] @ drop (Suc n) xs"
    using Suc.prems(1) by (simp add: list_update_append Cons_nth_drop_Suc [symmetric])
  ultimately show ?case by (simp add: forR_append)
qed

section \<open>Arrays\<close>

fun num_or_0 :: "u32 option \<Rightarrow> u32" where
  "num_or_0 None = 0"
| "num_or_0 (Some x) = x"

lemma arr_get_nat [simp]: "i < length xs \<Longrightarrow> arr_get xs (int i) = Some (xs ! i)"
  by (simp add: arr_get_def)

lemma arr_get_Some_iff: "arr_get xs i = Some x \<longleftrightarrow> 0 \<le> i \<and> i < int (length xs) \<and> x = xs ! nat i"
  by (auto simp: arr_get_def)

section \<open>Bits of 32-bit values\<close>

lemma bit_shl [simp]: "n < 32 \<Longrightarrow> bit (shl x n) k \<longleftrightarrow> n \<le> k \<and> k < 32 \<and> bit x (k - n)"
  by (auto simp: shl_def bit_simps)

lemma bit_shr [simp]: "n < 32 \<Longrightarrow> bit (shr x n) k \<longleftrightarrow> bit x (n + k)"
  by (auto simp: shr_def bit_simps)

section \<open>Rounding up to whole bytes\<close>

lemma round_up_8:
  fixes L n :: nat
  shows "8 dvd L + (8 - L mod 8) mod 8" and "L \<le> 8 * n \<Longrightarrow> L + (8 - L mod 8) mod 8 \<le> 8 * n"
proof -
  define q r where "q = L div 8" and "r = L mod 8"
  have L: "L = 8 * q + r" "r < 8" by (simp_all add: q_def r_def)
  have f: "L + (8 - L mod 8) mod 8 = (if r = 0 then 8 * q else 8 * (q + 1))"
    using L by (simp add: r_def [symmetric])
  show "8 dvd L + (8 - L mod 8) mod 8" unfolding f by auto
  assume "L \<le> 8 * n"
  with L have "8 * q \<le> 8 * n" "r \<noteq> 0 \<Longrightarrow> q < n" by linarith+
  then show "L + (8 - L mod 8) mod 8 \<le> 8 * n" unfolding f by auto
qed

end
