(* ===== verification/Qr_Tables.thy ===== *)
theory Qr_Tables
  imports Prelude
begin

text \<open>
  The constant data of \<^verbatim>\<open>webui/qr.js\<close>: the four error correction levels, the two ISO tables of
  error correction codewords and block counts, and the capacities computed from them. A table
  read outside the table is \<open>None\<close> (the code's \<^verbatim>\<open>undefined\<close>, and the \<^verbatim>\<open>NaN\<close> of arithmetic on it).
\<close>

datatype Ecc = LOW | MEDIUM | QUARTILE | HIGH

fun ordinal :: "Ecc \<Rightarrow> nat" where
  "ordinal LOW = 0"
| "ordinal MEDIUM = 1"
| "ordinal QUARTILE = 2"
| "ordinal HIGH = 3"

fun formatBits :: "Ecc \<Rightarrow> u32" where
  "formatBits LOW = 1"
| "formatBits MEDIUM = 0"
| "formatBits QUARTILE = 3"
| "formatBits HIGH = 2"

definition MIN_VERSION :: nat where "MIN_VERSION = 1"
definition MAX_VERSION :: nat where "MAX_VERSION = 40"

definition ECC_CODEWORDS_PER_BLOCK :: "int list list" where
  "ECC_CODEWORDS_PER_BLOCK = [
    [-1, 7, 10, 15, 20, 26, 18, 20, 24, 30, 18, 20, 24, 26, 30, 22, 24, 28, 30, 28, 28, 28, 28, 30, 30, 26, 28, 30, 30, 30, 30, 30, 30, 30, 30, 30, 30, 30, 30, 30, 30],
    [-1, 10, 16, 26, 18, 24, 16, 18, 22, 22, 26, 30, 22, 22, 24, 24, 28, 28, 26, 26, 26, 26, 28, 28, 28, 28, 28, 28, 28, 28, 28, 28, 28, 28, 28, 28, 28, 28, 28, 28, 28],
    [-1, 13, 22, 18, 26, 18, 24, 18, 22, 20, 24, 28, 26, 24, 20, 30, 24, 28, 28, 26, 30, 28, 30, 30, 30, 30, 28, 30, 30, 30, 30, 30, 30, 30, 30, 30, 30, 30, 30, 30, 30],
    [-1, 17, 28, 22, 16, 22, 28, 26, 26, 24, 28, 24, 28, 22, 24, 24, 30, 28, 28, 26, 28, 30, 24, 30, 30, 30, 30, 30, 30, 30, 30, 30, 30, 30, 30, 30, 30, 30, 30, 30, 30]]"

definition NUM_ERROR_CORRECTION_BLOCKS :: "int list list" where
  "NUM_ERROR_CORRECTION_BLOCKS = [
    [-1, 1, 1, 1, 1, 1, 2, 2, 2, 2, 4, 4, 4, 4, 4, 6, 6, 6, 6, 7, 8, 8, 9, 9, 10, 12, 12, 12, 13, 14, 15, 16, 17, 18, 19, 19, 20, 21, 22, 24, 25],
    [-1, 1, 1, 1, 2, 2, 4, 4, 4, 5, 5, 5, 8, 9, 9, 10, 10, 11, 13, 14, 16, 17, 17, 18, 20, 21, 23, 25, 26, 28, 29, 31, 33, 35, 37, 38, 40, 43, 45, 47, 49],
    [-1, 1, 1, 2, 2, 4, 4, 6, 6, 8, 8, 8, 10, 12, 16, 12, 17, 16, 18, 21, 20, 23, 23, 25, 27, 29, 34, 34, 35, 38, 40, 43, 45, 48, 51, 53, 56, 59, 62, 65, 68],
    [-1, 1, 1, 2, 4, 4, 4, 5, 6, 8, 8, 11, 11, 16, 16, 18, 16, 19, 21, 25, 25, 25, 34, 30, 32, 35, 37, 40, 42, 45, 48, 51, 54, 57, 60, 63, 66, 70, 74, 77, 81]]"

definition eccPerBlock :: "Ecc \<Rightarrow> nat \<Rightarrow> int option" where
  "eccPerBlock ecl ver = arr_get (ECC_CODEWORDS_PER_BLOCK ! ordinal ecl) (int ver)"

definition numBlocksOf :: "Ecc \<Rightarrow> nat \<Rightarrow> int option" where
  "numBlocksOf ecl ver = arr_get (NUM_ERROR_CORRECTION_BLOCKS ! ordinal ecl) (int ver)"

definition getNumRawDataModules :: "nat \<Rightarrow> int" where
  "getNumRawDataModules ver =
     (let v = int ver; result = (16 * v + 128) * v + 64
      in if ver \<ge> 2
         then let numAlign = v div 7 + 2;
                  result = result - ((25 * numAlign - 10) * numAlign - 55)
              in if ver \<ge> 7 then result - 36 else result
         else result)"

definition getNumDataCodewords :: "nat \<Rightarrow> Ecc \<Rightarrow> int option" where
  "getNumDataCodewords ver ecl =
     (case (eccPerBlock ecl ver, numBlocksOf ecl ver) of
        (Some e, Some n) \<Rightarrow> Some (getNumRawDataModules ver div 8 - e * n)
      | _ \<Rightarrow> None)"

section \<open>Facts about the tables\<close>

text \<open>
  Everything the encoder needs to know about the tables is decidable on the 160 combinations of
  version and level; it is checked once here and used by name.
\<close>

definition all_versions :: "nat list" where
  "all_versions = [1..<41]"

definition all_levels :: "Ecc list" where
  "all_levels = [LOW, MEDIUM, QUARTILE, HIGH]"

definition layout_ok :: "nat \<Rightarrow> Ecc \<Rightarrow> bool" where
  "layout_ok ver ecl =
     (case (eccPerBlock ecl ver, numBlocksOf ecl ver) of
        (Some e, Some n) \<Rightarrow>
          (let raw = getNumRawDataModules ver div 8
           in 1 \<le> e \<and> e \<le> 30 \<and> 1 \<le> n \<and> e < raw div n \<and> raw div n + 1 \<le> 255
              \<and> 0 \<le> getNumRawDataModules ver \<and> raw < 4000)
      | _ \<Rightarrow> False)"

lemma layout_ok_table: "list_all (\<lambda>ver. list_all (layout_ok ver) all_levels) all_versions"
  by code_simp

lemma ordinal_less_4: "ordinal ecl < 4"
  by (cases ecl) auto

lemma in_all_levels: "ecl \<in> set all_levels"
  by (cases ecl) (auto simp: all_levels_def)

lemma layout_ok: "1 \<le> ver \<Longrightarrow> ver \<le> 40 \<Longrightarrow> layout_ok ver ecl"
  using layout_ok_table in_all_levels [of ecl]
  by (auto simp: list_all_iff all_versions_def)

lemma layoutE:
  assumes "1 \<le> ver" and "ver \<le> 40"
  obtains e n :: nat where "eccPerBlock ecl ver = Some (int e)" "numBlocksOf ecl ver = Some (int n)"
    "1 \<le> e" "e \<le> 30" "1 \<le> n" "e < nat (getNumRawDataModules ver div 8) div n"
    "nat (getNumRawDataModules ver div 8) div n + 1 \<le> 255"
    "getNumDataCodewords ver ecl = Some (int (nat (getNumRawDataModules ver div 8) - e * n))"
    "e * n \<le> nat (getNumRawDataModules ver div 8)"
    "0 \<le> getNumRawDataModules ver"
    "nat (getNumRawDataModules ver div 8) < 4000"
proof -
  let ?raw = "getNumRawDataModules ver div 8"
  from layout_ok [OF assms, of ecl] obtain e n where en: "eccPerBlock ecl ver = Some e" "numBlocksOf ecl ver = Some n"
    "1 \<le> e" "e \<le> 30" "1 \<le> n" "e < ?raw div n" "?raw div n + 1 \<le> 255" "0 \<le> getNumRawDataModules ver" "?raw < 4000"
    by (auto simp: layout_ok_def Let_def split: option.splits)
  obtain e' n' r where [simp]: "e = int e'" "n = int n'" and raw: "?raw = int r"
    using en(3,5,8) by (metis nonneg_int_cases zero_le_one order_trans pos_imp_zdiv_nonneg_iff zero_less_numeral)
  have div: "?raw div int n' = int (r div n')" by (simp add: raw zdiv_int)
  have small: "e' < r div n'" "r div n' + 1 \<le> 255" using en(6,7) by (simp_all add: div)
  have "e' * n' \<le> (r div n') * n'" using small(1) by (intro mult_right_mono) auto
  also have "\<dots> \<le> r" by (rule div_times_less_eq_dividend)
  finally have le: "e' * n' \<le> r" .
  have "getNumDataCodewords ver ecl = Some (int (r - e' * n'))"
    using en(1,2) le by (simp add: getNumDataCodewords_def raw of_nat_diff)
  with en(1-5,8,9) le small show thesis
    by (intro that [of e' n']) (simp_all add: raw)
qed

end
