(* ===== verification/Qr_Grid.thy ===== *)
theory Qr_Grid
  imports Qr_Tables
begin

unbundle bit_operations_syntax

text \<open>
  The module grid of a symbol in \<^verbatim>\<open>webui/qr.js\<close> and everything that is drawn on it before the
  data: timing, finder and alignment patterns, format and version information. A symbol is the
  record \<open>QrCode\<close> with the object's fields; every drawing routine is the sequence of its
  \<^verbatim>\<open>setFunctionModule\<close> calls, in the order the code makes them.

  A write outside a row of the grid would make a JavaScript array grow instead of failing. In
  the model it is an error value of its own, so that \<open>Inr\<close> results also say that no routine
  ever writes outside the grid.
\<close>

section \<open>The grid\<close>

record QrCode =
  qr_version :: nat
  qr_ecl :: Ecc
  qr_size :: int
  qr_modules :: "bool list list"
  qr_isFunction :: "bool list list"
  qr_mask :: "int option"

definition cell :: "bool list list \<Rightarrow> int \<Rightarrow> int \<Rightarrow> bool" where
  "cell g x y = g ! nat y ! nat x"

definition setCell :: "bool list list \<Rightarrow> int \<Rightarrow> int \<Rightarrow> bool \<Rightarrow> bool list list res" where
  "setCell g x y v =
     (case arr_get g y of
        None \<Rightarrow> Inl (TypeError ''row is undefined'')
      | Some row \<Rightarrow> if 0 \<le> x \<and> x < int (length row) then Inr (g[nat y := row[nat x := v]])
                   else Inl (TypeError ''cell outside the row''))"

definition getModule :: "QrCode \<Rightarrow> int \<Rightarrow> int \<Rightarrow> bool" where
  "getModule q x y \<longleftrightarrow>
     0 \<le> x \<and> x < qr_size q \<and> 0 \<le> y \<and> y < qr_size q \<and> cell (qr_modules q) x y"

definition setFunctionModule :: "int \<Rightarrow> int \<Rightarrow> bool \<Rightarrow> QrCode \<Rightarrow> QrCode res" where
  "setFunctionModule x y isDark q =
     bindR (setCell (qr_modules q) x y isDark) (\<lambda>m.
     bindR (setCell (qr_isFunction q) x y True) (\<lambda>f.
       Inr (q\<lparr>qr_modules := m, qr_isFunction := f\<rparr>)))"

type_synonym writes = "(int \<times> int \<times> bool) list"

definition setAll :: "writes \<Rightarrow> QrCode \<Rightarrow> QrCode res" where
  "setAll = forR (\<lambda>(x, y, isDark). setFunctionModule x y isDark)"

definition getBit :: "u32 \<Rightarrow> nat \<Rightarrow> bool" where
  "getBit x i \<longleftrightarrow> shr x i AND 1 \<noteq> 0"

section \<open>The drawing routines\<close>

definition drawFinderPattern :: "int \<Rightarrow> int \<Rightarrow> QrCode \<Rightarrow> QrCode res" where
  "drawFinderPattern x y q =
     setAll [(x + dx, y + dy, max \<bar>dx\<bar> \<bar>dy\<bar> \<noteq> 2 \<and> max \<bar>dx\<bar> \<bar>dy\<bar> \<noteq> 4).
              dy \<leftarrow> [-4..4], dx \<leftarrow> [-4..4],
              0 \<le> x + dx \<and> x + dx < qr_size q \<and> 0 \<le> y + dy \<and> y + dy < qr_size q] q"

definition drawAlignmentPattern :: "int \<Rightarrow> int \<Rightarrow> QrCode \<Rightarrow> QrCode res" where
  "drawAlignmentPattern x y =
     setAll [(x + dx, y + dy, max \<bar>dx\<bar> \<bar>dy\<bar> \<noteq> 1). dy \<leftarrow> [-2..2], dx \<leftarrow> [-2..2]]"

text \<open>\<^verbatim>\<open>Math.ceil(a / b)\<close> for natural numbers.\<close>

definition ceilDiv :: "nat \<Rightarrow> nat \<Rightarrow> nat" where
  "ceilDiv a b = (a + b - 1) div b"

definition alignStep :: "nat \<Rightarrow> nat" where
  "alignStep version =
     (let numAlign = version div 7 + 2
      in if version = 32 then 26 else ceilDiv (version * 4 + 4) (numAlign * 2 - 2) * 2)"

text \<open>The loop inserts each position right after the leading 6, so the last one inserted is the
  smallest.\<close>

function alignLoop :: "nat \<Rightarrow> int \<Rightarrow> int \<Rightarrow> int list \<Rightarrow> int list" where
  "alignLoop numAlign pos step result =
     (if length result < numAlign
      then alignLoop numAlign (pos - step) step (take 1 result @ [pos] @ drop 1 result)
      else result)"
  by pat_completeness auto
termination
  by (relation "measure (\<lambda>(numAlign, pos, step, result). numAlign - length result)") (auto simp: min_def)

declare alignLoop.simps [simp del]

definition getAlignmentPatternPositions :: "QrCode \<Rightarrow> int list" where
  "getAlignmentPatternPositions q =
     (if qr_version q = 1 then []
      else let numAlign = qr_version q div 7 + 2
           in alignLoop numAlign (qr_size q - 7) (int (alignStep (qr_version q))) [6])"

definition bchStep :: "nat \<Rightarrow> u32 \<Rightarrow> u32 \<Rightarrow> u32" where
  "bchStep hi poly rem = shl rem 1 XOR (shr rem hi * poly)"

definition formatInfo :: "Ecc \<Rightarrow> u32 \<Rightarrow> u32" where
  "formatInfo ecl msk =
     (let data = shl (formatBits ecl) 3 OR msk;
          rem = (bchStep 9 0x537 ^^ 10) data
      in (shl data 10 OR rem) XOR 0x5412)"

definition formatWrites :: "int \<Rightarrow> u32 \<Rightarrow> writes" where
  "formatWrites sz bits =
     map (\<lambda>i. (8, int i, getBit bits i)) [0..<6]
     @ [(8, 7, getBit bits 6), (8, 8, getBit bits 7), (7, 8, getBit bits 8)]
     @ map (\<lambda>i. (14 - int i, 8, getBit bits i)) [9..<15]
     @ map (\<lambda>i. (sz - 1 - int i, 8, getBit bits i)) [0..<8]
     @ map (\<lambda>i. (8, sz - 15 + int i, getBit bits i)) [8..<15]
     @ [(8, sz - 8, True)]"

definition drawFormatBits :: "int \<Rightarrow> QrCode \<Rightarrow> QrCode res" where
  "drawFormatBits msk q =
     (let bits = formatInfo (qr_ecl q) (word_of_int msk)
      in bindR (assertR (shr bits 15 = 0)) (\<lambda>_. setAll (formatWrites (qr_size q) bits) q))"

definition versionInfo :: "nat \<Rightarrow> u32" where
  "versionInfo version =
     (let rem = (bchStep 11 0x1f25 ^^ 12) (of_nat version)
      in shl (of_nat version) 12 OR rem)"

definition versionWrites :: "int \<Rightarrow> u32 \<Rightarrow> writes" where
  "versionWrites sz bits =
     concat (map (\<lambda>i. let color = getBit bits i; a = sz - 11 + int (i mod 3); b = int (i div 3)
                      in [(a, b, color), (b, a, color)]) [0..<18])"

definition drawVersion :: "QrCode \<Rightarrow> QrCode res" where
  "drawVersion q =
     (if qr_version q < 7 then Inr q
      else let bits = versionInfo (qr_version q)
           in bindR (assertR (shr bits 18 = 0)) (\<lambda>_. setAll (versionWrites (qr_size q) bits) q))"

definition drawFunctionPatterns :: "QrCode \<Rightarrow> QrCode res" where
  "drawFunctionPatterns q =
     (let size = qr_size q
      in bindR (setAll (concat (map (\<lambda>i. [(6, i, i mod 2 = 0), (i, 6, i mod 2 = 0)]) [0..size - 1])) q) (\<lambda>q.
         bindR (drawFinderPattern 3 3 q) (\<lambda>q.
         bindR (drawFinderPattern (size - 4) 3 q) (\<lambda>q.
         bindR (drawFinderPattern 3 (size - 4) q) (\<lambda>q.
         let alignPatPos = getAlignmentPatternPositions q; numAlign = length alignPatPos
         in bindR (forR (\<lambda>(a, b). drawAlignmentPattern (alignPatPos ! a) (alignPatPos ! b))
                     [(a, b). a \<leftarrow> [0..<numAlign], b \<leftarrow> [0..<numAlign],
                        \<not> (a = 0 \<and> b = 0 \<or> a = 0 \<and> b = numAlign - 1 \<or> a = numAlign - 1 \<and> b = 0)] q) (\<lambda>q.
            bindR (drawFormatBits 0 q) (\<lambda>q.
              drawVersion q)))))))"

section \<open>Well-formed symbols and writes inside the grid\<close>

definition square :: "int \<Rightarrow> bool list list \<Rightarrow> bool" where
  "square n g \<longleftrightarrow> int (length g) = n \<and> (\<forall>row \<in> set g. int (length row) = n)"

definition wf_qr :: "QrCode \<Rightarrow> bool" where
  "wf_qr q \<longleftrightarrow> qr_size q = int (qr_version q) * 4 + 17
     \<and> square (qr_size q) (qr_modules q) \<and> square (qr_size q) (qr_isFunction q)"

definition inside :: "int \<Rightarrow> int \<Rightarrow> int \<Rightarrow> bool" where
  "inside n x y \<longleftrightarrow> 0 \<le> x \<and> x < n \<and> 0 \<le> y \<and> y < n"

definition writes_inside :: "int \<Rightarrow> writes \<Rightarrow> bool" where
  "writes_inside n ws \<longleftrightarrow> (\<forall>(x, y, v) \<in> set ws. inside n x y)"

definition put :: "int \<Rightarrow> int \<Rightarrow> bool \<Rightarrow> bool list list \<Rightarrow> bool list list" where
  "put x y v g = g[nat y := (g ! nat y)[nat x := v]]"

text \<open>The grid as an interface: what a read returns after a write, and that writes keep the
  shape. The client lemmas below (what a sequence of writes leaves behind) use nothing else.\<close>

locale module_grid =
  fixes shape :: "int \<Rightarrow> 'g \<Rightarrow> bool" and get :: "'g \<Rightarrow> int \<Rightarrow> int \<Rightarrow> bool"
    and upd :: "int \<Rightarrow> int \<Rightarrow> bool \<Rightarrow> 'g \<Rightarrow> 'g"
  assumes shape_upd: "shape n g \<Longrightarrow> inside n x y \<Longrightarrow> shape n (upd x y v g)"
    and get_upd: "shape n g \<Longrightarrow> inside n x y \<Longrightarrow> inside n x' y' \<Longrightarrow>
      get (upd x y v g) x' y' = (if x' = x \<and> y' = y then v else get g x' y')"
begin

definition paint :: "writes \<Rightarrow> 'g \<Rightarrow> 'g" where
  "paint ws g = fold (\<lambda>(x, y, v). upd x y v) ws g"

lemma shape_paint: "shape n g \<Longrightarrow> writes_inside n ws \<Longrightarrow> shape n (paint ws g)"
  unfolding paint_def writes_inside_def
  by (induction ws arbitrary: g) (auto simp: shape_upd)

text \<open>A cell holds the last value written to it, or its old value when it was never written.\<close>

lemma get_paint:
  assumes "shape n g" and "writes_inside n ws" and "inside n x y"
  shows "get (paint ws g) x y =
    (case map_of (rev (map (\<lambda>(x, y, v). ((x, y), v)) ws)) (x, y) of Some v \<Rightarrow> v | None \<Rightarrow> get g x y)"
  using assms(1,2)
proof (induction ws arbitrary: g)
  case Nil
  then show ?case by (simp add: paint_def)
next
  case (Cons w ws)
  obtain x1 y1 v1 where w: "w = (x1, y1, v1)" by (cases w) auto
  have "inside n x1 y1" "writes_inside n ws" using Cons.prems w by (auto simp: writes_inside_def)
  then show ?case
    using Cons.IH [of "upd x1 y1 v1 g"] Cons.prems(1) assms(3)
    by (auto simp: w paint_def shape_upd get_upd map_add_def split: option.splits)
qed

lemma paint_append: "paint (ws @ vs) g = paint vs (paint ws g)"
  by (simp add: paint_def)

end

lemma square_row: "square n g \<Longrightarrow> 0 \<le> y \<Longrightarrow> y < n \<Longrightarrow> int (length (g ! nat y)) = n"
  by (auto simp: square_def)

interpretation grid: module_grid square cell put
proof
  fix n g x y v
  assume g: "square n g" and xy: "inside n x y"
  then have "nat y < length g" by (auto simp: square_def inside_def)
  then have "set (put x y v g) \<subseteq> insert ((g ! nat y)[nat x := v]) (set g)"
    unfolding put_def by (intro set_update_subset_insert)
  moreover have "int (length (g ! nat y)) = n" using g xy by (auto simp: inside_def square_row)
  ultimately show "square n (put x y v g)"
    using g by (auto simp: square_def put_def)
next
  fix n g x y x' y' v
  assume "square n g" "inside n x y" "inside n x' y'"
  then have in1: "0 \<le> x" "x < n" "0 \<le> y" "y < n" and in2: "0 \<le> x'" "0 \<le> y'"
    and len: "int (length g) = n" "int (length (g ! nat y)) = n"
    using square_row [of n g y] unfolding inside_def square_def by blast+
  have "nat y < length g" "nat x < length (g ! nat y)" using in1 len by linarith+
  moreover have "nat y = nat y' \<longleftrightarrow> y' = y" "nat x = nat x' \<longleftrightarrow> x' = x"
    using in1 in2 by (auto simp: eq_nat_nat_iff)
  ultimately show "cell (put x y v g) x' y' = (if x' = x \<and> y' = y then v else cell g x' y')"
    by (cases "y' = y"; cases "x' = x") (simp_all add: cell_def put_def nth_list_update)
qed

abbreviation paint :: "writes \<Rightarrow> bool list list \<Rightarrow> bool list list" where
  "paint \<equiv> grid.paint"

abbreviation marks :: "writes \<Rightarrow> writes" where
  "marks ws \<equiv> map (\<lambda>(x, y, v). (x, y, True)) ws"

lemma setCell_ok: "square n g \<Longrightarrow> inside n x y \<Longrightarrow> setCell g x y v = Inr (put x y v g)"
  by (auto simp: setCell_def arr_get_def put_def square_def inside_def)

lemma writes_inside_simps [simp]:
  "writes_inside n []" "writes_inside n ((x, y, v) # ws) \<longleftrightarrow> inside n x y \<and> writes_inside n ws"
  "writes_inside n (ws @ vs) \<longleftrightarrow> writes_inside n ws \<and> writes_inside n vs"
  by (simp_all add: writes_inside_def ball_Un)

lemma wf_qrD:
  assumes "wf_qr q"
  shows "square (qr_size q) (qr_modules q)" "square (qr_size q) (qr_isFunction q)"
    "qr_size q = int (qr_version q) * 4 + 17"
  using assms by (auto simp: wf_qr_def)

lemma wf_qr_update:
  "wf_qr q \<Longrightarrow> square (qr_size q) m \<Longrightarrow> square (qr_size q) f \<Longrightarrow> wf_qr (q\<lparr>qr_modules := m, qr_isFunction := f\<rparr>)"
  by (simp add: wf_qr_def)

lemma setAll_ok:
  assumes "wf_qr q" and "writes_inside (qr_size q) ws"
  shows "setAll ws q = Inr (q\<lparr>qr_modules := paint ws (qr_modules q), qr_isFunction := paint (marks ws) (qr_isFunction q)\<rparr>)"
  using assms
proof (induction ws arbitrary: q)
  case Nil
  then show ?case by (simp add: setAll_def grid.paint_def)
next
  case (Cons w ws)
  obtain x y v where w: "w = (x, y, v)" by (cases w) auto
  let ?q = "q\<lparr>qr_modules := put x y v (qr_modules q), qr_isFunction := put x y True (qr_isFunction q)\<rparr>"
  have xy: "inside (qr_size q) x y" and ws: "writes_inside (qr_size q) ws" using Cons.prems w by auto
  have step: "setFunctionModule x y v q = Inr ?q"
    using wf_qrD [OF Cons.prems(1)] xy
    by (simp only: setFunctionModule_def setCell_ok [of "qr_size q"] bindR.simps)
  have "wf_qr ?q" using wf_qrD [OF Cons.prems(1)] xy Cons.prems(1) by (intro wf_qr_update grid.shape_upd)
  with Cons.IH [of ?q] ws show ?case
    by (simp add: setAll_def w step grid.paint_def)
qed

lemma wf_setAll:
  assumes "wf_qr q" and "writes_inside (qr_size q) ws"
  shows "wf_qr (q\<lparr>qr_modules := paint ws (qr_modules q), qr_isFunction := paint (marks ws) (qr_isFunction q)\<rparr>)"
proof -
  have "writes_inside (qr_size q) (marks ws)" using assms(2) by (auto simp: writes_inside_def)
  then show ?thesis using wf_qrD [OF assms(1)] assms by (intro wf_qr_update grid.shape_paint)
qed

section \<open>The function patterns as one list of writes\<close>

abbreviation sizeOf :: "nat \<Rightarrow> int" where
  "sizeOf version \<equiv> int version * 4 + 17"

definition alignPos :: "nat \<Rightarrow> int list" where
  "alignPos version = (if version = 1 then []
     else alignLoop (version div 7 + 2) (sizeOf version - 7) (int (alignStep version)) [6])"

lemma getAlignmentPatternPositions_alignPos: "wf_qr q \<Longrightarrow> getAlignmentPatternPositions q = alignPos (qr_version q)"
  by (simp add: getAlignmentPatternPositions_def alignPos_def wf_qr_def)

text \<open>What the positions of the 40 versions look like: they start at 6, end seven modules before
  the edge, and are at least 16 modules apart.\<close>

fun spaced :: "int \<Rightarrow> int list \<Rightarrow> bool" where
  "spaced d (x # y # zs) \<longleftrightarrow> x + d \<le> y \<and> spaced d (y # zs)"
| "spaced d zs \<longleftrightarrow> True"

definition align_ok :: "nat \<Rightarrow> bool" where
  "align_ok version \<longleftrightarrow> (let ps = alignPos version in
     spaced 12 ps \<and> (2 \<le> version \<longrightarrow> length ps = version div 7 + 2 \<and> hd ps = 6 \<and> last ps = sizeOf version - 7))"

lemma align_ok_table: "list_all align_ok all_versions"
  by code_simp

definition finderWrites :: "int \<Rightarrow> int \<Rightarrow> int \<Rightarrow> writes" where
  "finderWrites sz x y = [(x + dx, y + dy, max \<bar>dx\<bar> \<bar>dy\<bar> \<noteq> 2 \<and> max \<bar>dx\<bar> \<bar>dy\<bar> \<noteq> 4).
     dy \<leftarrow> [-4..4], dx \<leftarrow> [-4..4], 0 \<le> x + dx \<and> x + dx < sz \<and> 0 \<le> y + dy \<and> y + dy < sz]"

definition alignWrites :: "int \<Rightarrow> int \<Rightarrow> writes" where
  "alignWrites x y = [(x + dx, y + dy, max \<bar>dx\<bar> \<bar>dy\<bar> \<noteq> 1). dy \<leftarrow> [-2..2], dx \<leftarrow> [-2..2]]"

definition timingWrites :: "int \<Rightarrow> writes" where
  "timingWrites sz = concat (map (\<lambda>i. [(6, i, i mod 2 = 0), (i, 6, i mod 2 = 0)]) [0..sz - 1])"

definition alignPairs :: "nat \<Rightarrow> (nat \<times> nat) list" where
  "alignPairs n = [(a, b). a \<leftarrow> [0..<n], b \<leftarrow> [0..<n],
     \<not> (a = 0 \<and> b = 0 \<or> a = 0 \<and> b = n - 1 \<or> a = n - 1 \<and> b = 0)]"

definition alignmentWrites :: "int list \<Rightarrow> writes" where
  "alignmentWrites ps = concat (map (\<lambda>(a, b). alignWrites (ps ! a) (ps ! b)) (alignPairs (length ps)))"

definition versionInfoWrites :: "nat \<Rightarrow> writes" where
  "versionInfoWrites version = (if version < 7 then [] else versionWrites (sizeOf version) (versionInfo version))"

definition functionWrites :: "nat \<Rightarrow> Ecc \<Rightarrow> writes" where
  "functionWrites version ecl =
     timingWrites (sizeOf version)
     @ finderWrites (sizeOf version) 3 3 @ finderWrites (sizeOf version) (sizeOf version - 4) 3
     @ finderWrites (sizeOf version) 3 (sizeOf version - 4)
     @ alignmentWrites (alignPos version)
     @ formatWrites (sizeOf version) (formatInfo ecl 0)
     @ versionInfoWrites version"

lemma setAll_append: "setAll (ws @ vs) q = bindR (setAll ws q) (setAll vs)"
  by (simp add: setAll_def forR_append)

lemma setAll_concat_map: "setAll (concat (map f xs)) q = forR (\<lambda>x. setAll (f x)) xs q"
proof (induction xs arbitrary: q)
  case Nil
  show ?case by (simp add: setAll_def)
next
  case (Cons x xs)
  then show ?case by (auto simp: setAll_append intro: bindR_cong)
qed

lemma setAll_keeps:
  assumes "setAll ws q = Inr q'"
  shows "qr_version q' = qr_version q \<and> qr_ecl q' = qr_ecl q \<and> qr_size q' = qr_size q \<and> qr_mask q' = qr_mask q"
  using assms unfolding setAll_def
  by (rule forR_invariant) (auto simp: setFunctionModule_def bindR_eq_Inr_iff)

text \<open>The two BCH remainders stay below their top bit, so the assertions on the information words
  hold.\<close>

definition below :: "nat \<Rightarrow> u32 \<Rightarrow> bool" where
  "below n w \<longleftrightarrow> (\<forall>k\<ge>n. \<not> bit w k)"

lemma belowD: "below n w \<Longrightarrow> n \<le> k \<Longrightarrow> \<not> bit w k"
  by (simp add: below_def)

lemma below_shr: "n < 32 \<Longrightarrow> below n w \<Longrightarrow> shr w n = 0"
  by (rule bit_word_eqI) (simp add: belowD)

lemma below_of_nat: "v < 2 ^ n \<Longrightarrow> below n (of_nat v)"
proof -
  assume v: "v < 2 ^ n"
  have "\<not> bit v k" if "n \<le> k" for k
  proof -
    have "v < 2 ^ k" using v that by (metis less_le_trans one_le_numeral power_increasing)
    then show ?thesis by (simp add: bit_iff_odd)
  qed
  then show ?thesis by (auto simp: below_def bit_of_nat_iff)
qed

lemma below_shl: "below n w \<Longrightarrow> m < 32 \<Longrightarrow> below (n + m) (shl w m)"
  by (auto simp: below_def)

lemma below_or: "below n v \<Longrightarrow> below n w \<Longrightarrow> below n (v OR w)"
  and below_xor: "below n v \<Longrightarrow> below n w \<Longrightarrow> below n (v XOR w)"
  by (simp_all add: below_def bit_or_iff bit_xor_iff)

lemma below_mono: "below m w \<Longrightarrow> m \<le> n \<Longrightarrow> below n w"
  by (simp add: below_def)

lemma bchStep_below:
  assumes "hi < 30" and "below (Suc hi) w" and "bit poly (Suc hi)" and "below (Suc (Suc hi)) poly"
  shows "below (Suc hi) (bchStep hi poly w)"
proof -
  have "shr w hi = of_bool (bit w hi)"
  proof (rule bit_word_eqI)
    fix n
    have "bit w (hi + n) \<Longrightarrow> n = 0" using belowD [OF assms(2), of "hi + n"] by (cases n) auto
    then show "bit (shr w hi) n = bit (of_bool (bit w hi) :: u32) n"
      using assms(1) by (auto simp: bit_1_iff)
  qed
  then have "bchStep hi poly w = shl w 1 XOR (if bit w hi then poly else 0)"
    by (simp add: bchStep_def)
  moreover have "\<not> bit (shl w 1 XOR (if bit w hi then poly else 0)) k" if "Suc hi \<le> k" for k
  proof (cases "k = Suc hi")
    case True
    then show ?thesis using assms(1,3) by (auto simp: bit_xor_iff)
  next
    case False
    then have "Suc (Suc hi) \<le> k" "Suc hi \<le> k - 1" using that by auto
    then show ?thesis using belowD [OF assms(2)] belowD [OF assms(4)] by (auto simp: bit_xor_iff)
  qed
  ultimately show ?thesis by (simp add: below_def)
qed

lemma bchSteps_below:
  assumes "hi < 30" and "below (Suc hi) w" and "bit poly (Suc hi)" and "below (Suc (Suc hi)) poly"
  shows "below (Suc hi) ((bchStep hi poly ^^ n) w)"
  by (induction n) (use assms in \<open>auto intro: bchStep_below\<close>)

lemma below_word_of_int: "0 \<le> m \<Longrightarrow> m < 2 ^ n \<Longrightarrow> below n (word_of_int m)"
  using below_of_nat [of "nat m" n] by (simp add: nat_less_iff)

lemma formatInfo_below:
  assumes "0 \<le> m" and "m \<le> 7"
  shows "below 15 (formatInfo ecl (word_of_int m))"
proof -
  let ?d = "shl (formatBits ecl) 3 OR word_of_int m"
  have "below 2 (formatBits ecl)" by (cases ecl) (use below_of_nat [of 0 2] below_of_nat [of 1 2] below_of_nat [of 2 2] below_of_nat [of 3 2] in simp_all)
  then have d: "below 5 ?d"
    using below_shl [of 2 _ 3] below_mono [OF below_word_of_int [of m 3], of 5] assms by (auto intro: below_or)
  have "below 10 ((bchStep 9 0x537 ^^ 10) ?d)"
    using bchSteps_below [of 9 ?d "0x537" 10] below_mono [OF d, of 10] below_of_nat [of "0x537" 11] by simp
  moreover have "below 15 (shl ?d 10)" using below_shl [OF d, of 10] by simp
  moreover have "below 15 (0x5412 :: u32)" using below_of_nat [of "0x5412" 15] by simp
  ultimately show ?thesis
    unfolding formatInfo_def Let_def by (auto intro!: below_or below_xor elim: below_mono)
qed

lemma versionInfo_below:
  assumes "version \<le> 40"
  shows "below 18 (versionInfo version)"
proof -
  have d: "below 6 (of_nat version)" using assms by (intro below_of_nat) simp
  have "below 12 ((bchStep 11 0x1f25 ^^ 12) (of_nat version))"
    using bchSteps_below [of 11 "of_nat version" "0x1f25" 12] below_mono [OF d, of 12] below_of_nat [of "0x1f25" 13] by simp
  moreover have "below 18 (shl (of_nat version) 12)" using below_shl [OF d, of 12] by simp
  ultimately show ?thesis
    unfolding versionInfo_def Let_def by (auto intro!: below_or elim: below_mono)
qed

section \<open>Every write stays inside the grid\<close>

lemma spaced_bounds: "0 \<le> d \<Longrightarrow> spaced d ps \<Longrightarrow> \<forall>p \<in> set ps. hd ps \<le> p \<and> p \<le> last ps"
proof (induction d ps rule: spaced.induct)
  case (1 d x y zs)
  then have IH: "\<forall>p \<in> set (y # zs). y \<le> p \<and> p \<le> last (y # zs)" by simp
  then have "y \<le> last (y # zs)" by auto
  with IH "1.prems" show ?case by auto
qed auto

lemma alignPos_facts:
  assumes "1 \<le> version" and "version \<le> 40"
  shows "spaced 12 (alignPos version)"
    and "p \<in> set (alignPos version) \<Longrightarrow> 6 \<le> p \<and> p \<le> sizeOf version - 7"
    and "2 \<le> version \<Longrightarrow> length (alignPos version) = version div 7 + 2 \<and> hd (alignPos version) = 6
      \<and> last (alignPos version) = sizeOf version - 7"
proof -
  have "version \<in> set all_versions" using assms by (simp add: all_versions_def)
  then have ok: "align_ok version" using align_ok_table by (simp add: list_all_iff)
  then show sp: "spaced 12 (alignPos version)" by (simp add: align_ok_def Let_def)
  show ends: "2 \<le> version \<Longrightarrow> length (alignPos version) = version div 7 + 2 \<and> hd (alignPos version) = 6
      \<and> last (alignPos version) = sizeOf version - 7"
    using ok by (simp add: align_ok_def Let_def)
  assume p: "p \<in> set (alignPos version)"
  then have "2 \<le> version" using assms(1) by (cases "version = 1") (auto simp: alignPos_def)
  with ends p spaced_bounds [OF _ sp] show "6 \<le> p \<and> p \<le> sizeOf version - 7" by auto
qed

lemma inside_timing: "6 < sz \<Longrightarrow> writes_inside sz (timingWrites sz)"
  by (auto simp: writes_inside_def timingWrites_def inside_def)

lemma inside_finder: "writes_inside sz (finderWrites sz x y)"
  by (auto simp: writes_inside_def finderWrites_def inside_def)

lemma inside_align:
  "2 \<le> x \<Longrightarrow> x \<le> sz - 3 \<Longrightarrow> 2 \<le> y \<Longrightarrow> y \<le> sz - 3 \<Longrightarrow> writes_inside sz (alignWrites x y)"
  by (auto simp: writes_inside_def alignWrites_def inside_def)

lemma inside_format: "21 \<le> sz \<Longrightarrow> writes_inside sz (formatWrites sz bits)"
  by (auto simp: writes_inside_def formatWrites_def inside_def)

lemma inside_version: "21 \<le> sz \<Longrightarrow> writes_inside sz (versionWrites sz bits)"
proof -
  assume "21 \<le> sz"
  moreover have "i mod 3 < (3 :: nat)" "i < 18 \<Longrightarrow> i div 3 < (6 :: nat)" for i :: nat
    by (auto simp: less_mult_imp_div_less)
  ultimately show ?thesis
    by (fastforce simp: writes_inside_def versionWrites_def inside_def Let_def)
qed

lemma inside_alignment:
  assumes "1 \<le> version" and "version \<le> 40"
  shows "writes_inside (sizeOf version) (alignmentWrites (alignPos version))"
proof -
  let ?ps = "alignPos version"
  have "writes_inside (sizeOf version) (alignWrites (?ps ! a) (?ps ! b))"
    if "(a, b) \<in> set (alignPairs (length ?ps))" for a b
  proof -
    have "?ps ! a \<in> set ?ps" "?ps ! b \<in> set ?ps" using that by (auto simp: alignPairs_def)
    then show ?thesis using alignPos_facts(2) [OF assms] by (intro inside_align) force+
  qed
  then show ?thesis by (fastforce simp: writes_inside_def alignmentWrites_def)
qed

lemma inside_functionWrites:
  assumes "1 \<le> version" and "version \<le> 40"
  shows "writes_inside (sizeOf version) (functionWrites version ecl)"
  using assms
  by (simp add: functionWrites_def versionInfoWrites_def inside_timing inside_finder inside_alignment
      inside_format inside_version)

text \<open>So the routines succeed on every well-formed symbol, and what they do is the painting of
  their list of writes.\<close>

definition painted :: "writes \<Rightarrow> QrCode \<Rightarrow> QrCode" where
  "painted ws q = q\<lparr>qr_modules := paint ws (qr_modules q), qr_isFunction := paint (marks ws) (qr_isFunction q)\<rparr>"

lemma painted_fields [simp]:
  "qr_version (painted ws q) = qr_version q" "qr_ecl (painted ws q) = qr_ecl q"
  "qr_size (painted ws q) = qr_size q" "qr_mask (painted ws q) = qr_mask q"
  "qr_modules (painted ws q) = paint ws (qr_modules q)"
  "qr_isFunction (painted ws q) = paint (marks ws) (qr_isFunction q)"
  by (simp_all add: painted_def)

lemma painted_append: "painted (ws @ vs) q = painted vs (painted ws q)"
  by (simp add: painted_def grid.paint_append)

lemma setAll_painted: "wf_qr q \<Longrightarrow> writes_inside (qr_size q) ws \<Longrightarrow> setAll ws q = Inr (painted ws q)"
  by (simp add: setAll_ok painted_def)

lemma wf_painted: "wf_qr q \<Longrightarrow> writes_inside (qr_size q) ws \<Longrightarrow> wf_qr (painted ws q)"
  using wf_setAll [of q ws] by (simp add: painted_def)

lemma wf_size_21: "wf_qr q \<Longrightarrow> 1 \<le> qr_version q \<Longrightarrow> 21 \<le> qr_size q"
  by (simp add: wf_qr_def)

lemma drawFormatBits_painted:
  assumes "wf_qr q" and "1 \<le> qr_version q" and "0 \<le> m" and "m \<le> 7"
  shows "drawFormatBits m q = Inr (painted (formatWrites (qr_size q) (formatInfo (qr_ecl q) (word_of_int m))) q)"
proof -
  have "shr (formatInfo (qr_ecl q) (word_of_int m)) 15 = 0"
    using formatInfo_below [OF assms(3,4)] by (intro below_shr) auto
  then show ?thesis
    using setAll_painted [OF assms(1) inside_format] wf_size_21 [OF assms(1,2)]
    by (simp add: drawFormatBits_def)
qed

lemma drawVersion_painted:
  assumes "wf_qr q" and "1 \<le> qr_version q" and "qr_version q \<le> 40"
  shows "drawVersion q = Inr (painted (versionInfoWrites (qr_version q)) q)"
proof (cases "qr_version q < 7")
  case True
  then show ?thesis by (simp add: drawVersion_def versionInfoWrites_def painted_def grid.paint_def)
next
  case False
  have "shr (versionInfo (qr_version q)) 18 = 0"
    using versionInfo_below [OF assms(3)] by (intro below_shr) auto
  then show ?thesis
    using False setAll_painted [OF assms(1) inside_version] wf_size_21 [OF assms(1,2)] wf_qrD(3) [OF assms(1)]
    by (simp add: drawVersion_def versionInfoWrites_def)
qed

lemma drawFinderPattern_painted: "wf_qr q \<Longrightarrow> drawFinderPattern x y q = Inr (painted (finderWrites (qr_size q) x y) q)"
  using setAll_painted [OF _ inside_finder] by (simp only: drawFinderPattern_def finderWrites_def)

lemma drawAlignmentPattern_setAll: "drawAlignmentPattern x y = setAll (alignWrites x y)"
  by (simp only: drawAlignmentPattern_def alignWrites_def)

lemma drawFunctionPatterns_painted:
  assumes wf: "wf_qr q" and v: "1 \<le> qr_version q" "qr_version q \<le> 40"
  shows "drawFunctionPatterns q = Inr (painted (functionWrites (qr_version q) (qr_ecl q)) q)"
proof -
  let ?v = "qr_version q" and ?sz = "qr_size q"
  have sz: "?sz = sizeOf ?v" using wf_qrD(3) [OF wf] .
  define q1 where "q1 = painted (timingWrites ?sz) q"
  define q2 where "q2 = painted (finderWrites ?sz 3 3) q1"
  define q3 where "q3 = painted (finderWrites ?sz (?sz - 4) 3) q2"
  define q4 where "q4 = painted (finderWrites ?sz 3 (?sz - 4)) q3"
  define q5 where "q5 = painted (alignmentWrites (alignPos ?v)) q4"
  define q6 where "q6 = painted (formatWrites ?sz (formatInfo (qr_ecl q) 0)) q5"
  note defs = q1_def q2_def q3_def q4_def q5_def q6_def
  have keep [simp]: "qr_version q6 = ?v" "qr_version q5 = ?v" "qr_version q4 = ?v" "qr_size q6 = ?sz" "qr_size q5 = ?sz"
    "qr_size q4 = ?sz" "qr_size q3 = ?sz" "qr_size q2 = ?sz" "qr_size q1 = ?sz" "qr_ecl q5 = qr_ecl q"
    by (simp_all add: defs)
  have big: "21 \<le> ?sz" using wf_size_21 [OF wf v(1)] .
  have w1: "wf_qr q1" unfolding q1_def using wf big by (intro wf_painted inside_timing) auto
  have w2: "wf_qr q2" unfolding q2_def using w1 by (intro wf_painted) (simp_all add: inside_finder)
  have w3: "wf_qr q3" unfolding q3_def using w2 by (intro wf_painted) (simp_all add: inside_finder)
  have w4: "wf_qr q4" unfolding q4_def using w3 by (intro wf_painted) (simp_all add: inside_finder)
  have w5: "wf_qr q5" unfolding q5_def using w4 inside_alignment [OF v] by (intro wf_painted) (simp_all add: sz)
  have w6: "wf_qr q6" unfolding q6_def using w5 big by (intro wf_painted) (simp_all add: inside_format)
  have s1: "setAll (timingWrites ?sz) q = Inr q1"
    unfolding q1_def using wf big by (intro setAll_painted inside_timing) auto
  have s2: "drawFinderPattern 3 3 q1 = Inr q2" and s3: "drawFinderPattern (?sz - 4) 3 q2 = Inr q3"
    and s4: "drawFinderPattern 3 (?sz - 4) q3 = Inr q4"
    using drawFinderPattern_painted w1 w2 w3 by (simp_all add: q2_def q3_def q4_def)
  have s5: "forR (\<lambda>(a, b). drawAlignmentPattern (alignPos ?v ! a) (alignPos ?v ! b))
      (alignPairs (length (alignPos ?v))) q4 = Inr q5"
    using setAll_painted [OF w4, of "alignmentWrites (alignPos ?v)"] inside_alignment [OF v]
    by (simp add: alignmentWrites_def setAll_concat_map drawAlignmentPattern_setAll
        case_prod_beta' q5_def sz)
  have s6: "drawFormatBits 0 q5 = Inr q6"
    using drawFormatBits_painted [OF w5, of 0] v(1) by (simp add: q6_def)
  have s7: "drawVersion q6 = Inr (painted (versionInfoWrites ?v) q6)"
    using drawVersion_painted [OF w6] v by simp
  have "drawFunctionPatterns q = Inr (painted (versionInfoWrites ?v) q6)"
    unfolding drawFunctionPatterns_def Let_def timingWrites_def [symmetric] alignPairs_def [symmetric]
    using s1 s2 s3 s4 s5 s6 s7 getAlignmentPatternPositions_alignPos [OF w4] by simp
  then show ?thesis
    by (simp add: functionWrites_def painted_append defs sz)
qed

end
