(* ===== verification/Qr_Mask.thy ===== *)
theory Qr_Mask
  imports Qr_Grid
begin

unbundle bit_operations_syntax

text \<open>
  The data area of a symbol in \<^verbatim>\<open>webui/qr.js\<close>: the zigzag scan that places the code
  words (\<^verbatim>\<open>drawCodewords\<close>) and the eight masks (\<^verbatim>\<open>applyMask\<close>). The lemmas say that
  the scan visits every module outside the vertical timing column exactly once, that the code
  words can be read back along it, and that masking is an involution which leaves the function
  modules alone.
\<close>

section \<open>The two routines\<close>

text \<open>The values of \<^verbatim>\<open>right\<close> in the outer loop, after the jump over the timing column.\<close>

function scanColumns :: "int \<Rightarrow> int list" where
  "scanColumns right =
     (if right \<ge> 1
      then let right = (if right = 6 then 5 else right) in right # scanColumns (right - 2)
      else [])"
  by pat_completeness auto
termination
  by (relation "measure nat") (auto simp: Let_def)

declare scanColumns.simps [simp del]

definition scanColumn :: "int \<Rightarrow> int \<Rightarrow> (int \<times> int) list" where
  "scanColumn sz right =
     [(right - j, if (word_of_int (right + 1) :: u32) AND 2 = 0 then sz - 1 - vert else vert).
        vert \<leftarrow> [0..sz - 1], j \<leftarrow> [0, 1]]"

definition scanOrder :: "int \<Rightarrow> (int \<times> int) list" where
  "scanOrder sz = concat (map (scanColumn sz) (scanColumns (sz - 1)))"

definition drawCodewordBit :: "u32 list \<Rightarrow> int \<times> int \<Rightarrow> nat \<times> QrCode \<Rightarrow> (nat \<times> QrCode) res" where
  "drawCodewordBit data xy iq =
     (let (x, y) = xy; (i, q) = iq
      in if \<not> cell (qr_isFunction q) x y \<and> i < length data * 8
         then bindR (setCell (qr_modules q) x y (getBit (data ! (i div 8)) (7 - i mod 8))) (\<lambda>m.
                Inr (i + 1, q\<lparr>qr_modules := m\<rparr>))
         else Inr (i, q))"

definition drawCodewords :: "u32 list \<Rightarrow> QrCode \<Rightarrow> QrCode res" where
  "drawCodewords data q =
     bindR (forR (drawCodewordBit data) (scanOrder (qr_size q)) (0, q)) (\<lambda>(i, q). Inr q)"

definition maskInvert :: "int \<Rightarrow> int \<Rightarrow> int \<Rightarrow> bool option" where
  "maskInvert msk x y =
     (if msk = 0 then Some ((x + y) mod 2 = 0)
      else if msk = 1 then Some (y mod 2 = 0)
      else if msk = 2 then Some (x mod 3 = 0)
      else if msk = 3 then Some ((x + y) mod 3 = 0)
      else if msk = 4 then Some ((x div 3 + y div 2) mod 2 = 0)
      else if msk = 5 then Some ((x * y) mod 2 + (x * y) mod 3 = 0)
      else if msk = 6 then Some (((x * y) mod 2 + (x * y) mod 3) mod 2 = 0)
      else if msk = 7 then Some (((x + y) mod 2 + (x * y) mod 3) mod 2 = 0)
      else None)"

definition rowMajor :: "int \<Rightarrow> (int \<times> int) list" where
  "rowMajor sz = [(x, y). y \<leftarrow> [0..sz - 1], x \<leftarrow> [0..sz - 1]]"

definition maskModule :: "int \<Rightarrow> int \<times> int \<Rightarrow> QrCode \<Rightarrow> QrCode res" where
  "maskModule msk xy q =
     (let (x, y) = xy
      in case maskInvert msk x y of
           None \<Rightarrow> Inl (Error ''unreachable'')
         | Some invert \<Rightarrow>
             if \<not> cell (qr_isFunction q) x y \<and> invert
             then bindR (setCell (qr_modules q) x y (\<not> cell (qr_modules q) x y)) (\<lambda>m. Inr (q\<lparr>qr_modules := m\<rparr>))
             else Inr q)"

definition applyMask :: "int \<Rightarrow> QrCode \<Rightarrow> QrCode res" where
  "applyMask msk q = forR (maskModule msk) (rowMajor (qr_size q)) q"

section \<open>Loops over distinct modules\<close>

text \<open>Both routines visit distinct modules and write each at most once, so the result is
  the simultaneous write of a list of cells.\<close>

lemma square_eqI:
  assumes "square n g" and "square n h" and "\<And>x y. inside n x y \<Longrightarrow> cell g x y = cell h x y"
  shows "g = h"
proof (rule nth_equalityI)
  show len: "length g = length h" using assms(1,2) unfolding square_def by linarith
  fix i assume i: "i < length g"
  have gi: "int (length (g ! i)) = n" "int (length (h ! i)) = n"
    using assms(1,2) i len by (auto simp: square_def)
  show "g ! i = h ! i"
  proof (rule nth_equalityI)
    show "length (g ! i) = length (h ! i)" using gi by linarith
    fix j assume "j < length (g ! i)"
    then have "inside n (int j) (int i)" using assms(1) i gi by (auto simp: inside_def square_def)
    from assms(3) [OF this] show "g ! i ! j = h ! i ! j" by (simp add: cell_def)
  qed
qed

lemma distinct_concat_map:
  assumes "distinct xs" and "\<And>x. x \<in> set xs \<Longrightarrow> distinct (f x)"
    and "\<And>x y. x \<in> set xs \<Longrightarrow> y \<in> set xs \<Longrightarrow> x \<noteq> y \<Longrightarrow> set (f x) \<inter> set (f y) = {}"
  shows "distinct (concat (map f xs))"
  using assms by (induction xs) fastforce+

definition cells_inside :: "int \<Rightarrow> (int \<times> int) list \<Rightarrow> bool" where
  "cells_inside n ps \<longleftrightarrow> (\<forall>(x, y) \<in> set ps. inside n x y)"

lemma distinct_rowMajor: "distinct (rowMajor n)"
  unfolding rowMajor_def by (rule distinct_concat_map) (auto simp: distinct_map inj_on_def)

lemma set_rowMajor: "set (rowMajor n) = {(x, y). inside n x y}"
  by (auto simp: rowMajor_def inside_def)

text \<open>A square grid given by the value of each module.\<close>

definition tabulate :: "int \<Rightarrow> (int \<Rightarrow> int \<Rightarrow> bool) \<Rightarrow> bool list list" where
  "tabulate n f = map (\<lambda>y. map (\<lambda>x. f x y) [0..n - 1]) [0..n - 1]"

lemma square_tabulate: "0 \<le> n \<Longrightarrow> square n (tabulate n f)"
  by (auto simp: square_def tabulate_def)

lemma cell_tabulate: "inside n x y \<Longrightarrow> cell (tabulate n f) x y = f x y"
  by (simp add: cell_def tabulate_def inside_def nth_upto nat_less_iff)

section \<open>Masking\<close>

definition maskGrid :: "int \<Rightarrow> QrCode \<Rightarrow> bool list list" where
  "maskGrid msk q = tabulate (qr_size q)
     (\<lambda>x y. cell (qr_modules q) x y \<noteq> (\<not> cell (qr_isFunction q) x y \<and> maskInvert msk x y = Some True))"

lemma wf_qr_nonneg: "wf_qr q \<Longrightarrow> 0 \<le> qr_size q"
  by (simp add: wf_qr_def)

lemma wf_set_modules: "wf_qr q \<Longrightarrow> square (qr_size q) m \<Longrightarrow> wf_qr (q\<lparr>qr_modules := m\<rparr>)"
  by (auto simp: wf_qr_def)

lemma maskInvert_total: "0 \<le> msk \<Longrightarrow> msk \<le> 7 \<Longrightarrow> \<exists>b. maskInvert msk x y = Some b"
  by (auto simp: maskInvert_def)

lemma maskModule_ok:
  assumes "wf_qr q" and "inside (qr_size q) x y" and "0 \<le> msk" and "msk \<le> 7"
  shows "maskModule msk (x, y) q = Inr (q\<lparr>qr_modules :=
    (if \<not> cell (qr_isFunction q) x y \<and> maskInvert msk x y = Some True
     then put x y (\<not> cell (qr_modules q) x y) (qr_modules q) else qr_modules q)\<rparr>)"
  using maskInvert_total [OF assms(3,4), of x y] setCell_ok [OF wf_qrD(1) [OF assms(1)] assms(2)]
  by (auto simp: maskModule_def)

lemma maskLoop:
  assumes "wf_qr q" and "cells_inside (qr_size q) ps" and "distinct ps" and "0 \<le> msk" and "msk \<le> 7"
  shows "\<exists>g. forR (maskModule msk) ps q = Inr (q\<lparr>qr_modules := g\<rparr>) \<and> square (qr_size q) g \<and>
    (\<forall>x y. inside (qr_size q) x y \<longrightarrow> cell g x y = (cell (qr_modules q) x y \<noteq>
      ((x, y) \<in> set ps \<and> \<not> cell (qr_isFunction q) x y \<and> maskInvert msk x y = Some True)))"
  using assms(1-3)
proof (induction ps arbitrary: q)
  case Nil
  then show ?case by (intro exI [of _ "qr_modules q"]) (simp add: wf_qrD(1))
next
  case (Cons p ps)
  obtain x y where p: "p = (x, y)" by (cases p)
  have xy: "inside (qr_size q) x y" and ps: "cells_inside (qr_size q) ps" "distinct ps" "(x, y) \<notin> set ps"
    using Cons.prems(2,3) by (auto simp: cells_inside_def p)
  define m where "m = (if \<not> cell (qr_isFunction q) x y \<and> maskInvert msk x y = Some True
     then put x y (\<not> cell (qr_modules q) x y) (qr_modules q) else qr_modules q)"
  have step: "maskModule msk (x, y) q = Inr (q\<lparr>qr_modules := m\<rparr>)"
    using maskModule_ok [OF Cons.prems(1) xy assms(4,5)] by (simp add: m_def)
  have sq: "square (qr_size q) m"
    using wf_qrD(1) [OF Cons.prems(1)] xy by (auto simp: m_def grid.shape_upd)
  have m: "cell m x' y' = (cell (qr_modules q) x' y' \<noteq>
      ((x', y') = (x, y) \<and> \<not> cell (qr_isFunction q) x y \<and> maskInvert msk x y = Some True))"
    if "inside (qr_size q) x' y'" for x' y'
    using grid.get_upd [OF wf_qrD(1) [OF Cons.prems(1)] xy that] by (auto simp: m_def)
  from Cons.IH [of "q\<lparr>qr_modules := m\<rparr>"] wf_set_modules [OF Cons.prems(1) sq] ps
  obtain g where g: "forR (maskModule msk) ps (q\<lparr>qr_modules := m\<rparr>) = Inr (q\<lparr>qr_modules := g\<rparr>)"
    "square (qr_size q) g"
    "\<And>x y. inside (qr_size q) x y \<Longrightarrow> cell g x y = (cell m x y \<noteq>
      ((x, y) \<in> set ps \<and> \<not> cell (qr_isFunction q) x y \<and> maskInvert msk x y = Some True))"
    by auto
  show ?case
  proof (intro exI [of _ g] conjI allI impI)
    show "forR (maskModule msk) (p # ps) q = Inr (q\<lparr>qr_modules := g\<rparr>)" using step g(1) by (simp add: p)
    show "square (qr_size q) g" by (rule g(2))
    fix x' y' assume i: "inside (qr_size q) x' y'"
    show "cell g x' y' = (cell (qr_modules q) x' y' \<noteq>
      ((x', y') \<in> set (p # ps) \<and> \<not> cell (qr_isFunction q) x' y' \<and> maskInvert msk x' y' = Some True))"
      using g(3) [OF i] m [OF i] ps(3) by (auto simp: p)
  qed
qed

lemma applyMask_ok:
  assumes "wf_qr q" and "0 \<le> msk" and "msk \<le> 7"
  shows "applyMask msk q = Inr (q\<lparr>qr_modules := maskGrid msk q\<rparr>)"
proof -
  have "cells_inside (qr_size q) (rowMajor (qr_size q))" by (auto simp: cells_inside_def set_rowMajor)
  from maskLoop [OF assms(1) this distinct_rowMajor assms(2,3)] obtain g where
    g: "applyMask msk q = Inr (q\<lparr>qr_modules := g\<rparr>)" "square (qr_size q) g"
    "\<And>x y. inside (qr_size q) x y \<Longrightarrow> cell g x y = (cell (qr_modules q) x y \<noteq>
      (\<not> cell (qr_isFunction q) x y \<and> maskInvert msk x y = Some True))"
    by (auto simp: applyMask_def set_rowMajor)
  have "g = maskGrid msk q"
    by (rule square_eqI [OF g(2)])
      (simp_all add: maskGrid_def square_tabulate cell_tabulate g(3) wf_qr_nonneg [OF assms(1)])
  with g(1) show ?thesis by simp
qed

lemma square_maskGrid: "wf_qr q \<Longrightarrow> square (qr_size q) (maskGrid msk q)"
  by (simp add: maskGrid_def square_tabulate wf_qr_nonneg)

lemma cell_maskGrid:
  "inside (qr_size q) x y \<Longrightarrow> cell (maskGrid msk q) x y =
    (cell (qr_modules q) x y \<noteq> (\<not> cell (qr_isFunction q) x y \<and> maskInvert msk x y = Some True))"
  by (simp add: maskGrid_def cell_tabulate)

lemma wf_masked: "wf_qr q \<Longrightarrow> wf_qr (q\<lparr>qr_modules := maskGrid msk q\<rparr>)"
  by (simp add: wf_set_modules square_maskGrid)

lemma applyMask_unreachable:
  assumes "wf_qr q" and "\<not> (0 \<le> msk \<and> msk \<le> 7)"
  shows "applyMask msk q = Inl (Error ''unreachable'')"
proof -
  have "rowMajor (qr_size q) \<noteq> []"
    using set_rowMajor [of "qr_size q"] assms(1) by (force simp: wf_qr_def inside_def)
  then obtain x y ps where "rowMajor (qr_size q) = (x, y) # ps" by (metis list.exhaust surj_pair)
  moreover have "maskInvert msk x y = None" using assms(2) by (auto simp: maskInvert_def)
  ultimately show ?thesis by (simp add: applyMask_def maskModule_def)
qed

section \<open>The scan order\<close>

lemma scanColumns_even: "scanColumns (int (2 * n) + 6) = map (\<lambda>k. int (2 * k) + 6) (rev [1..<Suc n]) @ [5, 3, 1]"
proof (induction n)
  case 0
  show ?case by (simp add: scanColumns.simps)
next
  case (Suc n)
  have "scanColumns (int (2 * Suc n) + 6) = (int (2 * Suc n) + 6) # scanColumns (int (2 * n) + 6)"
    by (subst scanColumns.simps) (simp add: Let_def algebra_simps)
  then show ?case using Suc by simp
qed

lemma scanColumns_symbol:
  "scanColumns (sizeOf v - 1) = map (\<lambda>k. int (2 * k) + 6) (rev [1..<2 * v + 6]) @ [5, 3, 1]"
proof -
  have "sizeOf v - 1 = int (2 * (2 * v + 5)) + 6" by simp
  then show ?thesis using scanColumns_even [of "2 * v + 5"] by (simp only: add_Suc_right [symmetric]) simp
qed

lemma set_scanColumn: "set (scanColumn sz c) = {(x, y). (x = c \<or> x = c - 1) \<and> 0 \<le> y \<and> y < sz}"
proof -
  have flip: "(\<lambda>v. sz - 1 - v) ` {0..sz - 1} = {0..sz - 1}"
    by (rule set_eqI, rule iffI) (auto intro: image_eqI [of y "\<lambda>v. sz - 1 - v" "sz - 1 - y" for y])
  define f where "f = (\<lambda>v. if (word_of_int (c + 1) :: u32) AND 2 = 0 then sz - 1 - v else v)"
  have "set [(c - j, h vert). vert \<leftarrow> [0..sz - 1], j \<leftarrow> [0, 1]] = {c, c - 1} \<times> h ` {0..sz - 1}" for h :: "int \<Rightarrow> int"
    by auto
  from this [of f] have "set (scanColumn sz c) = {c, c - 1} \<times> f ` {0..sz - 1}"
    by (simp only: scanColumn_def f_def)
  moreover have "f ` {0..sz - 1} = {0..sz - 1}"
    by (cases "(word_of_int (c + 1) :: u32) AND 2 = 0") (simp_all only: f_def flip simp_thms if_True if_False image_ident)
  ultimately show ?thesis by auto
qed

lemma distinct_scanColumn: "distinct (scanColumn sz c)"
  unfolding scanColumn_def by (rule distinct_concat_map) auto

lemma scanColumns_cover:
  assumes "0 \<le> x" and "x < sizeOf v"
  shows "(\<exists>c \<in> set (scanColumns (sizeOf v - 1)). x = c \<or> x = c - 1) \<longleftrightarrow> x \<noteq> 6"
proof -
  have "\<exists>k \<in> set [1..<2 * v + 6]. x = int (2 * k) + 6 \<or> x = int (2 * k) + 6 - 1" if "6 < x"
    using that assms(2) by (intro bexI [of _ "nat ((x - 5) div 2)"]) auto
  moreover have "x = 5 \<or> x = 4 \<or> x = 3 \<or> x = 2 \<or> x = 1 \<or> x = 0" if "x < 6" using that assms by arith
  moreover have "x \<noteq> int (2 * k) + 6 \<and> x \<noteq> int (2 * k) + 6 - 1" if "1 \<le> k" "x = 6" for k using that by auto
  ultimately show ?thesis
    unfolding scanColumns_symbol by (cases "x = 6"; cases "x < 6") (auto simp: image_iff)
qed

lemma scanColumns_elem:
  "c \<in> set (scanColumns (sizeOf v - 1)) \<Longrightarrow> even c \<and> 8 \<le> c \<and> c < sizeOf v \<or> c = 5 \<or> c = 3 \<or> c = 1"
  unfolding scanColumns_symbol by auto

lemma set_scanOrder: "set (scanOrder (sizeOf v)) = {(x, y). inside (sizeOf v) x y \<and> x \<noteq> 6}"
proof -
  have "1 \<le> c \<and> c < sizeOf v" if "c \<in> set (scanColumns (sizeOf v - 1))" for c
    using scanColumns_elem [OF that] by auto
  then have "(\<exists>c \<in> set (scanColumns (sizeOf v - 1)). (x = c \<or> x = c - 1) \<and> 0 \<le> y \<and> y < sizeOf v)
      \<longleftrightarrow> inside (sizeOf v) x y \<and> x \<noteq> 6" for x y
    using scanColumns_cover [of x v] unfolding inside_def by force
  then show ?thesis by (auto simp: scanOrder_def set_scanColumn simp del: of_nat_mult)
qed

lemma distinct_scanOrder: "distinct (scanOrder (sizeOf v))"
  unfolding scanOrder_def
proof (rule distinct_concat_map)
  show "distinct (scanColumns (sizeOf v - 1))"
    unfolding scanColumns_symbol by (auto simp: distinct_map inj_on_def)
  show "distinct (scanColumn (sizeOf v) c)" for c by (rule distinct_scanColumn)
  fix c d
  assume "c \<in> set (scanColumns (sizeOf v - 1))" "d \<in> set (scanColumns (sizeOf v - 1))" "c \<noteq> d"
  then have "c \<noteq> d - 1 \<and> d \<noteq> c - 1"
    using scanColumns_elem [of c v] scanColumns_elem [of d v] by presburger
  with \<open>c \<noteq> d\<close> show "set (scanColumn (sizeOf v) c) \<inter> set (scanColumn (sizeOf v) d) = {}"
    by (auto simp: set_scanColumn)
qed

section \<open>Placing the code words\<close>

definition freeCells :: "QrCode \<Rightarrow> (int \<times> int) list" where
  "freeCells q = filter (\<lambda>(x, y). \<not> cell (qr_isFunction q) x y) (scanOrder (qr_size q))"

definition dataBit :: "u32 list \<Rightarrow> nat \<Rightarrow> bool" where
  "dataBit data i = getBit (data ! (i div 8)) (7 - i mod 8)"

definition bitWrites :: "u32 list \<Rightarrow> nat \<Rightarrow> (int \<times> int) list \<Rightarrow> writes" where
  "bitWrites data i ps = map (\<lambda>(k, x, y). (x, y, dataBit data k)) (zip [i..<length data * 8] ps)"

lemma bitWrites_Cons:
  "bitWrites data i ((x, y) # ps) = (if i < length data * 8 then (x, y, dataBit data i) # bitWrites data (i + 1) ps else [])"
  by (simp add: bitWrites_def upt_conv_Cons)

lemma drawCodewordBits:
  assumes "wf_qr q" and "cells_inside (qr_size q) ps"
  shows "bindR (forR (drawCodewordBit data) ps (i, q)) (\<lambda>(i, q). Inr q) =
    Inr (q\<lparr>qr_modules := paint (bitWrites data i (filter (\<lambda>(x, y). \<not> cell (qr_isFunction q) x y) ps)) (qr_modules q)\<rparr>)"
  using assms
proof (induction ps arbitrary: i q)
  case Nil
  then show ?case by (simp add: bitWrites_def grid.paint_def)
next
  case (Cons p ps)
  obtain x y where p: "p = (x, y)" by (cases p)
  have xy: "inside (qr_size q) x y" and ps: "cells_inside (qr_size q) ps"
    using Cons.prems(2) by (auto simp: cells_inside_def p)
  let ?m = "put x y (dataBit data i) (qr_modules q)"
  have sq: "square (qr_size q) ?m" using wf_qrD(1) [OF Cons.prems(1)] xy by (rule grid.shape_upd)
  show ?case
  proof (cases "\<not> cell (qr_isFunction q) x y \<and> i < length data * 8")
    case True
    then have "drawCodewordBit data p (i, q) = Inr (i + 1, q\<lparr>qr_modules := ?m\<rparr>)"
      using setCell_ok [OF wf_qrD(1) [OF Cons.prems(1)] xy] by (simp add: drawCodewordBit_def p dataBit_def)
    with True show ?thesis
      using Cons.IH [of "q\<lparr>qr_modules := ?m\<rparr>" "i + 1"] wf_set_modules [OF Cons.prems(1) sq] ps
      by (simp add: p bitWrites_Cons grid.paint_def)
  next
    case False
    then have "drawCodewordBit data p (i, q) = Inr (i, q)" by (auto simp: drawCodewordBit_def p)
    with False show ?thesis
      using Cons.IH [OF Cons.prems(1) ps, of i] by (auto simp: p bitWrites_Cons bitWrites_def grid.paint_def)
  qed
qed

definition placed :: "u32 list \<Rightarrow> QrCode \<Rightarrow> QrCode" where
  "placed data q = q\<lparr>qr_modules := paint (bitWrites data 0 (freeCells q)) (qr_modules q)\<rparr>"

lemma drawCodewords_placed:
  assumes "wf_qr q"
  shows "drawCodewords data q = Inr (placed data q)"
proof -
  have "cells_inside (qr_size q) (scanOrder (qr_size q))"
    using set_scanOrder wf_qrD(3) [OF assms] by (auto simp: cells_inside_def)
  from drawCodewordBits [OF assms this, of data 0] show ?thesis
    by (simp add: drawCodewords_def placed_def freeCells_def)
qed

lemma placed_fields [simp]:
  "qr_version (placed data q) = qr_version q" "qr_ecl (placed data q) = qr_ecl q"
  "qr_size (placed data q) = qr_size q" "qr_mask (placed data q) = qr_mask q"
  "qr_isFunction (placed data q) = qr_isFunction q"
  by (simp_all add: placed_def)

lemma freeCells_facts:
  assumes "wf_qr q"
  shows "distinct (freeCells q)"
    and "set (freeCells q) = {(x, y). inside (qr_size q) x y \<and> x \<noteq> 6 \<and> \<not> cell (qr_isFunction q) x y}"
  using distinct_scanOrder [of "qr_version q"] set_scanOrder [of "qr_version q"] wf_qrD(3) [OF assms]
  by (auto simp: freeCells_def)

lemma inside_bitWrites: "wf_qr q \<Longrightarrow> writes_inside (qr_size q) (bitWrites data i (freeCells q))"
  using freeCells_facts(2) [of q] by (fastforce simp: writes_inside_def bitWrites_def dest: set_zip_rightD)

lemma wf_placed: "wf_qr q \<Longrightarrow> wf_qr (placed data q)"
  unfolding placed_def by (intro wf_set_modules grid.shape_paint inside_bitWrites wf_qrD)

text \<open>A list of writes to distinct modules leaves each of its values behind.\<close>

lemma cell_paint_distinct:
  assumes g: "square n g" and ws: "writes_inside n ws" and d: "distinct (map (\<lambda>(x, y, v). (x, y)) ws)"
  shows "(x, y, v) \<in> set ws \<Longrightarrow> cell (paint ws g) x y = v"
    and "inside n x y \<Longrightarrow> (x, y) \<notin> set (map (\<lambda>(x, y, v). (x, y)) ws) \<Longrightarrow> cell (paint ws g) x y = cell g x y"
proof -
  let ?kv = "rev (map (\<lambda>(x, y, v). ((x, y), v)) ws)"
  have keys: "map fst (map (\<lambda>(x, y, v). ((x, y), v)) ws) = map (\<lambda>(x, y, v). (x, y)) ws"
    by (auto simp: case_prod_beta')
  then have dk: "distinct (map fst ?kv)" using d by (metis distinct_rev rev_map)
  show "cell (paint ws g) x y = v" if "(x, y, v) \<in> set ws"
  proof -
    have "inside n x y" using ws that by (auto simp: writes_inside_def)
    moreover have "((x, y), v) \<in> set ?kv" using that by force
    then have "map_of ?kv (x, y) = Some v" using dk by (simp only: map_of_eq_Some_iff)
    ultimately show ?thesis using grid.get_paint [OF g ws, of x y] by simp
  qed
  show "cell (paint ws g) x y = cell g x y" if "inside n x y" "(x, y) \<notin> set (map (\<lambda>(x, y, v). (x, y)) ws)"
  proof -
    have "map_of ?kv (x, y) = None" using that(2) by (force simp: map_of_eq_None_iff)
    then show ?thesis using grid.get_paint [OF g ws that(1)] by simp
  qed
qed

lemma bitWrites_cells: "map (\<lambda>(x, y, v). (x, y)) (bitWrites data i ps) = take (length data * 8 - i) ps"
  by (rule nth_equalityI) (auto simp: bitWrites_def case_prod_beta')

definition readBits :: "QrCode \<Rightarrow> (int \<times> int) list \<Rightarrow> bool list" where
  "readBits q ps = map (\<lambda>(x, y). cell (qr_modules q) x y) ps"

lemma readBits_placed:
  assumes wf: "wf_qr q" and room: "length data * 8 \<le> length (freeCells q)"
  shows "take (length data * 8) (readBits (placed data q) (freeCells q)) = map (dataBit data) [0..<length data * 8]"
proof (rule nth_equalityI)
  show "length (take (length data * 8) (readBits (placed data q) (freeCells q))) = length (map (dataBit data) [0..<length data * 8])"
    using room by (simp add: readBits_def)
  fix i assume "i < length (take (length data * 8) (readBits (placed data q) (freeCells q)))"
  then have i: "i < length data * 8" "i < length (freeCells q)" by (auto simp: readBits_def)
  obtain x y where xy: "freeCells q ! i = (x, y)" by (cases "freeCells q ! i")
  let ?ws = "bitWrites data 0 (freeCells q)"
  have "distinct (map (\<lambda>(x, y, v). (x, y)) ?ws)"
    using freeCells_facts(1) [OF wf] by (simp add: bitWrites_cells)
  moreover have "(x, y, dataBit data i) \<in> set ?ws"
    using i xy by (auto simp: bitWrites_def set_zip image_iff intro!: exI [of _ i])
  ultimately have "cell (qr_modules (placed data q)) x y = dataBit data i"
    using cell_paint_distinct(1) [OF wf_qrD(1) [OF wf] inside_bitWrites [OF wf]] by (simp add: placed_def)
  then show "take (length data * 8) (readBits (placed data q) (freeCells q)) ! i = map (dataBit data) [0..<length data * 8] ! i"
    using i xy by (simp add: readBits_def)
qed

lemma cell_placed_other:
  assumes wf: "wf_qr q" and "inside (qr_size q) x y" and "cell (qr_isFunction q) x y"
  shows "cell (qr_modules (placed data q)) x y = cell (qr_modules q) x y"
proof -
  have "distinct (map (\<lambda>(x, y, v). (x, y)) (bitWrites data 0 (freeCells q)))"
    using freeCells_facts(1) [OF wf] by (simp add: bitWrites_cells)
  moreover have "(x, y) \<notin> set (map (\<lambda>(x, y, v). (x, y)) (bitWrites data 0 (freeCells q)))"
    using assms(3) freeCells_facts(2) [OF wf] by (auto simp: bitWrites_cells dest: in_set_takeD)
  ultimately show ?thesis
    using cell_paint_distinct(2) [OF wf_qrD(1) [OF wf] inside_bitWrites [OF wf]] assms(2) by (simp add: placed_def)
qed

section \<open>Properties\<close>

text \<open>Masking: for mask numbers 0 to 7 \<^verbatim>\<open>applyMask\<close> succeeds, changes no function module
  and applying it a second time restores the symbol; every other number is the
  \<^verbatim>\<open>unreachable\<close> error.\<close>

theorem applyMask_involution:
  assumes "wf_qr q"
  shows "if 0 \<le> msk \<and> msk \<le> 7
    then \<exists>q'. applyMask msk q = Inr q' \<and> applyMask msk q' = Inr q \<and> wf_qr q' \<and> qr_isFunction q' = qr_isFunction q
      \<and> (\<forall>x y. inside (qr_size q) x y \<longrightarrow> cell (qr_isFunction q) x y \<longrightarrow> cell (qr_modules q') x y = cell (qr_modules q) x y)
    else applyMask msk q = Inl (Error ''unreachable'')"
proof (cases "0 \<le> msk \<and> msk \<le> 7")
  case True
  let ?q = "q\<lparr>qr_modules := maskGrid msk q\<rparr>"
  have wf: "wf_qr ?q" by (rule wf_masked [OF assms])
  have "maskGrid msk ?q = qr_modules q"
    by (rule square_eqI [of "qr_size q"])
      (use square_maskGrid [OF wf] wf_qrD(1) [OF assms] cell_maskGrid [of ?q] cell_maskGrid [of q] in auto)
  then have "applyMask msk ?q = Inr q" using applyMask_ok [OF wf] True by simp
  then show ?thesis
    using True wf applyMask_ok [OF assms] cell_maskGrid [of q] by auto
next
  case False
  then show ?thesis using applyMask_unreachable [OF assms] by auto
qed

text \<open>The zigzag scan of \<^verbatim>\<open>drawCodewords\<close> meets every module outside the vertical timing
  column exactly once and nothing else; the code words it places can be read back along it when
  there is room for them, and no function module changes.\<close>

theorem drawCodewords_readback:
  assumes "wf_qr q" and "length data * 8 \<le> length (freeCells q)"
  shows "distinct (scanOrder (qr_size q)) \<and> set (scanOrder (qr_size q)) = {(x, y). inside (qr_size q) x y \<and> x \<noteq> 6}
    \<and> (\<exists>q'. drawCodewords data q = Inr q' \<and> wf_qr q' \<and> qr_isFunction q' = qr_isFunction q
      \<and> take (length data * 8) (readBits q' (freeCells q')) = map (dataBit data) [0..<length data * 8]
      \<and> (\<forall>x y. inside (qr_size q) x y \<longrightarrow> cell (qr_isFunction q) x y \<longrightarrow> cell (qr_modules q') x y = cell (qr_modules q) x y))"
proof -
  have "freeCells (placed data q) = freeCells q" by (simp add: freeCells_def)
  moreover have "distinct (scanOrder (qr_size q))" "set (scanOrder (qr_size q)) = {(x, y). inside (qr_size q) x y \<and> x \<noteq> 6}"
    using distinct_scanOrder set_scanOrder wf_qrD(3) [OF assms(1)] by simp_all
  ultimately show ?thesis
    using drawCodewords_placed [OF assms(1)] wf_placed [OF assms(1)] readBits_placed [OF assms] cell_placed_other [OF assms(1)]
    by (intro conjI exI [of _ "placed data q"]) auto
qed

end
