(* ===== verification/Qr_Penalty.thy ===== *)
theory Qr_Penalty
  imports Qr_Mask
begin

text \<open>
  The penalty score that chooses the mask in \<^verbatim>\<open>webui/qr.js\<close>: the run and finder scan of
  rows and columns with its seven-entry run history, the 2x2 blocks and the balance of dark
  modules. The incremental scan of a line is shown equal to a description over the whole line:
  every run of five or more modules, and every window of seven runs of the padded line that looks
  like a finder pattern. The score of a symbol is never negative and is bounded.

  The code divides and rounds up in floating point; operands are below $2^{20}$, so the quotient of
  two such integers is never rounded across an integer and the exact ceiling is the same number.
\<close>

section \<open>The scan\<close>

definition finderPenaltyAddHistory :: "nat \<Rightarrow> nat \<Rightarrow> nat list \<Rightarrow> nat list" where
  "finderPenaltyAddHistory sz currentRunLength runHistory =
     (let currentRunLength = (if runHistory ! 0 = 0 then currentRunLength + sz else currentRunLength)
      in currentRunLength # butlast runHistory)"

definition finderPenaltyCountPatterns :: "nat list \<Rightarrow> nat" where
  "finderPenaltyCountPatterns runHistory =
     (let n = runHistory ! 1;
          core = (n > 0 \<and> runHistory ! 2 = n \<and> runHistory ! 3 = n * 3 \<and> runHistory ! 4 = n \<and> runHistory ! 5 = n)
      in (if core \<and> runHistory ! 0 \<ge> n * 4 \<and> runHistory ! 6 \<ge> n then 1 else 0)
         + (if core \<and> runHistory ! 6 \<ge> n * 4 \<and> runHistory ! 0 \<ge> n then 1 else 0))"

definition finderPenaltyTerminateAndCount :: "nat \<Rightarrow> bool \<Rightarrow> nat \<Rightarrow> nat list \<Rightarrow> nat" where
  "finderPenaltyTerminateAndCount sz currentRunColor currentRunLength runHistory =
     (let (currentRunLength, runHistory) =
            (if currentRunColor then (0, finderPenaltyAddHistory sz currentRunLength runHistory)
             else (currentRunLength, runHistory));
          currentRunLength = currentRunLength + sz
      in finderPenaltyCountPatterns (finderPenaltyAddHistory sz currentRunLength runHistory))"

definition PENALTY_N1 :: int where "PENALTY_N1 = 3"
definition PENALTY_N2 :: int where "PENALTY_N2 = 3"
definition PENALTY_N3 :: int where "PENALTY_N3 = 40"
definition PENALTY_N4 :: int where "PENALTY_N4 = 10"

text \<open>One module of a line: the score so far, the colour and length of the current run, the
  history.\<close>

definition scanModule :: "nat \<Rightarrow> bool \<Rightarrow> int \<times> bool \<times> nat \<times> nat list \<Rightarrow> int \<times> bool \<times> nat \<times> nat list" where
  "scanModule sz c st =
     (let (result, runColor, run, runHistory) = st
      in if c = runColor
         then (let run = run + 1
               in (if run = 5 then result + PENALTY_N1 else if run > 5 then result + 1 else result,
                   runColor, run, runHistory))
         else (let runHistory = finderPenaltyAddHistory sz run runHistory
               in (if \<not> runColor then result + int (finderPenaltyCountPatterns runHistory) * PENALTY_N3 else result,
                   c, 1, runHistory)))"

definition linePenalty :: "nat \<Rightarrow> bool list \<Rightarrow> int \<Rightarrow> int" where
  "linePenalty sz line result =
     (let (result, runColor, run, runHistory) = fold (scanModule sz) line (result, False, 0, [0, 0, 0, 0, 0, 0, 0])
      in result + int (finderPenaltyTerminateAndCount sz runColor run runHistory) * PENALTY_N3)"

definition rowLine :: "QrCode \<Rightarrow> int \<Rightarrow> bool list" where
  "rowLine q y = map (\<lambda>x. cell (qr_modules q) x y) [0..qr_size q - 1]"

definition columnLine :: "QrCode \<Rightarrow> int \<Rightarrow> bool list" where
  "columnLine q x = map (\<lambda>y. cell (qr_modules q) x y) [0..qr_size q - 1]"

definition sameBlock :: "QrCode \<Rightarrow> int \<Rightarrow> int \<Rightarrow> bool" where
  "sameBlock q x y \<longleftrightarrow>
     (let color = cell (qr_modules q) x y
      in color = cell (qr_modules q) (x + 1) y \<and> color = cell (qr_modules q) x (y + 1)
         \<and> color = cell (qr_modules q) (x + 1) (y + 1))"

definition darkModules :: "bool list list \<Rightarrow> int" where
  "darkModules g = fold (\<lambda>row dark. fold (\<lambda>c dark. if c then dark + 1 else dark) row dark) g 0"

text \<open>\<^verbatim>\<open>Math.ceil(a / b)\<close> for \<open>0 \<le> a\<close> and \<open>0 < b\<close>.\<close>

definition ceilQuot :: "int \<Rightarrow> int \<Rightarrow> int" where
  "ceilQuot a b = (a + b - 1) div b"

definition getPenaltyScore :: "QrCode \<Rightarrow> int" where
  "getPenaltyScore q =
     (let sz = nat (qr_size q);
          result = fold (\<lambda>y. linePenalty sz (rowLine q y)) [0..qr_size q - 1] 0;
          result = fold (\<lambda>x. linePenalty sz (columnLine q x)) [0..qr_size q - 1] result;
          result = fold (\<lambda>y result. fold (\<lambda>x result. if sameBlock q x y then result + PENALTY_N2 else result)
                                      [0..qr_size q - 2] result) [0..qr_size q - 2] result;
          dark = darkModules (qr_modules q);
          total = qr_size q * qr_size q;
          k = ceilQuot \<bar>dark * 20 - total * 10\<bar> total - 1
      in result + k * PENALTY_N4)"

section \<open>Lines as lists of runs\<close>

text \<open>The lengths of the runs of a line, light and dark in turn, where a run of colour \<open>c\<close> and
  length \<open>n\<close> is already open. \<open>paddedRuns\<close> are the runs of the line with a margin of \<open>sz\<close> light
  modules on both sides, so they start and end with a light run.\<close>

fun runs :: "bool \<Rightarrow> nat \<Rightarrow> bool list \<Rightarrow> nat list" where
  "runs c n [] = [n]"
| "runs c n (x # xs) = (if x = c then runs c (n + 1) xs else n # runs x 1 xs)"

definition paddedRuns :: "nat \<Rightarrow> bool list \<Rightarrow> nat list" where
  "paddedRuns sz line = runs False 0 (replicate sz False @ line @ replicate sz False)"

definition runPenalty :: "nat \<Rightarrow> int" where
  "runPenalty n = (if n \<ge> 5 then int n - 2 else 0)"

text \<open>Seven runs light, dark, \<dots>, light score once for each side on which the light margin is four
  times the unit width, if the dark ones and what they enclose are in the ratio 1:1:3:1:1.\<close>

definition windowScore :: "nat list \<Rightarrow> nat" where
  "windowScore w = (case w of [a, b, c, d, e, f, g] \<Rightarrow>
       if b > 0 \<and> c = b \<and> d = 3 * b \<and> e = b \<and> f = b
       then (if a \<ge> 4 * b \<and> g \<ge> b then 1 else 0) + (if g \<ge> 4 * b \<and> a \<ge> b then 1 else 0) else 0
     | _ \<Rightarrow> 0)"

definition finderWindows :: "nat list \<Rightarrow> nat" where
  "finderWindows rs = (\<Sum>i | even i \<and> i + 6 < length rs. windowScore (take 7 (drop i rs)))"

definition hist :: "nat list \<Rightarrow> nat list" where
  "hist seen = take 7 (rev seen @ replicate 7 0)"

lemma hist_snoc: "hist (seen @ [r]) = r # butlast (hist seen)"
proof -
  have "butlast (hist seen) = take 6 (rev seen @ replicate 7 0)"
    unfolding hist_def by (subst butlast_take) simp_all
  then show ?thesis by (simp add: hist_def)
qed

lemma hist_first: "hist seen ! 0 = (if seen = [] then 0 else last seen)"
  by (cases seen rule: rev_cases) (simp_all add: hist_def numeral_eq_Suc)

text \<open>What the history counts at the end of each light run, summed over the runs still to come.\<close>

fun endsSum :: "nat list \<Rightarrow> nat list \<Rightarrow> nat" where
  "endsSum seen [] = 0"
| "endsSum seen (r # rs) =
     (if even (length seen) then finderPenaltyCountPatterns (hist (seen @ [r])) else 0) + endsSum (seen @ [r]) rs"

definition openRun :: "nat \<Rightarrow> nat list \<Rightarrow> nat \<Rightarrow> nat" where
  "openRun sz seen run = (if seen = [] then run + sz else run)"

lemma addHistory_hist:
  "seen = [] \<or> 0 < last seen \<Longrightarrow> finderPenaltyAddHistory sz run (hist seen) = hist (seen @ [openRun sz seen run])"
  by (auto simp: finderPenaltyAddHistory_def hist_snoc hist_first openRun_def)

lemma runs_light_tail: "runs False n (replicate m False) = [n + m]"
  by (induction m arbitrary: n) auto

lemma runs_dark_tail: "0 < m \<Longrightarrow> runs True n (replicate m False) = [n, m]"
  by (cases m) (simp_all add: runs_light_tail)

definition scanEnd :: "nat \<Rightarrow> int \<times> bool \<times> nat \<times> nat list \<Rightarrow> int" where
  "scanEnd sz st = (let (result, runColor, run, runHistory) = st
     in result + int (finderPenaltyTerminateAndCount sz runColor run runHistory) * PENALTY_N3)"

lemma scanModule_same:
  "scanModule sz col (result, col, run, h) =
    (result + (if run + 1 = 5 then 3 else if run + 1 > 5 then 1 else 0), col, run + 1, h)"
  by (simp add: scanModule_def PENALTY_N1_def)

lemma scanModule_change:
  "scanModule sz True (result, False, run, h) =
    (result + 40 * int (finderPenaltyCountPatterns (finderPenaltyAddHistory sz run h)),
     True, 1, finderPenaltyAddHistory sz run h)"
  "scanModule sz False (result, True, run, h) = (result, False, 1, finderPenaltyAddHistory sz run h)"
  by (simp_all add: scanModule_def Let_def PENALTY_N3_def)

lemma scan_line:
  assumes "0 < sz" and "seen = [] \<or> 0 < last seen" and "seen = [] \<or> 0 < run" and "col = odd (length seen)"
  shows "scanEnd sz (fold (scanModule sz) line (result, col, run, hist seen)) =
    result + (sum_list (map runPenalty (runs col run line)) - runPenalty run)
      + 40 * int (endsSum seen (runs col (openRun sz seen run) (line @ replicate sz False)))"
  using assms(2-)
proof (induction line arbitrary: seen run col result)
  case Nil
  note h = addHistory_hist [OF Nil(1)]
  show ?case
  proof (cases col)
    case True
    then have "seen \<noteq> []" using Nil by auto
    then have "finderPenaltyAddHistory sz sz (hist (seen @ [run])) = hist (seen @ [run, sz])"
      using addHistory_hist [of "seen @ [run]" sz sz] Nil by (simp add: openRun_def)
    with True h [of sz run] \<open>seen \<noteq> []\<close> Nil assms(1) show ?thesis
      by (simp add: scanEnd_def finderPenaltyTerminateAndCount_def runs_dark_tail openRun_def PENALTY_N3_def)
  next
    case False
    then show ?thesis
      using h [of sz "run + sz"] Nil
      by (auto simp: scanEnd_def finderPenaltyTerminateAndCount_def runs_light_tail openRun_def PENALTY_N3_def ac_simps)
  qed
next
  case (Cons c line)
  show ?case
  proof (cases "c = col")
    case True
    have "openRun sz seen (run + 1) = openRun sz seen run + 1" by (simp add: openRun_def)
    moreover have "runPenalty (run + 1) = runPenalty run + (if run + 1 = 5 then 3 else if run + 1 > 5 then 1 else 0)"
      by (auto simp: runPenalty_def)
    ultimately show ?thesis
      using True Cons.IH [of seen "run + 1" col] Cons.prems
      by (simp add: scanModule_same)
  next
    case False
    let ?r = "openRun sz seen run"
    have pos: "0 < ?r" using Cons.prems assms(1) by (auto simp: openRun_def)
    have "openRun sz (seen @ [?r]) 1 = 1" by (simp add: openRun_def)
    moreover have "c = (\<not> col)" using False by auto
    moreover have "runPenalty 1 = 0" by (simp add: runPenalty_def)
    ultimately show ?thesis
      using False Cons.IH [of "seen @ [?r]" 1 c] Cons.prems pos addHistory_hist [OF Cons.prems(1), of sz run]
      by (cases col) (simp_all add: scanModule_change)
  qed
qed

lemma endsSum_positions:
  "endsSum seen rs = (\<Sum>p | even p \<and> length seen \<le> p \<and> p < length seen + length rs.
     finderPenaltyCountPatterns (hist (take (p + 1) (seen @ rs))))"
proof (induction rs arbitrary: seen)
  case Nil
  have "{p. even p \<and> length seen \<le> p \<and> p < length seen + length []} = {}" by auto
  then show ?case by simp
next
  case (Cons r rs)
  let ?f = "\<lambda>p. finderPenaltyCountPatterns (hist (take (p + 1) (seen @ r # rs)))"
  let ?A = "{p. even p \<and> length seen \<le> p \<and> p < length seen + length (r # rs)}"
  let ?B = "{p. even p \<and> length (seen @ [r]) \<le> p \<and> p < length (seen @ [r]) + length rs}"
  have "p \<in> ?A \<longleftrightarrow> even p \<and> (p = length seen \<or> p \<in> ?B)" for p by auto
  then have "?A = (if even (length seen) then insert (length seen) ?B else ?B)" by auto
  moreover have "finite ?B" "length seen \<notin> ?B" by auto
  ultimately have "sum ?f ?A = (if even (length seen) then ?f (length seen) else 0) + sum ?f ?B" by simp
  then show ?case using Cons [of "seen @ [r]"] by simp
qed

lemma countPatterns_short: "length rs < 7 \<Longrightarrow> finderPenaltyCountPatterns (hist rs) = 0"
proof -
  assume "length rs < 7"
  then have "hist rs ! 6 = 0" by (simp add: hist_def nth_append)
  then show ?thesis by (auto simp: finderPenaltyCountPatterns_def Let_def)
qed

lemma countPatterns_window:
  assumes "i + 6 < length rs"
  shows "finderPenaltyCountPatterns (hist (take (i + 7) rs)) = windowScore (take 7 (drop i rs))"
proof -
  have seven: "\<exists>a b c d e f g. w = [a, b, c, d, e, f, g]" if "length w = 7" for w :: "nat list"
    using that by (auto simp: numeral_eq_Suc length_Suc_conv)
  have "length (take 7 (drop i rs)) = 7" using assms by simp
  then obtain a b c d e f g where w: "take 7 (drop i rs) = [a, b, c, d, e, f, g]"
    using seven by blast
  have "take (i + 7) rs = take i rs @ [a, b, c, d, e, f, g]" using w by (simp add: take_add)
  then show ?thesis
    unfolding w by (auto simp: hist_def windowScore_def finderPenaltyCountPatterns_def Let_def numeral_eq_Suc)
qed

lemma endsSum_finderWindows: "endsSum [] rs = finderWindows rs"
proof -
  let ?f = "\<lambda>p. finderPenaltyCountPatterns (hist (take (p + 1) rs))"
  let ?P = "{p. even p \<and> p < length rs}" and ?Q = "{i. even i \<and> i + 6 < length rs}"
  have "endsSum [] rs = sum ?f ?P" using endsSum_positions [of "[]" rs] by simp
  also have "\<dots> = sum ?f ((\<lambda>i. i + 6) ` ?Q)"
  proof (rule sum.mono_neutral_right)
    show "\<forall>p \<in> ?P - (\<lambda>i. i + 6) ` ?Q. ?f p = 0"
    proof
      fix p assume p: "p \<in> ?P - (\<lambda>i. i + 6) ` ?Q"
      have "p < 6"
      proof (rule ccontr)
        assume "\<not> p < 6"
        then have "p = p - 6 + 6" "p - 6 \<in> ?Q" using p by auto
        then show False using p by blast
      qed
      then show "?f p = 0" by (intro countPatterns_short) simp
    qed
  qed auto
  also have "\<dots> = (\<Sum>i \<in> ?Q. ?f (i + 6))" by (subst sum.reindex) (auto simp: inj_on_def)
  also have "\<dots> = finderWindows rs"
    unfolding finderWindows_def using countPatterns_window [of _ rs] by (intro sum.cong) (auto simp: add.commute [of 7])
  finally show ?thesis .
qed

lemma paddedRuns_open: "paddedRuns sz line = runs False sz (line @ replicate sz False)"
proof -
  have "runs False n (replicate m False @ xs) = runs False (n + m) xs" for n m xs
    by (induction m arbitrary: n) auto
  from this [of 0 sz] show ?thesis by (simp add: paddedRuns_def)
qed

section \<open>The score of a line and of a symbol\<close>

definition lineScore :: "nat \<Rightarrow> bool list \<Rightarrow> int" where
  "lineScore sz line = sum_list (map runPenalty (runs False 0 line)) + 40 * int (finderWindows (paddedRuns sz line))"

lemma linePenalty_lineScore:
  assumes "0 < sz"
  shows "linePenalty sz line result = result + lineScore sz line"
proof -
  have "hist [] = [0, 0, 0, 0, 0, 0, 0]" by (simp add: hist_def numeral_eq_Suc)
  then have "linePenalty sz line result = scanEnd sz (fold (scanModule sz) line (result, False, 0, hist []))"
    by (simp add: linePenalty_def scanEnd_def)
  also have "\<dots> = result + lineScore sz line"
    using scan_line [OF assms, of "[]" 0 False line result]
    by (simp add: lineScore_def openRun_def endsSum_finderWindows paddedRuns_open runPenalty_def)
  finally show ?thesis .
qed

lemma lineScore_nonneg: "0 \<le> lineScore sz line"
  unfolding lineScore_def by (intro add_nonneg_nonneg sum_list_nonneg) (auto simp: runPenalty_def)

lemma fold_plus: "fold (\<lambda>i r. r + f i) is r = r + sum_list (map f is)" for r :: int
  by (induction "is" arbitrary: r) auto

lemma sum_list_of_bool: "sum_list (map (\<lambda>i. if P i then c else 0) is) = c * int (length (filter P is))" for c :: int
  by (induction "is") (auto simp: algebra_simps)

lemma darkModules_count: "darkModules g = int (length (filter id (concat g)))"
proof -
  have row: "fold (\<lambda>c d. if c then d + 1 else d) row d = d + int (length (filter id row))" for row and d :: int
    by (induction row arbitrary: d) auto
  have "fold (\<lambda>row d. fold (\<lambda>c d. if c then d + 1 else d) row d) g d = d + int (length (filter id (concat g)))" for d :: int
    by (induction g arbitrary: d) (simp_all add: row)
  then show ?thesis by (simp add: darkModules_def)
qed

lemma length_concat_square: "square n g \<Longrightarrow> int (length (concat g)) = n * n"
proof -
  assume "square n g"
  then have "map length g = replicate (length g) (nat n)" "int (length g) = n"
    by (auto simp: square_def intro!: replicate_eqI)
  then show ?thesis by (simp add: length_concat sum_list_replicate)
qed

definition sameBlocks :: "QrCode \<Rightarrow> int" where
  "sameBlocks q = sum_list (map (\<lambda>y. int (length (filter (\<lambda>x. sameBlock q x y) [0..qr_size q - 2]))) [0..qr_size q - 2])"

definition imbalance :: "QrCode \<Rightarrow> int" where
  "imbalance q = ceilQuot \<bar>20 * int (length (filter id (concat (qr_modules q)))) - 10 * (qr_size q * qr_size q)\<bar>
     (qr_size q * qr_size q) - 1"

lemma getPenaltyScore_terms:
  assumes "wf_qr q"
  shows "getPenaltyScore q =
    sum_list (map (\<lambda>y. lineScore (nat (qr_size q)) (rowLine q y)) [0..qr_size q - 1])
    + sum_list (map (\<lambda>x. lineScore (nat (qr_size q)) (columnLine q x)) [0..qr_size q - 1])
    + 3 * sameBlocks q + 10 * imbalance q"
proof -
  have "0 < nat (qr_size q)" using assms by (simp add: wf_qr_def)
  then have line: "linePenalty (nat (qr_size q)) l = (\<lambda>r. r + lineScore (nat (qr_size q)) l)" for l
    by (simp add: fun_eq_iff linePenalty_lineScore)
  have "(\<lambda>x r. if sameBlock q x y then r + PENALTY_N2 else r) = (\<lambda>x r. r + (if sameBlock q x y then 3 else 0))" for y
    by (auto simp: fun_eq_iff PENALTY_N2_def)
  then have "fold (\<lambda>y r. fold (\<lambda>x r. if sameBlock q x y then r + PENALTY_N2 else r) [0..qr_size q - 2] r)
      [0..qr_size q - 2] r = r + 3 * sameBlocks q" for r
    by (simp add: fold_plus sum_list_of_bool sameBlocks_def sum_list_const_mult)
  then show ?thesis
    by (simp add: getPenaltyScore_def Let_def line fold_plus darkModules_count imbalance_def PENALTY_N4_def mult.commute)
qed

lemma imbalance_bounds:
  assumes "wf_qr q"
  shows "0 \<le> imbalance q" and "imbalance q \<le> 9"
proof -
  define t d where "t = qr_size q * qr_size q" and "d = int (length (filter id (concat (qr_modules q))))"
  have "odd (qr_size q)" "0 < qr_size q" using assms by (auto simp: wf_qr_def)
  then have t: "odd t" "0 < t" by (auto simp: t_def)
  have d: "0 \<le> d" "d \<le> t"
    using length_filter_le [of id "concat (qr_modules q)"] length_concat_square [OF wf_qrD(1) [OF assms]]
    unfolding d_def t_def by linarith+
  have "20 * d - 10 * t \<noteq> 0"
  proof
    assume "20 * d - 10 * t = 0"
    then have "t = 2 * d" by linarith
    with t(1) show False by simp
  qed
  then have "1 \<le> \<bar>20 * d - 10 * t\<bar>" "\<bar>20 * d - 10 * t\<bar> \<le> 10 * t" using d by auto
  define x where "x = \<bar>20 * d - 10 * t\<bar> + t - 1"
  have "t \<le> x" "x < 11 * t" using \<open>1 \<le> \<bar>20 * d - 10 * t\<bar>\<close> \<open>\<bar>20 * d - 10 * t\<bar> \<le> 10 * t\<close> by (simp_all add: x_def)
  moreover have "x div t * t \<le> x" using t(2) by (simp add: minus_mod_eq_div_mult [symmetric])
  ultimately have "x div t * t < 11 * t" "0 < x div t" using t(2) by (linarith, simp add: pos_imp_zdiv_pos_iff)
  then have "1 \<le> x div t" "x div t \<le> 10" using t(2) by (simp_all add: mult_less_cancel_right)
  then show "0 \<le> imbalance q" "imbalance q \<le> 9"
    unfolding imbalance_def ceilQuot_def t_def [symmetric] d_def [symmetric] x_def [symmetric] by linarith+
qed

section \<open>Properties\<close>

text \<open>\<^bold>\<open>C24.\<close> The penalty score, computed by the incremental scan with its run history, is the sum
  of four declarative terms: for every row and column the runs of five or more modules and the
  finder-like windows of the line with light margins, three points per 2x2 block of one colour, and
  ten points per step of imbalance. The imbalance term lies between 0 and 9, so the score is never
  negative.\<close>

theorem getPenaltyScore_spec:
  assumes "wf_qr q"
  shows "getPenaltyScore q =
      sum_list (map (\<lambda>y. lineScore (nat (qr_size q)) (rowLine q y)) [0..qr_size q - 1])
      + sum_list (map (\<lambda>x. lineScore (nat (qr_size q)) (columnLine q x)) [0..qr_size q - 1])
      + 3 * sameBlocks q + 10 * imbalance q
    \<and> 0 \<le> imbalance q \<and> imbalance q \<le> 9 \<and> 0 \<le> getPenaltyScore q"
proof -
  have "0 \<le> sameBlocks q" unfolding sameBlocks_def by (intro sum_list_nonneg) auto
  moreover have "0 \<le> sum_list (map (\<lambda>y. lineScore (nat (qr_size q)) (rowLine q y)) [0..qr_size q - 1])"
    "0 \<le> sum_list (map (\<lambda>x. lineScore (nat (qr_size q)) (columnLine q x)) [0..qr_size q - 1])"
    by (intro sum_list_nonneg, auto simp: lineScore_nonneg)+
  ultimately show ?thesis
    using getPenaltyScore_terms [OF assms] imbalance_bounds [OF assms] by simp
qed

theorem getPenaltyScore_spec_witness:
  "0 \<le> getPenaltyScore \<lparr>qr_version = 1, qr_ecl = LOW, qr_size = 21, qr_modules = tabulate 21 (\<lambda>x y. x < y),
      qr_isFunction = tabulate 21 (\<lambda>x y. False), qr_mask = None\<rparr>"
  using getPenaltyScore_spec [of "\<lparr>qr_version = 1, qr_ecl = LOW, qr_size = 21, qr_modules = tabulate 21 (\<lambda>x y. x < y),
      qr_isFunction = tabulate 21 (\<lambda>x y. False), qr_mask = None\<rparr>"]
  by (simp add: wf_qr_def square_tabulate)

end
