(* ===== verification/Gf256.thy ===== *)
theory Gf256
  imports Prelude
begin

unbundle bit_operations_syntax

text \<open>
  The algebra behind Reed-Solomon error correction, independent of the code: the field
  GF(2)[x]/(x^8 + x^4 + x^3 + x^2 + 1) on bytes, as a commutative ring of the library's type
  classes, and polynomials over a commutative ring as coefficient lists, highest power first.
  The code's routines are compared with it in \<^verbatim>\<open>Qr_ReedSolomon\<close>.
\<close>

section \<open>Multiplication of bytes modulo the field polynomial\<close>

text \<open>Multiplication by x: shift, and subtract the modulus when the power x^8 appears.\<close>

definition xtime :: "8 word \<Rightarrow> 8 word" where
  "xtime a = push_bit 1 a XOR (if bit a 7 then 0x1d else 0)"

text \<open>The partial product over the lowest n bits of b.\<close>

fun gf_partial :: "nat \<Rightarrow> 8 word \<Rightarrow> 8 word \<Rightarrow> 8 word" where
  "gf_partial 0 a b = 0"
| "gf_partial (Suc n) a b = gf_partial n a b XOR (if bit b n then (xtime ^^ n) a else 0)"

definition gf_mult :: "8 word \<Rightarrow> 8 word \<Rightarrow> 8 word" where
  "gf_mult a b = gf_partial 8 a b"

definition additive :: "(8 word \<Rightarrow> 8 word) \<Rightarrow> bool" where
  "additive f \<longleftrightarrow> f 0 = 0 \<and> (\<forall>a b. f (a XOR b) = f a XOR f b)"

lemma additiveD: "additive f \<Longrightarrow> f (a XOR b) = f a XOR f b"
  by (simp add: additive_def)

lemma additive_0: "additive f \<Longrightarrow> f 0 = 0"
  by (simp add: additive_def)

lemma additive_xtime: "additive xtime"
  unfolding additive_def xtime_def
  by (auto simp: push_bit_xor bit_simps ac_simps intro: bit_word_eqI)

lemma additive_funpow: "additive f \<Longrightarrow> additive (f ^^ n)"
  by (induction n) (auto simp: additive_def)

lemma additive_gf_partial_left: "additive (\<lambda>a. gf_partial n a b)"
proof (induction n)
  case 0
  show ?case by (simp add: additive_def)
next
  case (Suc n)
  with additive_funpow [OF additive_xtime, of n] show ?case
    by (auto simp: additive_def ac_simps)
qed

lemma additive_gf_partial_right: "additive (gf_partial n a)"
  by (induction n) (auto simp: additive_def bit_xor_iff ac_simps)

lemma additive_gf_mult_left: "additive (\<lambda>a. gf_mult a b)"
  using additive_gf_partial_left [of 8 b] by (simp add: gf_mult_def)

lemma additive_gf_mult_right: "additive (gf_mult a)"
  using additive_gf_partial_right [of 8 a] by (simp add: gf_mult_def additive_def)

text \<open>Two additive maps that agree on the single-bit bytes are equal.\<close>

fun low_part :: "nat \<Rightarrow> 8 word \<Rightarrow> 8 word" where
  "low_part 0 w = 0"
| "low_part (Suc n) w = low_part n w XOR (if bit w n then 2 ^ n else 0)"

lemma bit_low_part: "n \<le> 8 \<Longrightarrow> bit (low_part n w) k \<longleftrightarrow> k < n \<and> bit w k"
  by (induction n) (auto simp: bit_simps less_Suc_eq)

lemma low_part_8: "low_part 8 w = w"
  by (rule bit_word_eqI) (simp add: bit_low_part)

lemma additive_ext:
  assumes f: "additive f" and g: "additive g"
    and basis: "\<And>i. i < 8 \<Longrightarrow> f (2 ^ i) = g (2 ^ i)"
  shows "f w = g w"
proof -
  have "f (low_part n w) = g (low_part n w)" if "n \<le> 8" for n
    using that
    by (induction n) (simp_all add: additive_0 [OF f] additive_0 [OF g] additiveD [OF f] additiveD [OF g] basis)
  from this [of 8] show ?thesis by (simp add: low_part_8)
qed

lemma gf_partial_basis:
  "gf_partial n a (2 ^ j) = (if j < n \<and> j < 8 then (xtime ^^ j) a else 0)"
  by (induction n) (auto simp: bit_simps less_Suc_eq)

lemma gf_mult_basis: "j < 8 \<Longrightarrow> gf_mult a (2 ^ j) = (xtime ^^ j) a"
  by (simp add: gf_mult_def gf_partial_basis)

lemma xtime_pow_basis_sym:
  "i < 8 \<Longrightarrow> j < 8 \<Longrightarrow> (xtime ^^ i) (2 ^ j) = (xtime ^^ j) (2 ^ i)"
proof -
  have step: "xtime (2 ^ j) = 2 ^ Suc j" if "j < 7" for j
    using that by (simp add: xtime_def bit_simps)
  have pow: "2 ^ j = (xtime ^^ j) 1" if "j < 8" for j
    using that
  proof (induction j)
    case (Suc j)
    then show ?case using step [of j] by (simp del: power_Suc)
  qed simp
  show "i < 8 \<Longrightarrow> j < 8 \<Longrightarrow> (xtime ^^ i) (2 ^ j) = (xtime ^^ j) (2 ^ i)"
    by (simp add: pow funpow_add [symmetric, THEN fun_cong, unfolded o_apply] add.commute)
qed

lemma gf_mult_commute: "gf_mult a b = gf_mult b a"
proof -
  have basis: "gf_mult (2 ^ i) b = gf_mult b (2 ^ i)" if "i < 8" for i b
    by (rule additive_ext [OF additive_gf_mult_right additive_gf_mult_left])
      (simp add: gf_mult_basis xtime_pow_basis_sym that)
  show ?thesis
    by (rule additive_ext [OF additive_gf_mult_left additive_gf_mult_right]) (simp add: basis)
qed

lemma additive_comp: "additive f \<Longrightarrow> additive g \<Longrightarrow> additive (\<lambda>x. f (g x))"
  by (simp add: additive_def)

lemma xtime_pow_mult: "gf_mult ((xtime ^^ n) a) b = (xtime ^^ n) (gf_mult a b)"
proof (rule additive_ext [where w = b])
  show "additive (gf_mult ((xtime ^^ n) a))" by (rule additive_gf_mult_right)
  show "additive (\<lambda>b. (xtime ^^ n) (gf_mult a b))"
    by (intro additive_comp [OF additive_funpow] additive_xtime additive_gf_mult_right)
  show "gf_mult ((xtime ^^ n) a) (2 ^ i) = (xtime ^^ n) (gf_mult a (2 ^ i))"
    if "i < 8" for i
    using that by (simp add: gf_mult_basis funpow_add [symmetric, THEN fun_cong, unfolded o_apply] add.commute)
qed

lemma gf_mult_assoc: "gf_mult (gf_mult a b) c = gf_mult a (gf_mult b c)"
proof (rule additive_ext [where w = c])
  show "additive (gf_mult (gf_mult a b))" by (rule additive_gf_mult_right)
  show "additive (\<lambda>c. gf_mult a (gf_mult b c))"
    by (rule additive_comp [OF additive_gf_mult_right additive_gf_mult_right])
  show "gf_mult (gf_mult a b) (2 ^ i) = gf_mult a (gf_mult b (2 ^ i))"
    if "i < 8" for i
    using that xtime_pow_mult [of i b a] gf_mult_commute [of "(xtime ^^ i) b" a] gf_mult_commute [of b a]
    by (simp add: gf_mult_basis)
qed

lemma gf_mult_1: "gf_mult 1 b = b"
  using gf_mult_basis [of 0 b] by (simp add: gf_mult_commute [of 1])

section \<open>Bytes as a commutative ring\<close>

datatype gf = GF (gf_byte: "8 word")

instantiation gf :: comm_ring_1
begin
definition zero_gf :: gf where "0 = GF 0"
definition one_gf :: gf where "1 = GF 1"
definition plus_gf :: "gf \<Rightarrow> gf \<Rightarrow> gf" where "a + b = GF (gf_byte a XOR gf_byte b)"
definition minus_gf :: "gf \<Rightarrow> gf \<Rightarrow> gf" where "a - b = GF (gf_byte a XOR gf_byte b)"
definition uminus_gf :: "gf \<Rightarrow> gf" where "- a = (a :: gf)"
definition times_gf :: "gf \<Rightarrow> gf \<Rightarrow> gf" where "a * b = GF (gf_mult (gf_byte a) (gf_byte b))"
instance
proof
  fix a b c :: gf
  show "a * b * c = a * (b * c)" by (simp add: times_gf_def gf_mult_assoc)
  show "a * b = b * a" by (simp add: times_gf_def gf_mult_commute)
  show "1 * a = a" by (simp add: times_gf_def one_gf_def gf_mult_1)
  show "a + b + c = a + (b + c)" by (simp add: plus_gf_def xor.assoc)
  show "a + b = b + a" by (simp add: plus_gf_def xor.commute)
  show "0 + a = a" by (simp add: plus_gf_def zero_gf_def)
  show "- a + a = 0" by (simp add: plus_gf_def uminus_gf_def zero_gf_def)
  show "a - b = a + - b" by (simp add: plus_gf_def minus_gf_def uminus_gf_def)
  show "(a + b) * c = a * c + b * c"
    using additive_gf_mult_left [of "gf_byte c"] by (simp add: times_gf_def plus_gf_def additive_def)
  show "(0::gf) \<noteq> 1" by (simp add: zero_gf_def one_gf_def)
qed
end

lemma gf_add_self [simp]: "a + a = (0 :: gf)"
  by (simp add: plus_gf_def zero_gf_def)

lemma gf_minus_plus: "a - b = a + (b :: gf)"
  by (simp add: plus_gf_def minus_gf_def)

section \<open>Powers of 2 and zero divisors\<close>

text \<open>
  The element 2 (that is, x) generates the 255 nonzero bytes, so the ring is a field: the
  first 254 powers after 1 differ from 1 and the next one is 1 again.
\<close>

fun xtime_orbit :: "nat \<Rightarrow> 8 word \<Rightarrow> 8 word list" where
  "xtime_orbit 0 w = []"
| "xtime_orbit (Suc n) w = w # xtime_orbit n (xtime w)"

lemma xtime_orbit_nth: "k < n \<Longrightarrow> xtime_orbit n w ! k = (xtime ^^ k) w"
  by (induction n arbitrary: w k) (auto simp: nth_Cons funpow_swap1 split: nat.splits)

lemma length_xtime_orbit [simp]: "length (xtime_orbit n w) = n"
  by (induction n arbitrary: w) auto

lemma orbit_avoids_1: "1 \<notin> set (xtime_orbit 254 2)"
  by code_simp

lemma orbit_closes: "xtime_orbit 255 2 ! 254 = 1"
  by code_simp

lemma gf_2_power: "GF 2 ^ Suc n = GF ((xtime ^^ n) 2)"
proof (induction n)
  case (Suc n)
  have "gf_mult 2 w = xtime w" for w
    using gf_mult_basis [of 1 w] by (simp add: gf_mult_commute [of 2])
  with Suc show ?case by (simp add: times_gf_def)
qed simp

lemma gf_2_order: "GF 2 ^ 255 = 1"
  using gf_2_power [of 254] xtime_orbit_nth [of 254 255 2] orbit_closes by (simp add: one_gf_def)

lemma gf_2_power_neq_1: "0 < m \<Longrightarrow> m < 255 \<Longrightarrow> GF 2 ^ m \<noteq> 1"
proof -
  assume "0 < m" "m < 255"
  then obtain k where k: "m = Suc k" "k < 254" by (cases m) auto
  then have "(xtime ^^ k) 2 \<in> set (xtime_orbit 254 2)"
    using xtime_orbit_nth [of k 254 2] nth_mem [of k "xtime_orbit 254 2"] by simp
  then show ?thesis using orbit_avoids_1 k gf_2_power [of k] by (auto simp: one_gf_def)
qed

lemma gf_2_power_inverse: "k \<le> 255 \<Longrightarrow> GF 2 ^ k * GF 2 ^ (255 - k) = 1"
  by (simp add: power_add [symmetric] gf_2_order)

lemma gf_2_power_inj:
  assumes "j < 255" and "k < 255" and "GF 2 ^ j = GF 2 ^ k"
  shows "j = k"
proof -
  have less: False if "j < k" "k < 255" "GF 2 ^ j = GF 2 ^ k" for j k
  proof -
    have "GF 2 ^ k = GF 2 ^ j * GF 2 ^ (k - j)" using that(1) by (simp add: power_add [symmetric])
    then have "GF 2 ^ (255 - j) * GF 2 ^ k = (GF 2 ^ j * GF 2 ^ (255 - j)) * GF 2 ^ (k - j)"
      by (simp only: ac_simps)
    then have "GF 2 ^ (k - j) = 1" using that gf_2_power_inverse [of j] by (simp add: mult.commute)
    moreover have "0 < k - j" "k - j < 255" using that by auto
    ultimately show False using gf_2_power_neq_1 by blast
  qed
  show ?thesis using less [of j k] less [of k j] assms by (metis linorder_neqE_nat)
qed

lemma gf_nonzero_power: "a \<noteq> 0 \<Longrightarrow> \<exists>k<255. a = GF 2 ^ k"
proof -
  assume a: "a \<noteq> (0 :: gf)"
  let ?P = "(\<lambda>k. GF 2 ^ k) ` {..<255}"
  have "range GF = UNIV" using gf.exhaust by blast
  moreover have "card (range GF) = card (UNIV :: 8 word set)" by (rule card_image) (simp add: inj_def)
  ultimately have card: "card (UNIV :: gf set) = 256" by (simp add: card_word)
  have fin: "finite (UNIV :: gf set)" using card card.infinite by fastforce
  have "GF 2 ^ k \<noteq> 0" if "k < 255" for k
    using gf_2_power_inverse [of k] that by auto
  then have "?P \<subseteq> UNIV - {0}" by auto
  moreover have "card ?P = 255"
    by (subst card_image) (auto simp: inj_on_def gf_2_power_inj)
  moreover have "card (UNIV - {0 :: gf}) = 255" using card fin by (simp add: card_Diff_singleton)
  ultimately have "?P = UNIV - {0}" using fin by (intro card_subset_eq) auto
  then show ?thesis using a by auto
qed

lemma gf_no_zero_divisors: "a \<noteq> 0 \<Longrightarrow> b \<noteq> 0 \<Longrightarrow> a * b \<noteq> (0 :: gf)"
proof
  assume "a \<noteq> 0" "b \<noteq> 0" and ab: "a * b = 0"
  then obtain k where k: "k < 255" "a = GF 2 ^ k" using gf_nonzero_power by blast
  have "GF 2 ^ (255 - k) * (a * b) = (GF 2 ^ k * GF 2 ^ (255 - k)) * b"
    using k(2) by (simp only: ac_simps)
  then have "b = 0" using ab k(1) by (simp add: gf_2_power_inverse)
  with \<open>b \<noteq> 0\<close> show False by simp
qed

instance gf :: idom
  by standard (rule gf_no_zero_divisors)

section \<open>Polynomials as coefficient lists, highest power first\<close>

fun horner :: "'a::comm_ring_1 \<Rightarrow> 'a \<Rightarrow> 'a list \<Rightarrow> 'a" where
  "horner acc x [] = acc"
| "horner acc x (c # cs) = horner (acc * x + c) x cs"

definition poly_eval :: "'a::comm_ring_1 list \<Rightarrow> 'a \<Rightarrow> 'a" where
  "poly_eval cs x = horner 0 x cs"

lemma horner_acc: "horner acc x cs = acc * x ^ length cs + poly_eval cs x"
proof (induction cs arbitrary: acc)
  case Nil
  then show ?case by (simp add: poly_eval_def)
next
  case (Cons c cs)
  show ?case
    unfolding poly_eval_def horner.simps Cons.IH [of "acc * x + c"] Cons.IH [of "0 * x + c"]
    by (simp add: algebra_simps)
qed

lemma poly_eval_Nil [simp]: "poly_eval [] x = 0"
  by (simp add: poly_eval_def)

lemma poly_eval_Cons: "poly_eval (c # cs) x = c * x ^ length cs + poly_eval cs x"
  using horner_acc [of c x cs] by (simp add: poly_eval_def)

lemma poly_eval_append: "poly_eval (as @ bs) x = poly_eval as x * x ^ length bs + poly_eval bs x"
  by (induction as) (simp_all add: poly_eval_Cons power_add algebra_simps)

lemma poly_eval_replicate_0 [simp]: "poly_eval (replicate n 0) x = 0"
  by (induction n) (simp_all add: poly_eval_Cons)

lemma poly_eval_map2_add:
  "length as = length bs \<Longrightarrow> poly_eval (map2 (\<lambda>a b. a + k * b) as bs) x = poly_eval as x + k * poly_eval bs x"
  by (induction as bs rule: list_induct2) (simp_all add: poly_eval_Cons algebra_simps)

end
