(* ===== verification/Qr_ReedSolomon.thy ===== *)
theory Qr_ReedSolomon
  imports Gf256
begin

unbundle bit_operations_syntax

text \<open>
  The Reed-Solomon routines of \<^verbatim>\<open>webui/qr.js\<close>: multiplication of two bytes, the generator
  polynomial of a given degree, and the remainder that is appended to a block as its error
  correction codewords. The definitions follow the loops of the code on 32-bit values with
  their range checks; the lemmas show that they refine the ring of \<^verbatim>\<open>Gf256\<close> and that every
  block with its remainder is a Reed-Solomon codeword.
\<close>

section \<open>The routines\<close>

definition reedSolomonMultiply :: "u32 \<Rightarrow> u32 \<Rightarrow> u32 res" where
  "reedSolomonMultiply x y =
     (if shr x 8 \<noteq> 0 \<or> shr y 8 \<noteq> 0 then Inl (RangeError ''Byte out of range'')
      else Inr (fold (\<lambda>i z. let z = shl z 1 XOR (shr z 7 * 0x11d)
                            in z XOR ((shr y i AND 1) * x))
                     (rev [0..<8]) 0))"

definition divisor_step :: "u32 \<Rightarrow> nat \<Rightarrow> u32 list \<Rightarrow> u32 list res" where
  "divisor_step rt j result =
     bindR (reedSolomonMultiply (result ! j) rt) (\<lambda>v.
       let result = result[j := v]
       in Inr (if j + 1 < length result
               then result[j := result ! j XOR result ! (j + 1)] else result))"

definition reedSolomonComputeDivisor :: "int \<Rightarrow> u32 list res" where
  "reedSolomonComputeDivisor degree =
     (if degree < 1 \<or> degree > 255 then Inl (RangeError ''Degree out of range'')
      else bindR
        (forR (\<lambda>i (result, root).
             bindR (forR (divisor_step root) [0..<length result] result) (\<lambda>result.
             bindR (reedSolomonMultiply root 2) (\<lambda>root. Inr (result, root))))
           [0..<nat degree] (replicate (nat degree - 1) 0 @ [1], 1))
        (\<lambda>(result, root). Inr result))"

definition remainder_step :: "u32 list \<Rightarrow> u32 \<Rightarrow> u32 list \<Rightarrow> u32 list res" where
  "remainder_step divisor b result =
     (let (factor, result) =
            (case result of [] \<Rightarrow> (b, [0]) | r # rs \<Rightarrow> (b XOR r, rs @ [0]))
      in forR (\<lambda>i result.
             bindR (reedSolomonMultiply (num_or_0 (arr_get divisor (int i))) factor) (\<lambda>v.
               Inr (result[i := result ! i XOR v])))
           [0..<length result] result)"

definition reedSolomonComputeRemainder :: "u32 list \<Rightarrow> u32 list \<Rightarrow> u32 list res" where
  "reedSolomonComputeRemainder data divisor =
     forR (remainder_step divisor) data (map (\<lambda>_. 0) divisor)"

section \<open>Bytes as field elements\<close>

definition is_byte :: "u32 \<Rightarrow> bool" where
  "is_byte x \<longleftrightarrow> shr x 8 = 0"

definition to_gf :: "u32 \<Rightarrow> gf" where
  "to_gf x = GF (ucast x)"

definition of_gf :: "gf \<Rightarrow> u32" where
  "of_gf g = ucast (gf_byte g)"

lemma is_byte_bits: "is_byte x \<longleftrightarrow> (\<forall>k\<ge>8. \<not> bit x k)"
proof
  assume "is_byte x"
  then have "\<not> bit (shr x 8) (k - 8)" for k by (simp add: is_byte_def)
  then show "\<forall>k\<ge>8. \<not> bit x k" by (metis bit_shr le_add_diff_inverse numeral_less_iff semiring_norm(76,78,81))
next
  assume "\<forall>k\<ge>8. \<not> bit x k"
  then show "is_byte x" unfolding is_byte_def by (intro bit_word_eqI) simp
qed

lemma is_byte_of_gf [simp]: "is_byte (of_gf g)"
  by (auto simp: is_byte_bits of_gf_def bit_simps dest: bit_imp_le_length)

lemma to_gf_of_gf [simp]: "to_gf (of_gf g) = g"
  by (cases g) (auto simp: to_gf_def of_gf_def bit_simps intro!: bit_word_eqI dest: bit_imp_le_length)

lemma of_gf_to_gf: "is_byte x \<Longrightarrow> of_gf (to_gf x) = x"
  unfolding is_byte_bits to_gf_def of_gf_def
  by (intro bit_word_eqI) (auto simp: bit_simps not_le)

lemma of_gf_0 [simp]: "of_gf 0 = 0" and of_gf_1 [simp]: "of_gf 1 = 1"
  by (simp_all add: of_gf_def zero_gf_def one_gf_def)

lemma of_gf_add: "of_gf (a + b) = of_gf a XOR of_gf b"
  by (rule bit_word_eqI) (auto simp: of_gf_def plus_gf_def bit_simps)

lemma shl_xtime: "shl (ucast w) 1 XOR (shr (ucast w) 7 * 0x11d) = (ucast (xtime w) :: u32)"
proof -
  have "shr (ucast w :: u32) 7 = of_bool (bit w 7)"
  proof (rule bit_word_eqI)
    fix n
    have "bit w (7 + n) \<Longrightarrow> n = 0" using bit_imp_le_length [of w "7 + n"] by simp
    then show "bit (shr (ucast w :: u32) 7) n = bit (of_bool (bit w 7) :: u32) n"
      by (auto simp: bit_simps bit_1_iff)
  qed
  moreover have "shl (ucast w :: u32) 1 = ucast (push_bit 1 w) XOR (if bit w 7 then 0x100 else 0)"
  proof -
    define p where "p = push_bit 1 w"
    have p: "bit p n \<longleftrightarrow> 1 \<le> n \<and> n < 8 \<and> bit w (n - 1)" for n
      unfolding p_def by (simp only: bit_push_bit_iff) (auto dest: bit_imp_le_length)
    define q :: u32 where "q = 2 ^ 8"
    have q: "bit q n \<longleftrightarrow> n = 8" for n
      unfolding q_def by (simp only: bit_exp_iff) (auto simp: possible_bit_def)
    have "shl (ucast w) 1 = ucast p XOR (if bit w 7 then q else 0)"
      proof (intro bit_word_eqI)
      fix n
      show "bit (shl (ucast w :: u32) 1) n = bit (ucast p XOR (if bit w 7 then q else 0)) n"
        using bit_imp_le_length [of w "n - 1"]
        by (cases "n = 8"; cases "n < 8") (auto simp: p q bit_simps)
    qed
    then show ?thesis by (simp add: p_def q_def)
  qed
  moreover have "(ucast (0x1d :: 8 word) :: u32) = 0x1d" by simp
  ultimately show ?thesis
    by (simp only: xtime_def unsigned_xor_eq) (simp add: xor.assoc)
qed

text \<open>One round of the multiplication loop, and the whole loop, as Horner's rule on bytes.\<close>

lemma select_bit: "(shr (ucast b) i AND 1) * (ucast a :: u32) = ucast (if bit b i then a else 0)"
  if "i < 8" for a b :: "8 word"
proof -
  have "shr (ucast b :: u32) i AND 1 = of_bool (bit b i)"
    using that by (intro bit_word_eqI) (auto simp: bit_simps bit_1_iff)
  then show ?thesis by simp
qed

lemma horner_gf_partial:
  "fold (\<lambda>i w. xtime w XOR (if bit b i then a else 0)) (rev [0..<n]) w
     = (xtime ^^ n) w XOR gf_partial n a b"
proof (induction n arbitrary: w)
  case 0
  then show ?case by simp
next
  case (Suc n)
  have "additive (xtime ^^ n)" by (rule additive_funpow [OF additive_xtime])
  then show ?case using Suc by (simp add: additive_def funpow_swap1 ac_simps)
qed

lemma multiply_loop:
  "fold (\<lambda>i z. let z = shl z 1 XOR (shr z 7 * 0x11d) in z XOR ((shr (ucast b) i AND 1) * ucast a))
     is (ucast w) = (ucast (fold (\<lambda>i w. xtime w XOR (if bit b i then a else 0)) is w) :: u32)"
  if "\<forall>i \<in> set is. i < 8" for a b w :: "8 word"
  using that
proof (induction "is" arbitrary: w)
  case Nil
  then show ?case by simp
next
  case (Cons i "is")
  then show ?case
    using Cons.IH [of "xtime w XOR (if bit b i then a else 0)"]
    by (simp only: fold_simps Let_def shl_xtime unsigned_xor_eq o_apply) (simp add: select_bit)
qed

lemma reedSolomonMultiply_of_gf: "reedSolomonMultiply (of_gf a) (of_gf b) = Inr (of_gf (a * b))"
proof -
  have "shr (of_gf a) 8 = 0" "shr (of_gf b) 8 = 0"
    using is_byte_of_gf [of a] is_byte_of_gf [of b] by (simp_all only: is_byte_def)
  moreover have "additive (xtime ^^ 8)" by (rule additive_funpow [OF additive_xtime])
  ultimately show ?thesis
    using multiply_loop [of "rev [0..<8]" "gf_byte b" "gf_byte a" 0]
    by (simp only: reedSolomonMultiply_def horner_gf_partial)
      (simp add: of_gf_def times_gf_def gf_mult_def additive_def)
qed

section \<open>The generator polynomial\<close>

text \<open>
  One round of the divisor loop on field elements: multiply the polynomial by
  \<open>x + rt\<close> and drop the coefficient that leaves the array.
\<close>

definition gf_divisor_step :: "gf \<Rightarrow> gf list \<Rightarrow> gf list" where
  "gf_divisor_step rt xs = map2 (\<lambda>a b. b + rt * a) xs (tl xs @ [0])"

lemma length_gf_divisor_step [simp]: "length (gf_divisor_step rt xs) = length xs"
  by (cases xs) (simp_all add: gf_divisor_step_def)

lemma divisor_step_refines:
  "forR (divisor_step (of_gf rt)) [0..<length xs] (map of_gf xs) = Inr (map of_gf (gf_divisor_step rt xs))"
proof -
  let ?h = "\<lambda>j. of_gf ((tl xs @ [0]) ! j + rt * xs ! j)"
  have "forR (divisor_step (of_gf rt)) [0..<length xs] (map of_gf xs)
      = Inr (map ?h [0..<length xs] @ drop (length xs) (map of_gf xs))"
  proof (rule forR_inplace)
    fix j and s :: "u32 list"
    assume j: "j < length xs" and len: "length s = length (map of_gf xs)"
      and s: "\<And>k. j \<le> k \<Longrightarrow> k < length (map of_gf xs) \<Longrightarrow> s ! k = map of_gf xs ! k"
    have sj: "s ! j = of_gf (xs ! j)" using s [of j] j by simp
    have "s ! Suc j = of_gf (xs ! Suc j)" if "Suc j < length xs" using s [of "Suc j"] that by simp
    moreover have "(tl xs @ [0]) ! j = (if Suc j < length xs then xs ! Suc j else 0)"
      using j by (auto simp: nth_append nth_tl)
    ultimately show "divisor_step (of_gf rt) j s = Inr (s[j := ?h j])"
      using j len
      by (simp add: divisor_step_def sj reedSolomonMultiply_of_gf Let_def of_gf_add mult.commute xor.commute)
  qed simp
  moreover have "map ?h [0..<length xs] = map of_gf (gf_divisor_step rt xs)"
    by (rule nth_equalityI) (auto simp: gf_divisor_step_def)
  ultimately show ?thesis by simp
qed

lemma poly_eval_shift:
  "xs \<noteq> [] \<Longrightarrow> poly_eval (tl xs @ [0]) x = x * poly_eval xs x - hd xs * x ^ length (xs :: 'a::comm_ring_1 list)"
  by (cases xs) (simp_all add: poly_eval_append poly_eval_Cons algebra_simps)

lemma poly_eval_gf_divisor_step:
  "xs \<noteq> [] \<Longrightarrow> poly_eval (gf_divisor_step rt xs) x = (x + rt) * poly_eval xs x + hd xs * x ^ length xs"
proof -
  assume ne: "xs \<noteq> []"
  have "gf_divisor_step rt xs = map2 (\<lambda>a b. a + rt * b) (tl xs @ [0]) xs"
    unfolding gf_divisor_step_def
    by (rule nth_equalityI) auto
  with ne have "poly_eval (gf_divisor_step rt xs) x = poly_eval (tl xs @ [0]) x + rt * poly_eval xs x"
    by (simp add: poly_eval_map2_add)
  with ne show ?thesis by (simp add: poly_eval_shift gf_minus_plus algebra_simps)
qed

definition rs_generator :: "nat \<Rightarrow> gf \<Rightarrow> gf" where
  "rs_generator d x = (\<Prod>i<d. x + GF 2 ^ i)"

text \<open>
  After \<open>k < d\<close> rounds the array holds the whole product of the first \<open>k\<close> factors, right
  aligned, with its leading coefficient 1 in place.
\<close>

definition divisor_inv :: "nat \<Rightarrow> nat \<Rightarrow> gf list \<Rightarrow> bool" where
  "divisor_inv d k xs \<longleftrightarrow> length xs = d \<and> (\<forall>i < d - 1 - k. xs ! i = 0) \<and> xs ! (d - 1 - k) = 1
     \<and> (\<forall>x. poly_eval xs x = rs_generator k x)"

lemma divisor_inv_0: "0 < d \<Longrightarrow> divisor_inv d 0 (replicate (d - 1) 0 @ [1])"
  by (auto simp: divisor_inv_def nth_append rs_generator_def poly_eval_append poly_eval_Cons)

lemma divisor_inv_step:
  assumes "divisor_inv d k xs" and "Suc k < d"
  shows "divisor_inv d (Suc k) (gf_divisor_step (GF 2 ^ k) xs)"
proof -
  let ?r = "GF 2 ^ k"
  have len: "length xs = d" and z: "\<And>i. i < d - 1 - k \<Longrightarrow> xs ! i = 0" and one: "xs ! (d - 1 - k) = 1"
    and ev: "\<And>x. poly_eval xs x = rs_generator k x"
    using assms(1) by (auto simp: divisor_inv_def)
  have nth: "gf_divisor_step ?r xs ! i = xs ! Suc i + ?r * xs ! i" if "Suc i < d" for i
    using that len by (auto simp: gf_divisor_step_def nth_append nth_tl)
  have "hd xs = 0" using z [of 0] assms(2) len by (cases xs) auto
  moreover have "xs \<noteq> []" using len assms(2) by auto
  ultimately have "poly_eval (gf_divisor_step ?r xs) x = rs_generator (Suc k) x" for x
    by (simp add: poly_eval_gf_divisor_step ev rs_generator_def mult.commute)
  moreover have "gf_divisor_step ?r xs ! i = 0" if "i < d - 1 - Suc k" for i
    using that nth [of i] z [of i] z [of "Suc i"] by simp
  moreover have "gf_divisor_step ?r xs ! (d - 1 - Suc k) = 1"
    using assms(2) nth [of "d - 1 - Suc k"] one z [of "d - 1 - Suc k"] by (simp add: Suc_diff_Suc)
  ultimately show ?thesis using len by (simp add: divisor_inv_def)
qed

lemma divisor_final_step:
  assumes "divisor_inv d k xs" and "Suc k = d"
  shows "x ^ d + poly_eval (gf_divisor_step (GF 2 ^ k) xs) x = rs_generator d x"
proof -
  have len: "length xs = d" and ne: "xs \<noteq> []" and "hd xs = 1"
    and "poly_eval xs x = rs_generator k x"
    using assms by (auto simp: divisor_inv_def) (cases xs; simp)
  then have "poly_eval (gf_divisor_step (GF 2 ^ k) xs) x = rs_generator d x + x ^ d"
    using assms(2) [symmetric] by (simp add: poly_eval_gf_divisor_step rs_generator_def mult.commute)
  moreover have "x ^ d + (rs_generator d x + x ^ d) = (x ^ d + x ^ d) + rs_generator d x"
    by (simp only: ac_simps)
  ultimately show ?thesis by simp
qed

definition divisor_round :: "nat \<Rightarrow> u32 list \<times> u32 \<Rightarrow> (u32 list \<times> u32) res" where
  "divisor_round = (\<lambda>i (result, root).
     bindR (forR (divisor_step root) [0..<length result] result) (\<lambda>result.
     bindR (reedSolomonMultiply root 2) (\<lambda>root. Inr (result, root))))"

lemma divisor_round_refines:
  "divisor_round i (map of_gf xs, of_gf (GF 2 ^ k))
     = Inr (map of_gf (gf_divisor_step (GF 2 ^ k) xs), of_gf (GF 2 ^ Suc k))"
proof -
  have "of_gf (GF 2) = 2" by (simp add: of_gf_def)
  then have "reedSolomonMultiply (of_gf (GF 2 ^ k)) 2 = Inr (of_gf (GF 2 ^ Suc k))"
    using reedSolomonMultiply_of_gf [of "GF 2 ^ k" "GF 2"] by (simp add: mult.commute)
  then show ?thesis
    using divisor_step_refines [of "GF 2 ^ k" xs] by (simp add: divisor_round_def)
qed

lemma divisor_rounds:
  assumes "k < d"
  shows "\<exists>xs. forR divisor_round [0..<k] (map of_gf (replicate (d - 1) 0 @ [1]), of_gf 1)
      = Inr (map of_gf xs, of_gf (GF 2 ^ k)) \<and> divisor_inv d k xs"
  using assms
proof (induction k)
  case 0
  then have "divisor_inv d 0 (replicate (d - 1) 0 @ [1])" by (intro divisor_inv_0) simp
  then show ?case by (intro exI [of _ "replicate (d - 1) 0 @ [1]"]) simp
next
  case (Suc k)
  then obtain xs where "divisor_inv d k xs"
    and "forR divisor_round [0..<k] (map of_gf (replicate (d - 1) 0 @ [1]), of_gf 1)
      = Inr (map of_gf xs, of_gf (GF 2 ^ k))"
    by auto
  with Suc.prems divisor_inv_step [of d k xs] show ?case
    by (intro exI [of _ "gf_divisor_step (GF 2 ^ k) xs"])
      (simp add: forR_append divisor_round_refines del: power_Suc)
qed

lemma reedSolomonComputeDivisor_gf:
  assumes "1 \<le> d" and "d \<le> 255"
  shows "\<exists>g. reedSolomonComputeDivisor (int d) = Inr (map of_gf g) \<and> length g = d
    \<and> (\<forall>x. x ^ d + poly_eval g x = rs_generator d x)"
proof -
  obtain k where k: "d = Suc k" using assms(1) by (cases d) auto
  obtain xs where inv: "divisor_inv d k xs"
    and run: "forR divisor_round [0..<k] (map of_gf (replicate (d - 1) 0 @ [1]), of_gf 1)
      = Inr (map of_gf xs, of_gf (GF 2 ^ k))"
    using divisor_rounds [of k d] k by auto
  let ?g = "gf_divisor_step (GF 2 ^ k) xs"
  have "forR divisor_round [0..<d] (replicate (d - 1) 0 @ [1], 1)
      = Inr (map of_gf ?g, of_gf (GF 2 ^ Suc k))"
    using run k by (simp add: forR_append divisor_round_refines del: power_Suc)
  then have "reedSolomonComputeDivisor (int d) = Inr (map of_gf ?g)"
    using assms by (simp add: reedSolomonComputeDivisor_def divisor_round_def)
  moreover have "length ?g = d" using inv by (simp add: divisor_inv_def)
  ultimately show ?thesis using divisor_final_step [OF inv k [symmetric]] by blast
qed

lemma rs_generator_root: "i < d \<Longrightarrow> rs_generator d (GF 2 ^ i) = 0"
  unfolding rs_generator_def by (rule prod_zero) (auto intro!: bexI [of _ i])

section \<open>The remainder\<close>

definition gf_remainder_step :: "gf list \<Rightarrow> gf \<Rightarrow> gf list \<Rightarrow> gf list" where
  "gf_remainder_step g b rs = map2 (\<lambda>a c. a + (b + hd rs) * c) (tl rs @ [0]) g"

lemma remainder_step_refines:
  assumes "rs \<noteq> []" and "length g = length rs"
  shows "remainder_step (map of_gf g) (of_gf b) (map of_gf rs) = Inr (map of_gf (gf_remainder_step g b rs))"
proof -
  let ?f = "b + hd rs" and ?rs = "tl rs @ [0]"
  let ?h = "\<lambda>i. of_gf (?rs ! i + ?f * g ! i)"
  have len: "length ?rs = length g" using assms by simp
  have "remainder_step (map of_gf g) (of_gf b) (map of_gf rs) =
    forR (\<lambda>i result. bindR (reedSolomonMultiply (num_or_0 (arr_get (map of_gf g) (int i))) (of_gf ?f))
        (\<lambda>v. Inr (result[i := result ! i XOR v]))) [0..<length g] (map of_gf ?rs)"
    using assms by (cases rs) (simp_all add: remainder_step_def of_gf_add)
  also have "\<dots> = Inr (map ?h [0..<length g] @ drop (length g) (map of_gf ?rs))"
  proof (rule forR_inplace)
    fix i and s :: "u32 list"
    assume i: "i < length g"
      and s: "\<And>k. i \<le> k \<Longrightarrow> k < length (map of_gf ?rs) \<Longrightarrow> s ! k = map of_gf ?rs ! k"
    have "s ! i = of_gf (?rs ! i)" using s [of i] i len by (simp del: map_append)
    moreover have "of_gf (?rs ! i + ?f * g ! i) = of_gf (?rs ! i) XOR of_gf (g ! i * ?f)"
      by (simp only: of_gf_add mult.commute)
    ultimately show "bindR (reedSolomonMultiply (num_or_0 (arr_get (map of_gf g) (int i))) (of_gf ?f))
        (\<lambda>v. Inr (s[i := s ! i XOR v])) = Inr (s[i := ?h i])"
      using i by (simp add: reedSolomonMultiply_of_gf)
  qed (use len in simp)
  also have "map ?h [0..<length g] @ drop (length g) (map of_gf ?rs) = map of_gf (gf_remainder_step g b rs)"
    using assms by (intro nth_equalityI) (auto simp: gf_remainder_step_def)
  finally show ?thesis .
qed

lemma length_gf_remainder_step:
  "rs \<noteq> [] \<Longrightarrow> length g = length rs \<Longrightarrow> length (gf_remainder_step g b rs) = length rs"
  by (simp add: gf_remainder_step_def)

lemma poly_eval_remainder_step:
  assumes "rs \<noteq> []" and "length g = length rs" and "poly_eval g x = x ^ length rs"
  shows "poly_eval (gf_remainder_step g b rs) x = x * poly_eval rs x + b * x ^ length rs"
proof -
  have "poly_eval (gf_remainder_step g b rs) x
      = poly_eval (tl rs @ [0]) x + (b + hd rs) * poly_eval g x"
    unfolding gf_remainder_step_def using assms by (intro poly_eval_map2_add) simp
  also have "\<dots> = x * poly_eval rs x + b * x ^ length rs"
    using assms by (simp add: poly_eval_shift algebra_simps)
  finally show ?thesis .
qed

lemma remainder_loop:
  assumes "rs \<noteq> []" and "length g = length rs"
  shows "\<exists>rs'. forR (remainder_step (map of_gf g)) (map of_gf ds) (map of_gf rs) = Inr (map of_gf rs')
     \<and> length rs' = length rs
     \<and> (\<forall>x. poly_eval g x = x ^ length rs \<longrightarrow>
          poly_eval rs' x = x ^ length ds * poly_eval rs x + poly_eval ds x * x ^ length rs)"
  using assms
proof (induction ds arbitrary: rs)
  case Nil
  then show ?case by auto
next
  case (Cons b ds)
  let ?rs = "gf_remainder_step g b rs"
  have len: "length ?rs = length rs" using Cons.prems by (simp add: length_gf_remainder_step)
  with Cons.prems have ne: "?rs \<noteq> []" by auto
  from Cons.IH [OF ne] Cons.prems len obtain rs' where
    run: "forR (remainder_step (map of_gf g)) (map of_gf ds) (map of_gf ?rs) = Inr (map of_gf rs')"
    and len': "length rs' = length rs"
    and ev: "\<And>x. poly_eval g x = x ^ length rs \<Longrightarrow>
       poly_eval rs' x = x ^ length ds * poly_eval ?rs x + poly_eval ds x * x ^ length rs"
    by auto
  have "poly_eval rs' x = x ^ length (b # ds) * poly_eval rs x + poly_eval (b # ds) x * x ^ length rs"
    if "poly_eval g x = x ^ length rs" for x
    using that Cons.prems
    by (simp add: ev poly_eval_remainder_step poly_eval_Cons algebra_simps)
  with run len' Cons.prems show ?case
    by (intro exI [of _ rs']) (simp add: remainder_step_refines)
qed

lemma rs_codeword_gf:
  assumes "1 \<le> d" and "d \<le> 255"
  shows "\<exists>g rs. reedSolomonComputeDivisor (int d) = Inr (map of_gf g) \<and> length g = d
    \<and> reedSolomonComputeRemainder (map of_gf ds) (map of_gf g) = Inr (map of_gf rs) \<and> length rs = d
    \<and> (\<forall>i<d. poly_eval (ds @ rs) (GF 2 ^ i) = 0)"
proof -
  obtain g where g: "reedSolomonComputeDivisor (int d) = Inr (map of_gf g)" "length g = d"
    and gen: "\<And>x. x ^ d + poly_eval g x = rs_generator d x"
    using reedSolomonComputeDivisor_gf [OF assms] by blast
  have zeros: "map (\<lambda>_. 0) (map of_gf g) = map of_gf (replicate d (0 :: gf))"
    using g(2) by (simp add: map_replicate_const)
  obtain rs where run: "reedSolomonComputeRemainder (map of_gf ds) (map of_gf g) = Inr (map of_gf rs)"
    and len: "length rs = d"
    and ev: "\<And>x. poly_eval g x = x ^ d \<Longrightarrow> poly_eval rs x = poly_eval ds x * x ^ d"
    using remainder_loop [of "replicate d (0 :: gf)" g ds] g(2) assms(1)
    unfolding reedSolomonComputeRemainder_def zeros by auto
  have "poly_eval (ds @ rs) (GF 2 ^ i) = 0" if "i < d" for i
  proof -
    let ?x = "GF 2 ^ i"
    have "poly_eval g ?x = ?x ^ d"
      using gen [of ?x] rs_generator_root [OF that] by (simp add: eq_neg_iff_add_eq_0 [symmetric] uminus_gf_def add.commute)
    from ev [OF this] show ?thesis using len by (simp add: poly_eval_append)
  qed
  with g run len show ?thesis by blast
qed

section \<open>Minimum distance\<close>

text \<open>
  The classical bound: a word of at most 255 symbols whose first \<open>d\<close> syndromes vanish and
  that has at most \<open>d\<close> nonzero symbols is zero.
\<close>

lemma poly_eval_sum: "poly_eval cs x = (\<Sum>k<length cs. rev cs ! k * x ^ k)"
  by (induction cs) (simp_all add: poly_eval_Cons nth_append add.commute)

lemma syndrome_products:
  fixes v :: "nat \<Rightarrow> gf"
  assumes "\<And>i. i < d \<Longrightarrow> (\<Sum>k<n. v k * (GF 2 ^ k) ^ i) = 0"
    and "finite T" and "m + card T < d"
  shows "(\<Sum>k<n. v k * (GF 2 ^ k) ^ m * (\<Prod>t\<in>T. GF 2 ^ k + GF 2 ^ t)) = 0"
  using assms(2,3)
proof (induction T arbitrary: m rule: finite_induct)
  case empty
  then show ?case using assms(1) [of m] by simp
next
  case (insert t T)
  let ?p = "\<lambda>k. \<Prod>t\<in>T. GF 2 ^ k + GF 2 ^ t"
  have "(\<Sum>k<n. v k * (GF 2 ^ k) ^ m * (\<Prod>t\<in>insert t T. GF 2 ^ k + GF 2 ^ t))
      = (\<Sum>k<n. v k * (GF 2 ^ k) ^ Suc m * ?p k) + GF 2 ^ t * (\<Sum>k<n. v k * (GF 2 ^ k) ^ m * ?p k)"
    using insert.hyps by (simp add: sum_distrib_left sum.distrib [symmetric] algebra_simps)
  then show ?case using insert.IH [of m] insert.IH [of "Suc m"] insert.prems insert.hyps by simp
qed

lemma low_weight_codeword_zero:
  fixes cs :: "gf list"
  assumes "length cs \<le> 255" and syn: "\<forall>i<d. poly_eval cs (GF 2 ^ i) = 0"
    and weight: "length (filter (\<lambda>c. c \<noteq> 0) cs) \<le> d"
  shows "filter (\<lambda>c. c \<noteq> 0) cs = []"
proof (rule ccontr)
  let ?v = "\<lambda>k. rev cs ! k" and ?n = "length cs"
  let ?S = "{k. k < length (rev cs) \<and> ?v k \<noteq> 0}"
  assume "filter (\<lambda>c. c \<noteq> 0) cs \<noteq> []"
  then obtain c where c: "c \<in> set (rev cs)" "c \<noteq> 0" by (auto simp: filter_empty_conv)
  then obtain k0 where "k0 < length (rev cs)" "?v k0 = c" unfolding in_set_conv_nth by blast
  with c(2) have k0: "k0 \<in> ?S" by simp
  let ?T = "?S - {k0}"
  have card: "card ?S = length (filter (\<lambda>c. c \<noteq> 0) cs)"
    using length_filter_conv_card [of "\<lambda>c. c \<noteq> 0" "rev cs"] by (simp add: rev_filter [symmetric])
  have "card ?T < d" using weight card k0 card_Diff1_less [of ?S k0] by auto
  moreover have "(\<Sum>k<?n. ?v k * (GF 2 ^ k) ^ i) = 0" if "i < d" for i
  proof -
    have "(GF 2 ^ k) ^ i = (GF 2 ^ i) ^ k" for k by (simp add: power_mult [symmetric] mult.commute)
    then show ?thesis using syn that by (simp add: poly_eval_sum)
  qed
  ultimately have total: "(\<Sum>k<?n. ?v k * (GF 2 ^ k) ^ 0 * (\<Prod>t\<in>?T. GF 2 ^ k + GF 2 ^ t)) = 0"
    by (intro syndrome_products) auto
  have "(\<Sum>k\<in>{..<?n} - {k0}. ?v k * (GF 2 ^ k) ^ 0 * (\<Prod>t\<in>?T. GF 2 ^ k + GF 2 ^ t)) = 0"
  proof (rule sum.neutral, rule ballI)
    fix k
    assume "k \<in> {..<?n} - {k0}"
    then show "?v k * (GF 2 ^ k) ^ 0 * (\<Prod>t\<in>?T. GF 2 ^ k + GF 2 ^ t) = 0"
      by (cases "?v k = 0") (auto intro!: prod_zero bexI [of _ k])
  qed
  then have "?v k0 * (\<Prod>t\<in>?T. GF 2 ^ k0 + GF 2 ^ t) = 0"
    using total k0 sum.remove [of "{..<?n}" k0
        "\<lambda>k. ?v k * (GF 2 ^ k) ^ 0 * (\<Prod>t\<in>?T. GF 2 ^ k + GF 2 ^ t)"] by simp
  then obtain t where t: "t \<in> ?T" "GF 2 ^ k0 + GF 2 ^ t = 0"
    using k0 by (auto simp: prod_zero_iff)
  then have "GF 2 ^ k0 = GF 2 ^ t" by (simp add: eq_neg_iff_add_eq_0 [symmetric] uminus_gf_def)
  then show False using gf_2_power_inj [of k0 t] t(1) k0 assms(1) by auto
qed

section \<open>Properties\<close>

lemma map_of_gf_to_gf: "\<forall>b\<in>set bs. is_byte b \<Longrightarrow> map of_gf (map to_gf bs) = bs"
  by (simp add: of_gf_to_gf map_idI)

lemma to_gf_2: "to_gf 2 = GF 2"
  by (simp add: to_gf_def)

lemma rs_block:
  assumes "1 \<le> d" and "d \<le> 255" and "\<forall>b\<in>set data. is_byte b"
  shows "\<exists>divisor ecc. reedSolomonComputeDivisor (int d) = Inr divisor
    \<and> reedSolomonComputeRemainder data divisor = Inr ecc
    \<and> length ecc = d \<and> (\<forall>b\<in>set ecc. is_byte b)
    \<and> (\<forall>i<d. poly_eval (map to_gf (data @ ecc)) (to_gf 2 ^ i) = 0)"
proof -
  obtain g rs where "reedSolomonComputeDivisor (int d) = Inr (map of_gf g)"
    and "reedSolomonComputeRemainder data (map of_gf g) = Inr (map of_gf rs)"
    and "length rs = d" and "\<forall>i<d. poly_eval (map to_gf data @ rs) (GF 2 ^ i) = 0"
    using rs_codeword_gf [OF assms(1,2), of "map to_gf data"] map_of_gf_to_gf [OF assms(3)] by auto
  then show ?thesis
    by (intro exI [of _ "map of_gf g"] exI [of _ "map of_gf rs"]) (auto simp: to_gf_2 comp_def)
qed

text \<open>\<^bold>\<open>C27.\<close> On two bytes \<^verbatim>\<open>reedSolomonMultiply\<close> never throws and computes the product of the field
  GF(2)[x]/(x^8 + x^4 + x^3 + x^2 + 1); on anything else it throws the range error.\<close>

theorem reedSolomonMultiply_is_field_product:
  "reedSolomonMultiply x y =
     (if is_byte x \<and> is_byte y then Inr (of_gf (to_gf x * to_gf y))
      else Inl (RangeError ''Byte out of range''))"
proof (cases "is_byte x \<and> is_byte y")
  case True
  then show ?thesis
    using reedSolomonMultiply_of_gf [of "to_gf x" "to_gf y"] by (simp add: of_gf_to_gf)
next
  case False
  then show ?thesis by (auto simp: reedSolomonMultiply_def is_byte_def)
qed

text \<open>For every degree from 1 to 255 the generator polynomial and the remainder of every byte
  sequence are computed without an error, and the sequence followed by its remainder is a
  Reed-Solomon codeword: its syndromes at the powers 1, 2, 4, ... of the generator vanish.\<close>

theorem rs_block_is_codeword:
  assumes "1 \<le> d" and "d \<le> 255" and "\<forall>b\<in>set data. is_byte b"
  shows "\<exists>divisor ecc. reedSolomonComputeDivisor (int d) = Inr divisor
    \<and> reedSolomonComputeRemainder data divisor = Inr ecc
    \<and> length ecc = d \<and> (\<forall>b\<in>set ecc. is_byte b)
    \<and> (\<forall>i<d. poly_eval (map to_gf (data @ ecc)) (to_gf 2 ^ i) = 0)"
  using assms by (rule rs_block)

text \<open>\<^bold>\<open>C5.\<close> Two different blocks of the same length, each with its remainder, differ in more than
  \<open>d\<close> codewords whenever the whole block has at most 255 of them: a reader that corrects up to
  \<open>d div 2\<close> wrong codewords per block recovers the right one.\<close>

theorem rs_minimum_distance:
  assumes "1 \<le> d" and "length data1 + d \<le> 255" and "length data1 = length data2"
    and "\<forall>b\<in>set data1. is_byte b" and "\<forall>b\<in>set data2. is_byte b" and "data1 \<noteq> data2"
    and div: "reedSolomonComputeDivisor (int d) = Inr divisor"
    and ecc1: "reedSolomonComputeRemainder data1 divisor = Inr ecc1"
    and ecc2: "reedSolomonComputeRemainder data2 divisor = Inr ecc2"
  shows "d < card {k. k < length data1 + d \<and> (data1 @ ecc1) ! k \<noteq> (data2 @ ecc2) ! k}"
proof (rule ccontr)
  let ?c1 = "data1 @ ecc1" and ?c2 = "data2 @ ecc2"
  let ?diff = "map2 (\<lambda>a b. a + 1 * b) (map to_gf ?c1) (map to_gf ?c2)"
  have d: "d \<le> 255" using assms(2) by simp
  have e1: "length ecc1 = d" "\<forall>b\<in>set ecc1. is_byte b" "\<forall>i<d. poly_eval (map to_gf ?c1) (GF 2 ^ i) = 0"
    using rs_block [OF assms(1) d assms(4)] div ecc1 by (auto simp: to_gf_2)
  have e2: "length ecc2 = d" "\<forall>b\<in>set ecc2. is_byte b" "\<forall>i<d. poly_eval (map to_gf ?c2) (GF 2 ^ i) = 0"
    using rs_block [OF assms(1) d assms(5)] div ecc2 by (auto simp: to_gf_2)
  have inj: "to_gf a + to_gf b = 0 \<longleftrightarrow> a = b" if "is_byte a" "is_byte b" for a b
    using that by (metis add_eq_0_iff gf_add_self of_gf_to_gf uminus_gf_def)
  assume "\<not> d < card {k. k < length data1 + d \<and> ?c1 ! k \<noteq> ?c2 ! k}"
  moreover have "{k. k < length data1 + d \<and> ?c1 ! k \<noteq> ?c2 ! k} = {k. k < length ?diff \<and> ?diff ! k \<noteq> 0}"
    using assms(3-5) e1 e2 inj by (auto simp: nth_append)
  ultimately have "length (filter (\<lambda>c. c \<noteq> 0) ?diff) \<le> d"
    by (simp only: length_filter_conv_card)
  moreover have "\<forall>i<d. poly_eval ?diff (GF 2 ^ i) = 0"
    using e1 e2 assms(3) by (subst poly_eval_map2_add) auto
  moreover have "length ?diff \<le> 255" using e1(1) e2(1) assms(2,3) by simp
  ultimately have zero: "filter (\<lambda>c. c \<noteq> 0) ?diff = []"
    by (intro low_weight_codeword_zero)
  have "data1 ! k = data2 ! k" if "k < length data1" for k
  proof -
    have "?diff ! k = to_gf (data1 ! k) + to_gf (data2 ! k)" "k < length ?diff"
      using that assms(3) e1(1) e2(1) by (simp_all add: nth_append)
    then have "to_gf (data1 ! k) + to_gf (data2 ! k) = 0"
      using zero nth_mem [of k ?diff] by (simp only: filter_empty_conv) fastforce
    then show ?thesis using that assms(3-5) inj by auto
  qed
  with assms(3,6) show False by (metis nth_equalityI)
qed

theorem rs_minimum_distance_witness:
  "\<exists>divisor ecc1 ecc2. reedSolomonComputeDivisor 7 = Inr divisor
    \<and> reedSolomonComputeRemainder [0x40, 0x16] divisor = Inr ecc1
    \<and> reedSolomonComputeRemainder [0x41, 0x16] divisor = Inr ecc2
    \<and> 7 < card {k. k < 9 \<and> ([0x40, 0x16] @ ecc1) ! k \<noteq> ([0x41, 0x16] @ ecc2) ! k}"
proof -
  have b1: "\<forall>b\<in>set [0x40, 0x16]. is_byte b" and b2: "\<forall>b\<in>set [0x41, 0x16]. is_byte b"
    by (simp_all add: is_byte_def shr_def)
  obtain divisor ecc1 ecc2 where *: "reedSolomonComputeDivisor (int 7) = Inr divisor"
    "reedSolomonComputeRemainder [0x40, 0x16] divisor = Inr ecc1"
    "reedSolomonComputeRemainder [0x41, 0x16] divisor = Inr ecc2"
    using rs_block [of 7, OF _ _ b1] rs_block [of 7, OF _ _ b2] by fastforce
  have "7 < card {k. k < length [0x40, 0x16 :: u32] + 7 \<and> ([0x40, 0x16] @ ecc1) ! k \<noteq> ([0x41, 0x16] @ ecc2) ! k}"
    by (rule rs_minimum_distance [OF _ _ _ b1 b2 _ *]) simp_all
  with * show ?thesis by (intro exI [of _ divisor] exI [of _ ecc1] exI [of _ ecc2]) simp
qed

end
