(* ===== verification/Qr_Blocks.thy ===== *)
theory Qr_Blocks
  imports Qr_Tables Qr_ReedSolomon
begin

unbundle bit_operations_syntax

text \<open>
  \<^verbatim>\<open>addEccAndInterleave\<close> of \<^verbatim>\<open>webui/qr.js\<close>: the data codewords are cut into blocks, every block
  gets its Reed-Solomon remainder, and the blocks are interleaved column by column, the padding
  cell of the short blocks left out. The lemmas give the exact position of every codeword and a
  reader that takes the data apart again.
\<close>

section \<open>The routine\<close>

definition cutBlock :: "u32 list \<Rightarrow> u32 list \<Rightarrow> int \<Rightarrow> int \<Rightarrow> nat \<Rightarrow> nat \<times> u32 list list \<Rightarrow> (nat \<times> u32 list list) res" where
  "cutBlock data rsDiv shortDataLen numShortBlocks i = (\<lambda>(k, blocks).
     let dat = take (nat (shortDataLen + (if int i < numShortBlocks then 0 else 1))) (drop k data);
         k = k + length dat
     in bindR (reedSolomonComputeRemainder dat rsDiv) (\<lambda>ecc.
        let dat = (if int i < numShortBlocks then dat @ [0] else dat)
        in Inr (k, blocks @ [dat @ ecc])))"

definition interleave :: "u32 list list \<Rightarrow> int \<Rightarrow> int \<Rightarrow> u32 list" where
  "interleave blocks shortDataLen numShortBlocks =
     concat (map (\<lambda>idx.
         concat (map (\<lambda>j. if int idx \<noteq> shortDataLen \<or> int j \<ge> numShortBlocks
                          then [blocks ! j ! idx] else [])
           [0..<length blocks]))
       [0..<length (blocks ! 0)])"

definition addEccAndInterleave :: "nat \<Rightarrow> Ecc \<Rightarrow> u32 list \<Rightarrow> u32 list res" where
  "addEccAndInterleave ver ecl data =
     (if getNumDataCodewords ver ecl \<noteq> Some (int (length data)) then Inl (RangeError ''Invalid argument'')
      else case (numBlocksOf ecl ver, eccPerBlock ecl ver) of
        (Some numBlocks, Some blockEccLen) \<Rightarrow>
          (let rawCodewords = getNumRawDataModules ver div 8;
               numShortBlocks = numBlocks - rawCodewords mod numBlocks;
               shortBlockLen = rawCodewords div numBlocks
           in bindR (reedSolomonComputeDivisor blockEccLen) (\<lambda>rsDiv.
              bindR (forR (cutBlock data rsDiv (shortBlockLen - blockEccLen) numShortBlocks)
                       [0..<nat numBlocks] (0, [])) (\<lambda>(k, blocks).
              if blocks = [] then Inl (TypeError ''blocks[0] is undefined'')
              else let result = interleave blocks (shortBlockLen - blockEccLen) numShortBlocks
                   in bindR (assertR (int (length result) = rawCodewords)) (\<lambda>_. Inr result))))
      | _ \<Rightarrow> Inl (TypeError ''undefined''))"

section \<open>Positions in the interleaved sequence\<close>

lemma length_rows: "length (concat (map (\<lambda>i. map (f i) [0..<n]) is)) = length is * n"
  by (induction "is") auto

lemma nth_rows:
  "i < m \<Longrightarrow> j < n \<Longrightarrow> concat (map (\<lambda>i. map (f i) [0..<n]) [0..<m]) ! (i * n + j) = f i j"
proof (induction m)
  case (Suc m)
  show ?case
  proof (cases "i < m")
    case True
    then have "i * n + j < m * n"
      using Suc.prems mult_le_mono1 [of "Suc i" m n] by simp
    then show ?thesis using True Suc by (simp add: nth_append length_rows)
  next
    case False
    then have "i = m" using Suc.prems by simp
    then show ?thesis using Suc.prems by (simp add: nth_append length_rows)
  qed
qed simp

lemma filter_row:
  "concat (map (\<lambda>j. if s \<le> j then [f j] else []) [0..<n]) = map f [s..<n]"
proof (induction n)
  case (Suc n)
  then show ?case by (cases "s \<le> n") auto
qed simp

definition uniform :: "nat \<Rightarrow> nat \<Rightarrow> u32 list list \<Rightarrow> bool" where
  "uniform n len blocks \<longleftrightarrow> length blocks = n \<and> (\<forall>b \<in> set blocks. length b = len)"

lemma interleave_split:
  assumes "uniform n (d + e + 1) blocks" and "0 < n"
  shows "interleave blocks (int d) (int s) =
    concat (map (\<lambda>idx. map (\<lambda>j. blocks ! j ! idx) [0..<n]) [0..<d])
    @ map (\<lambda>j. blocks ! j ! d) [s..<n]
    @ concat (map (\<lambda>t. map (\<lambda>j. blocks ! j ! (d + 1 + t)) [0..<n]) [0..<e])"
proof -
  have len: "length blocks = n" "length (blocks ! 0) = d + e + 1"
    using assms nth_mem [of 0 blocks] by (auto simp: uniform_def)
  have idx: "[0..<d + e + 1] = [0..<d] @ [d] @ map (\<lambda>t. d + 1 + t) [0..<e]"
  proof -
    have "[0..<d + e + 1] = [0..<d] @ [d..<d + e + 1]"
      using upt_add_eq_append [of 0 d "e + 1"] by (simp add: add.assoc)
    moreover have "[d..<d + e + 1] = d # [d + 1..<e + (d + 1)]"
      by (subst upt_conv_Cons) (simp_all add: ac_simps)
    moreover have "[d + 1..<e + (d + 1)] = map (\<lambda>t. d + 1 + t) [0..<e]"
      using map_add_upt [of "d + 1" e] by (simp add: add.commute)
    ultimately show ?thesis by simp
  qed
  let ?row = "\<lambda>idx. concat (map (\<lambda>j. if int idx \<noteq> int d \<or> int j \<ge> int s then [blocks ! j ! idx] else []) [0..<n])"
  have full: "?row idx = map (\<lambda>j. blocks ! j ! idx) [0..<n]" if "idx \<noteq> d" for idx
    using that by simp
  have "?row d = map (\<lambda>j. blocks ! j ! d) [s..<n]"
    using filter_row [of s "\<lambda>j. blocks ! j ! d" n] by simp
  moreover have "map ?row [0..<d] = map (\<lambda>idx. map (\<lambda>j. blocks ! j ! idx) [0..<n]) [0..<d]"
    using full by simp
  moreover have "map ?row (map (\<lambda>t. d + 1 + t) [0..<e]) = map (\<lambda>t. map (\<lambda>j. blocks ! j ! (d + 1 + t)) [0..<n]) [0..<e]"
    using full by simp
  ultimately show ?thesis
    unfolding interleave_def len idx by (simp only: map_append concat_append list.map concat.simps append_Nil2)
qed

section \<open>The reader\<close>

text \<open>Where data codeword \<open>idx\<close> and error correction codeword \<open>t\<close> of block \<open>j\<close> stand, for \<open>n\<close>
  blocks of which the first \<open>s\<close> have \<open>d\<close> data codewords and the others one more.\<close>

definition blockData :: "nat \<Rightarrow> nat \<Rightarrow> nat \<Rightarrow> 'a list \<Rightarrow> nat \<Rightarrow> 'a list" where
  "blockData n s d cs j = map (\<lambda>idx. cs ! (idx * n + j)) [0..<d] @ (if j < s then [] else [cs ! (d * n + (j - s))])"

definition blockEcc :: "nat \<Rightarrow> nat \<Rightarrow> nat \<Rightarrow> nat \<Rightarrow> 'a list \<Rightarrow> nat \<Rightarrow> 'a list" where
  "blockEcc n s d e cs j = map (\<lambda>t. cs ! (d * n + (n - s) + t * n + j)) [0..<e]"

lemma interleave_read:
  assumes "uniform n (d + e + 1) blocks" and "s \<le> n" and "j < n"
  shows "blockData n s d (interleave blocks (int d) (int s)) j = take d (blocks ! j) @ (if j < s then [] else [blocks ! j ! d])"
    and "blockEcc n s d e (interleave blocks (int d) (int s)) j = drop (d + 1) (blocks ! j)"
proof -
  let ?A = "concat (map (\<lambda>idx. map (\<lambda>j. blocks ! j ! idx) [0..<n]) [0..<d])"
  let ?B = "map (\<lambda>j. blocks ! j ! d) [s..<n]"
  let ?C = "concat (map (\<lambda>t. map (\<lambda>j. blocks ! j ! (d + 1 + t)) [0..<n]) [0..<e])"
  have split: "interleave blocks (int d) (int s) = ?A @ ?B @ ?C"
    using assms by (intro interleave_split) auto
  have lenA: "length ?A = d * n" using length_rows [of "\<lambda>idx j. blocks ! j ! idx" n "[0..<d]"] by simp
  have len: "length (blocks ! j) = d + e + 1" using assms by (auto simp: uniform_def)
  have A: "(?A @ ?B @ ?C) ! (idx * n + j) = blocks ! j ! idx" if "idx < d" for idx
  proof -
    have "idx * n + j < d * n" using that assms(3) mult_le_mono1 [of "Suc idx" d n] by simp
    then show ?thesis using nth_rows [OF that assms(3), of "\<lambda>idx j. blocks ! j ! idx"] by (simp only: nth_append lenA if_True)
  qed
  have B: "(?A @ ?B @ ?C) ! (d * n + (j - s)) = blocks ! j ! d" if "s \<le> j"
  proof -
    have "(?A @ ?B @ ?C) ! (length ?A + (j - s)) = (?B @ ?C) ! (j - s)" by (rule nth_append_length_plus)
    also have "\<dots> = blocks ! j ! d" using that assms(3) by (simp add: nth_append diff_less_mono)
    finally show ?thesis by (simp only: lenA)
  qed
  have C: "(?A @ ?B @ ?C) ! (d * n + (n - s) + t * n + j) = blocks ! j ! (d + 1 + t)" if "t < e" for t
    using nth_rows [OF that assms(3), of "\<lambda>t j. blocks ! j ! (d + 1 + t)"]
    by (simp only: nth_append lenA length_map length_upt add.assoc) simp
  show "blockData n s d (interleave blocks (int d) (int s)) j = take d (blocks ! j) @ (if j < s then [] else [blocks ! j ! d])"
    unfolding blockData_def split using A B len by (auto intro!: nth_equalityI)
  show "blockEcc n s d e (interleave blocks (int d) (int s)) j = drop (d + 1) (blocks ! j)"
    unfolding blockEcc_def split using C len by (auto intro!: nth_equalityI)
qed

lemma length_interleave:
  assumes "uniform n (d + e + 1) blocks" and "0 < n"
  shows "length (interleave blocks (int d) (int s)) = d * n + (n - s) + e * n"
  using interleave_split [OF assms, of s] length_rows [of "\<lambda>idx j. blocks ! j ! idx" n "[0..<d]"]
    length_rows [of "\<lambda>t j. blocks ! j ! (d + 1 + t)" n "[0..<e]"] by simp

lemma set_interleave:
  assumes "uniform n len blocks" and "b \<in> set (interleave blocks d s)"
  shows "\<exists>block \<in> set blocks. b \<in> set block"
proof -
  from assms(2) obtain idx j where b: "idx < length (blocks ! 0)" "j < length blocks" "b = blocks ! j ! idx"
    by (auto simp: interleave_def split: if_splits)
  moreover have "length (blocks ! j) = length (blocks ! 0)"
    using assms(1) nth_mem [OF b(2)] nth_mem [of 0 blocks] b(2) unfolding uniform_def by fastforce
  ultimately show ?thesis by (auto intro!: bexI [of _ "blocks ! j"])
qed

section \<open>Cutting\<close>

text \<open>The offset of block \<open>i\<close> and the data it holds.\<close>

definition blockStart :: "nat \<Rightarrow> nat \<Rightarrow> nat \<Rightarrow> nat" where
  "blockStart d s i = i * d + (i - s)"

definition blockSlice :: "nat \<Rightarrow> nat \<Rightarrow> 'a list \<Rightarrow> nat \<Rightarrow> 'a list" where
  "blockSlice d s data i = take (d + (if i < s then 0 else 1)) (drop (blockStart d s i) data)"

lemma blockStart_Suc: "blockStart d s (Suc i) = blockStart d s i + (d + (if i < s then 0 else 1))"
  by (auto simp: blockStart_def Suc_diff_le)

lemma blockStart_mono: "i \<le> j \<Longrightarrow> blockStart d s i \<le> blockStart d s j"
  by (auto simp: blockStart_def intro: add_mono mult_le_mono1)

lemma concat_blockSlice:
  "blockStart d s n \<le> length data \<Longrightarrow> concat (map (blockSlice d s data) [0..<n]) = take (blockStart d s n) data"
proof (induction n)
  case 0
  then show ?case by (simp add: blockStart_def)
next
  case (Suc n)
  then show ?case
    using blockStart_mono [of n "Suc n" d s] by (simp add: blockSlice_def blockStart_Suc take_add)
qed

lemma length_blockSlice:
  "i < n \<Longrightarrow> blockStart d s n \<le> length data \<Longrightarrow> length (blockSlice d s data i) = d + (if i < s then 0 else 1)"
  using blockStart_mono [of "Suc i" n d s] by (simp add: blockSlice_def blockStart_Suc)

definition is_rs_codeword :: "nat \<Rightarrow> u32 list \<Rightarrow> bool" where
  "is_rs_codeword e cs \<longleftrightarrow> (\<forall>i<e. poly_eval (map to_gf cs) (to_gf 2 ^ i) = 0)"

lemma cutBlocks:
  assumes bytes: "\<forall>b \<in> set data. is_byte b" and e: "1 \<le> e" "e \<le> 255"
    and div: "reedSolomonComputeDivisor (int e) = Inr rsDiv"
    and n: "blockStart d s m \<le> length data"
  shows "\<exists>blocks. forR (cutBlock data rsDiv (int d) (int s)) [0..<m] (0, []) = Inr (blockStart d s m, blocks)
    \<and> length blocks = m
    \<and> (\<forall>i<m. \<exists>ecc. blocks ! i = blockSlice d s data i @ (if i < s then [0] else []) @ ecc
         \<and> length ecc = e \<and> (\<forall>b \<in> set ecc. is_byte b) \<and> is_rs_codeword e (blockSlice d s data i @ ecc))"
  using n
proof (induction m)
  case 0
  then show ?case by (simp add: blockStart_def)
next
  case (Suc m)
  let ?dat = "blockSlice d s data m"
  have le: "blockStart d s m \<le> length data"
    using Suc.prems blockStart_mono [of m "Suc m" d s] by simp
  then obtain blocks where run: "forR (cutBlock data rsDiv (int d) (int s)) [0..<m] (0, []) = Inr (blockStart d s m, blocks)"
    and len: "length blocks = m"
    and bl: "\<forall>i<m. \<exists>ecc. blocks ! i = blockSlice d s data i @ (if i < s then [0] else []) @ ecc
         \<and> length ecc = e \<and> (\<forall>b \<in> set ecc. is_byte b) \<and> is_rs_codeword e (blockSlice d s data i @ ecc)"
    using Suc.IH by blast
  have "\<forall>b \<in> set ?dat. is_byte b"
    using bytes by (auto simp: blockSlice_def dest!: in_set_takeD in_set_dropD)
  then obtain ecc where ecc: "reedSolomonComputeRemainder ?dat rsDiv = Inr ecc" "length ecc = e"
    "\<forall>b \<in> set ecc. is_byte b" "is_rs_codeword e (?dat @ ecc)"
    using rs_block [OF e, of ?dat] div by (auto simp: is_rs_codeword_def)
  have start: "blockStart d s m + length ?dat = blockStart d s (Suc m)"
    using length_blockSlice [OF lessI Suc.prems] by (simp add: blockStart_Suc)
  have slice: "take (nat (int d + (if int m < int s then 0 else 1))) (drop (blockStart d s m) data) = ?dat"
    by (simp add: blockSlice_def nat_add_distrib)
  let ?b = "?dat @ (if m < s then [0] else []) @ ecc"
  have "cutBlock data rsDiv (int d) (int s) m (blockStart d s m, blocks) = Inr (blockStart d s (Suc m), blocks @ [?b])"
    unfolding cutBlock_def prod.case slice Let_def ecc(1) start by simp
  moreover have "\<exists>ecc. (blocks @ [?b]) ! i = blockSlice d s data i @ (if i < s then [0] else []) @ ecc
         \<and> length ecc = e \<and> (\<forall>b \<in> set ecc. is_byte b) \<and> is_rs_codeword e (blockSlice d s data i @ ecc)"
    if "i < Suc m" for i
    using that bl ecc(2-4) len by (cases "i = m") (auto simp: nth_append)
  ultimately show ?case
    using run len by (intro exI [of _ "blocks @ [?b]"]) (simp add: forR_append)
qed

section \<open>The layout of every version\<close>

lemma mod_shortage: "0 < n \<Longrightarrow> n - (n - raw mod n) = raw mod (n :: nat)"
  using mod_less_divisor [of n raw] by linarith

lemma addEccAndInterleave_ok:
  assumes v: "1 \<le> ver" "ver \<le> 40" and bytes: "\<forall>b \<in> set data. is_byte b"
    and len: "getNumDataCodewords ver ecl = Some (int (length data))"
  obtains n e d s cs where
    "addEccAndInterleave ver ecl data = Inr cs"
    "numBlocksOf ecl ver = Some (int n)" "eccPerBlock ecl ver = Some (int e)" "1 \<le> n" "1 \<le> e" "s \<le> n" "0 < d"
    "d = nat (getNumRawDataModules ver div 8) div n - e"
    "s = n - nat (getNumRawDataModules ver div 8) mod n"
    "d + 1 + e \<le> 255"
    "int (length cs) = getNumRawDataModules ver div 8" "\<forall>b \<in> set cs. is_byte b"
    "concat (map (blockData n s d cs) [0..<n]) = data"
    "\<forall>j<n. is_rs_codeword e (blockData n s d cs j @ blockEcc n s d e cs j)"
proof -
  obtain e n where en: "eccPerBlock ecl ver = Some (int e)" "numBlocksOf ecl ver = Some (int n)"
    "1 \<le> e" "e \<le> 30" "1 \<le> n" "e < nat (getNumRawDataModules ver div 8) div n"
    "nat (getNumRawDataModules ver div 8) div n + 1 \<le> 255"
    "getNumDataCodewords ver ecl = Some (int (nat (getNumRawDataModules ver div 8) - e * n))"
    "0 \<le> getNumRawDataModules ver"
    using layoutE [OF v, of ecl] by metis
  define raw where "raw = nat (getNumRawDataModules ver div 8)"
  have rawi: "getNumRawDataModules ver div 8 = int raw" using en(9) by (simp add: raw_def)
  define d where "d = raw div n - e"
  define s where "s = n - raw mod n"
  have de: "raw div n = d + e" "0 < d" using en(6) by (simp_all add: d_def raw_def)
  have raw: "raw = (d + e) * n + (n - s)"
    using en(5) de(1) mod_shortage [of n raw] div_mult_mod_eq [of raw n] by (simp add: s_def)
  have datalen: "length data = d * n + (n - s)"
  proof -
    have "int (length data) = int (raw - e * n)" using len en(8) by (simp add: raw_def)
    also have "raw - e * n = d * n + (n - s)" using raw by (simp add: algebra_simps)
    finally show ?thesis by (simp only: of_nat_eq_iff)
  qed
  have sn: "s \<le> n" by (simp add: s_def)
  have start: "blockStart d s n = length data" using datalen by (simp add: blockStart_def mult.commute)
  obtain rsDiv where div: "reedSolomonComputeDivisor (int e) = Inr rsDiv"
    using rs_block [of e "[]"] en(3,4) by auto
  obtain blocks where run: "forR (cutBlock data rsDiv (int d) (int s)) [0..<n] (0, []) = Inr (blockStart d s n, blocks)"
    and lb: "length blocks = n"
    and bl: "\<forall>i<n. \<exists>ecc. blocks ! i = blockSlice d s data i @ (if i < s then [0] else []) @ ecc
         \<and> length ecc = e \<and> (\<forall>b \<in> set ecc. is_byte b) \<and> is_rs_codeword e (blockSlice d s data i @ ecc)"
    using cutBlocks [OF bytes _ _ div, of d s n] en(3,4) start by auto
  have uni: "uniform n (d + e + 1) blocks"
    using bl lb start length_blockSlice [of _ n d s data] by (fastforce simp: uniform_def in_set_conv_nth)
  define cs where "cs = interleave blocks (int d) (int s)"
  have lcs: "length cs = raw" unfolding cs_def using length_interleave [OF uni] en(5) raw by (simp add: algebra_simps)
  have short: "int n - int raw mod int n = int s"
    using en(5) by (simp add: s_def of_nat_diff zmod_int)
  have shortLen: "int raw div int n - int e = int d" using de(1) by (simp add: zdiv_int [symmetric])
  have ok: "addEccAndInterleave ver ecl data = Inr cs"
    using len en(1,2) div run lb lcs en(5)
    by (auto simp: addEccAndInterleave_def rawi short shortLen cs_def Let_def)
  have block: "blockData n s d cs j = blockSlice d s data j \<and> is_rs_codeword e (blockSlice d s data j @ blockEcc n s d e cs j)
      \<and> (\<forall>b \<in> set (blocks ! j). is_byte b)" if j: "j < n" for j
  proof -
    obtain ecc where ecc: "blocks ! j = blockSlice d s data j @ (if j < s then [0] else []) @ ecc"
      "length ecc = e" "\<forall>b \<in> set ecc. is_byte b" "is_rs_codeword e (blockSlice d s data j @ ecc)"
      using bl j by blast
    have "length (blockSlice d s data j) = d + (if j < s then 0 else 1)"
      by (rule length_blockSlice [OF j]) (simp add: start)
    moreover have "\<forall>b \<in> set (blockSlice d s data j). is_byte b"
      using bytes by (auto simp: blockSlice_def dest!: in_set_takeD in_set_dropD)
    moreover have "is_byte 0" by (simp add: is_byte_def shr_def)
    moreover have "take d xs @ [xs ! d] = xs" if "length xs = Suc d" for xs :: "u32 list"
      using that by (metis lessI order_refl take_Suc_conv_app_nth take_all)
    ultimately show ?thesis
      using interleave_read [OF uni sn j] ecc
      by (auto simp: cs_def nth_append)
  qed
  have "map (blockData n s d cs) [0..<n] = map (blockSlice d s data) [0..<n]"
    by (rule map_cong) (auto simp: block)
  then have "concat (map (blockData n s d cs) [0..<n]) = data"
    using concat_blockSlice [of d s n data] start by (simp only: take_all order_refl)
  moreover have "\<forall>j<n. is_rs_codeword e (blockData n s d cs j @ blockEcc n s d e cs j)"
    using block by simp
  moreover have "\<forall>b \<in> set cs. is_byte b"
    using set_interleave [OF uni] block lb unfolding cs_def by (metis in_set_conv_nth)
  moreover have "d + 1 + e \<le> 255" using en(7) de by (simp add: raw_def)
  ultimately show thesis
    using that [OF ok en(2,1,5,3) sn de(2)] lcs by (simp add: rawi d_def s_def)
qed

section \<open>Properties\<close>

text \<open>Interleaving: for every version and level and data of the right length
  \<^verbatim>\<open>addEccAndInterleave\<close> returns as many bytes as the symbol holds; reading the data part of
  each block back from them and joining the blocks gives the data again, and every block with its
  error correction part is a Reed-Solomon codeword of at most 255 bytes.\<close>

theorem addEccAndInterleave_blocks:
  assumes "1 \<le> ver" and "ver \<le> 40" and "\<forall>b \<in> set data. is_byte b"
    and "getNumDataCodewords ver ecl = Some (int (length data))"
  shows "\<exists>n e d s cs. addEccAndInterleave ver ecl data = Inr cs
    \<and> numBlocksOf ecl ver = Some (int n) \<and> eccPerBlock ecl ver = Some (int e) \<and> 0 < d \<and> d + 1 + e \<le> 255
    \<and> int (length cs) = getNumRawDataModules ver div 8 \<and> (\<forall>b \<in> set cs. is_byte b)
    \<and> concat (map (blockData n s d cs) [0..<n]) = data
    \<and> (\<forall>j<n. is_rs_codeword e (blockData n s d cs j @ blockEcc n s d e cs j))"
  using addEccAndInterleave_ok [OF assms] by metis

end
