(* ===== verification/Qr_Symbol.thy ===== *)
theory Qr_Symbol
  imports Qr_Penalty Qr_Blocks
begin

text \<open>
  The constructor of a symbol in \<^verbatim>\<open>webui/qr.js\<close>: the blank grid, function patterns, the
  interleaved code words, the choice of the mask and the final format bits. The lemmas show that
  the constructor returns for every version, level and payload of the right length, which of the
  eight masks it takes, and what the finished symbol looks like.
\<close>

section \<open>The constructor\<close>

definition blank :: "nat \<Rightarrow> Ecc \<Rightarrow> QrCode" where
  "blank version ecl =
     (let sz = version * 4 + 17; row = replicate sz False
      in \<lparr>qr_version = version, qr_ecl = ecl, qr_size = int sz, qr_modules = replicate sz row,
          qr_isFunction = replicate sz row, qr_mask = None\<rparr>)"

text \<open>One round of the mask loop; \<open>None\<close> is the initial \<^verbatim>\<open>minPenalty = Infinity\<close>.\<close>

definition betterMask :: "int \<Rightarrow> int \<Rightarrow> int \<times> int option \<Rightarrow> int \<times> int option" where
  "betterMask m penalty best =
     (let (msk, minPenalty) = best
      in if (case minPenalty of None \<Rightarrow> True | Some p \<Rightarrow> penalty < p) then (m, Some penalty)
         else (msk, minPenalty))"

definition tryMask :: "int \<Rightarrow> (int \<times> int option) \<times> QrCode \<Rightarrow> ((int \<times> int option) \<times> QrCode) res" where
  "tryMask m st =
     (let (best, q) = st
      in bindR (applyMask m q) (\<lambda>q.
         bindR (drawFormatBits m q) (\<lambda>q.
         let best = betterMask m (getPenaltyScore q) best
         in bindR (applyMask m q) (\<lambda>q. Inr (best, q)))))"

definition newQrCode :: "nat \<Rightarrow> Ecc \<Rightarrow> u32 list \<Rightarrow> int \<Rightarrow> QrCode res" where
  "newQrCode version errorCorrectionLevel dataCodewords msk =
     bindR (drawFunctionPatterns (blank version errorCorrectionLevel)) (\<lambda>q.
     bindR (addEccAndInterleave (qr_version q) (qr_ecl q) dataCodewords) (\<lambda>allCodewords.
     bindR (drawCodewords allCodewords q) (\<lambda>q.
     bindR (if msk = -1 then forR tryMask [0..7] ((msk, None), q) else Inr ((msk, None), q)) (\<lambda>(best, q).
     let msk = fst best
     in bindR (assertR (0 \<le> msk \<and> msk \<le> 7)) (\<lambda>_.
        let q = q\<lparr>qr_mask := Some msk\<rparr>
        in bindR (applyMask msk q) (\<lambda>q.
           bindR (drawFormatBits msk q) (\<lambda>q.
           Inr (q\<lparr>qr_isFunction := []\<rparr>))))))))"

section \<open>Format bits on a symbol whose format area is reserved\<close>

lemma wf_blank: "wf_qr (blank version ecl)"
  by (auto simp: wf_qr_def blank_def square_def Let_def)

lemma blank_fields [simp]:
  "qr_version (blank version ecl) = version" "qr_ecl (blank version ecl) = ecl"
  "qr_size (blank version ecl) = sizeOf version" "qr_mask (blank version ecl) = None"
  by (simp_all add: blank_def Let_def)

lemma cell_blank: "inside (sizeOf version) x y \<Longrightarrow> \<not> cell (qr_isFunction (blank version ecl)) x y"
  by (auto simp: cell_def blank_def Let_def inside_def nat_less_iff)

definition formatCells :: "int \<Rightarrow> (int \<times> int) set" where
  "formatCells sz = (\<lambda>(x, y, v). (x, y)) ` set (formatWrites sz 0)"

lemma formatWrites_cells: "(\<lambda>(x, y, v). (x, y)) ` set (formatWrites sz bits) = formatCells sz"
proof -
  have "map (\<lambda>(x, y, v). (x, y)) (formatWrites sz bits) = map (\<lambda>(x, y, v). (x, y)) (formatWrites sz 0)"
    by (simp add: formatWrites_def)
  from arg_cong [OF this, of set] show ?thesis by (simp add: formatCells_def)
qed

text \<open>Painting decides the painted cells and keeps the others.\<close>

lemma cell_paint_outside:
  assumes "square n g" and "writes_inside n ws" and "inside n x y" and "(x, y) \<notin> (\<lambda>(x, y, v). (x, y)) ` set ws"
  shows "cell (paint ws g) x y = cell g x y"
proof -
  have "map_of (rev (map (\<lambda>(x, y, v). ((x, y), v)) ws)) (x, y) = None"
    using assms(4) by (force simp: map_of_eq_None_iff)
  then show ?thesis using grid.get_paint [OF assms(1-3)] by simp
qed

lemma cell_paint_inside:
  assumes "square n g" and "square n h" and "writes_inside n ws" and "(x, y) \<in> (\<lambda>(x, y, v). (x, y)) ` set ws"
  shows "cell (paint ws g) x y = cell (paint ws h) x y"
proof -
  have xy: "inside n x y" using assms(3,4) by (auto simp: writes_inside_def)
  have "(x, y) \<in> fst ` set (rev (map (\<lambda>(x, y, v). ((x, y), v)) ws))" using assms(4) by force
  then obtain v where "map_of (rev (map (\<lambda>(x, y, v). ((x, y), v)) ws)) (x, y) = Some v"
    by (metis domD dom_map_of_conv_image_fst)
  then show ?thesis using grid.get_paint [OF assms(1,3) xy] grid.get_paint [OF assms(2,3) xy] by simp
qed

lemma cell_paint_marks:
  assumes "square n g" and "writes_inside n ws" and "inside n x y"
  shows "cell (paint (marks ws) g) x y \<longleftrightarrow> (x, y) \<in> (\<lambda>(x, y, v). (x, y)) ` set ws \<or> cell g x y"
proof -
  have in': "writes_inside n (marks ws)" using assms(2) by (auto simp: writes_inside_def)
  have all: "v" if "map_of (rev (map (\<lambda>(x, y, v). ((x, y), v)) (marks ws))) (x, y) = Some v" for v
    using map_of_SomeD [OF that] by auto
  show ?thesis
  proof (cases "map_of (rev (map (\<lambda>(x, y, v). ((x, y), v)) (marks ws))) (x, y)")
    case None
    then have "(x, y) \<notin> (\<lambda>(x, y, v). (x, y)) ` set ws" by (force simp: map_of_eq_None_iff)
    then show ?thesis using None grid.get_paint [OF assms(1) in' assms(3)] by simp
  next
    case (Some v)
    then have "(x, y) \<in> (\<lambda>(x, y, v). (x, y)) ` set ws" using map_of_SomeD [OF Some] by force
    then show ?thesis using Some all grid.get_paint [OF assms(1) in' assms(3)] by simp
  qed
qed

definition reserved :: "QrCode \<Rightarrow> bool" where
  "reserved q \<longleftrightarrow> wf_qr q \<and> 1 \<le> qr_version q \<and> (\<forall>(x, y) \<in> formatCells (qr_size q). cell (qr_isFunction q) x y)"

definition formatted :: "int \<Rightarrow> QrCode \<Rightarrow> bool list list \<Rightarrow> bool list list" where
  "formatted m q g = paint (formatWrites (qr_size q) (formatInfo (qr_ecl q) (word_of_int m))) g"

text \<open>The modules of the finished symbol for mask \<open>m\<close>, from the symbol before masking.\<close>

definition finalModules :: "int \<Rightarrow> QrCode \<Rightarrow> bool list list" where
  "finalModules m q = formatted m q (maskGrid m q)"

lemma reservedD:
  assumes "reserved q"
  shows "wf_qr q" "1 \<le> qr_version q" "21 \<le> qr_size q" "writes_inside (qr_size q) (formatWrites (qr_size q) bits)"
  using assms wf_size_21 [of q] by (auto simp: reserved_def intro!: inside_format)

lemma reserved_set_modules: "reserved q \<Longrightarrow> square (qr_size q) g \<Longrightarrow> reserved (q\<lparr>qr_modules := g\<rparr>)"
  by (simp add: reserved_def wf_set_modules)

lemma square_formatted: "reserved q \<Longrightarrow> square (qr_size q) g \<Longrightarrow> square (qr_size q) (formatted m q g)"
  unfolding formatted_def by (intro grid.shape_paint reservedD)

lemma drawFormatBits_reserved:
  assumes "reserved q" and "0 \<le> m" and "m \<le> 7"
  shows "drawFormatBits m q = Inr (q\<lparr>qr_modules := formatted m q (qr_modules q)\<rparr>)"
proof -
  let ?ws = "formatWrites (qr_size q) (formatInfo (qr_ecl q) (word_of_int m))"
  note wf = reservedD(1) [OF assms(1)] and ins = reservedD(4) [OF assms(1)]
  have "writes_inside (qr_size q) (marks ?ws)" using ins [of "formatInfo (qr_ecl q) (word_of_int m)"] by (auto simp: writes_inside_def)
  then have "paint (marks ?ws) (qr_isFunction q) = qr_isFunction q"
    using wf_qrD(2) [OF wf] cell_paint_marks [OF wf_qrD(2) [OF wf] ins] assms(1)
    by (intro square_eqI [of "qr_size q"] grid.shape_paint) (auto simp: formatWrites_cells reserved_def)
  then show ?thesis
    using drawFormatBits_painted [OF wf reservedD(2) [OF assms(1)] assms(2,3)]
    by (simp add: painted_def formatted_def)
qed

text \<open>Grids that differ in the format area at most.\<close>

definition agree :: "int \<Rightarrow> bool list list \<Rightarrow> bool list list \<Rightarrow> bool" where
  "agree n g h \<longleftrightarrow> square n g \<and> square n h \<and> (\<forall>x y. inside n x y \<longrightarrow> (x, y) \<notin> formatCells n \<longrightarrow> cell g x y = cell h x y)"

lemma formatted_agree:
  assumes "reserved q" and "agree (qr_size q) g h"
  shows "formatted m q g = formatted m q h"
proof -
  note ins = reservedD(4) [OF assms(1)]
  have sq: "square (qr_size q) g" "square (qr_size q) h" using assms(2) by (auto simp: agree_def)
  show ?thesis
  proof (rule square_eqI [of "qr_size q"])
    fix x y assume xy: "inside (qr_size q) x y"
    show "cell (formatted m q g) x y = cell (formatted m q h) x y"
    proof (cases "(x, y) \<in> formatCells (qr_size q)")
      case True
      then show ?thesis unfolding formatted_def by (intro cell_paint_inside [OF sq ins]) (simp add: formatWrites_cells)
    next
      case False
      then show ?thesis
        using cell_paint_outside [OF sq(1) ins xy] cell_paint_outside [OF sq(2) ins xy] assms(2) xy
        by (simp add: formatted_def formatWrites_cells agree_def)
    qed
  qed (use square_formatted [OF assms(1)] sq in auto)
qed

lemma agree_formatted:
  assumes "reserved q" and "square (qr_size q) g"
  shows "agree (qr_size q) (formatted m q g) g"
  using cell_paint_outside [OF assms(2) reservedD(4) [OF assms(1)]] assms square_formatted [OF assms]
  by (auto simp: agree_def formatted_def formatWrites_cells)

lemma agree_mask:
  assumes "reserved q" and "agree (qr_size q) g (qr_modules q)"
  shows "agree (qr_size q) (maskGrid m (q\<lparr>qr_modules := g\<rparr>)) (maskGrid m q)"
proof -
  have "wf_qr q" "wf_qr (q\<lparr>qr_modules := g\<rparr>)"
    using assms reservedD(1) wf_set_modules [of q g] by (auto simp: agree_def)
  then show ?thesis
    using assms(2) square_maskGrid [of q] square_maskGrid [of "q\<lparr>qr_modules := g\<rparr>"]
      cell_maskGrid [of q] cell_maskGrid [of "q\<lparr>qr_modules := g\<rparr>"]
    by (auto simp: agree_def)
qed

lemma maskGrid_twice:
  assumes "wf_qr q"
  shows "maskGrid m (q\<lparr>qr_modules := maskGrid m q\<rparr>) = qr_modules q"
proof (rule square_eqI [of "qr_size q"])
  show "square (qr_size q) (maskGrid m (q\<lparr>qr_modules := maskGrid m q\<rparr>))"
    using square_maskGrid [OF wf_masked [OF assms]] by simp
  show "square (qr_size q) (qr_modules q)" by (rule wf_qrD(1) [OF assms])
  fix x y assume "inside (qr_size q) x y"
  then show "cell (maskGrid m (q\<lparr>qr_modules := maskGrid m q\<rparr>)) x y = cell (qr_modules q) x y"
    using cell_maskGrid [of q x y m] cell_maskGrid [of "q\<lparr>qr_modules := maskGrid m q\<rparr>" x y m] by auto
qed

definition penaltyFor :: "(QrCode \<Rightarrow> int) \<Rightarrow> QrCode \<Rightarrow> int \<Rightarrow> int" where
  "penaltyFor penalty q m = penalty (q\<lparr>qr_modules := finalModules m q\<rparr>)"

lemma agree_sym: "agree n g h \<Longrightarrow> agree n h g"
  and agree_trans: "agree n g h \<Longrightarrow> agree n h k \<Longrightarrow> agree n g k"
  by (auto simp: agree_def)

lemma masked_and_formatted:
  assumes r: "reserved q" and g: "agree (qr_size q) g (qr_modules q)" and m: "0 \<le> m" "m \<le> 7"
  shows "bindR (applyMask m (q\<lparr>qr_modules := g\<rparr>)) (drawFormatBits m) = Inr (q\<lparr>qr_modules := finalModules m q\<rparr>)"
proof -
  have sq: "square (qr_size q) g" using g by (simp add: agree_def)
  have r1: "reserved (q\<lparr>qr_modules := g\<rparr>)" by (rule reserved_set_modules [OF r sq])
  let ?h = "maskGrid m (q\<lparr>qr_modules := g\<rparr>)"
  have "square (qr_size q) ?h" using square_maskGrid [OF reservedD(1) [OF r1]] by simp
  then have r2: "reserved (q\<lparr>qr_modules := ?h\<rparr>)" by (rule reserved_set_modules [OF r])
  have "formatted m q ?h = finalModules m q"
    using formatted_agree [OF r agree_mask [OF r g]] by (simp add: finalModules_def)
  then show ?thesis
    using applyMask_ok [OF reservedD(1) [OF r1] m] drawFormatBits_reserved [OF r2 m] by (simp add: formatted_def)
qed

section \<open>The mask that is chosen\<close>

definition best_of :: "(int \<Rightarrow> int) \<Rightarrow> int list \<Rightarrow> int \<times> int option \<Rightarrow> bool" where
  "best_of pen ms best \<longleftrightarrow> (\<exists>i<length ms. best = (ms ! i, Some (pen (ms ! i)))
     \<and> (\<forall>j<length ms. pen (ms ! i) \<le> pen (ms ! j)) \<and> (\<forall>j<i. pen (ms ! i) < pen (ms ! j)))"

lemma best_of_snoc:
  assumes "best_of pen ms best"
  shows "best_of pen (ms @ [m]) (betterMask m (pen m) best)"
proof -
  from assms obtain i where i: "i < length ms" "best = (ms ! i, Some (pen (ms ! i)))"
    "\<And>j. j < length ms \<Longrightarrow> pen (ms ! i) \<le> pen (ms ! j)" "\<And>j. j < i \<Longrightarrow> pen (ms ! i) < pen (ms ! j)"
    by (auto simp: best_of_def)
  show ?thesis
  proof (cases "pen m < pen (ms ! i)")
    case True
    then have "pen m < pen (ms ! j)" if "j < length ms" for j using i(3) [OF that] by simp
    then show ?thesis unfolding best_of_def
      using True i(1,2) by (intro exI [of _ "length ms"]) (auto simp: betterMask_def nth_append less_Suc_eq order.strict_implies_order)
  next
    case False
    then show ?thesis unfolding best_of_def
      using i by (intro exI [of _ i]) (auto simp: betterMask_def nth_append less_Suc_eq)
  qed
qed

lemma fold_betterMask:
  "ms \<noteq> [] \<Longrightarrow> best_of pen ms (fold (\<lambda>m. betterMask m (pen m)) ms (msk, None))"
proof (induction ms rule: rev_induct)
  case (snoc m ms)
  show ?case
  proof (cases "ms = []")
    case True
    then show ?thesis by (simp add: best_of_def betterMask_def)
  next
    case False
    then show ?thesis using best_of_snoc [OF snoc.IH] by simp
  qed
qed simp

text \<open>The mask search as an interface: a round that masks, draws the format bits, scores the symbol
  with \<open>penalty\<close> and unmasks. Whatever the score, the search over the eight masks restores the data area
  and ends with the first mask of least score.\<close>

locale mask_search =
  fixes penalty :: "QrCode \<Rightarrow> int"
    and attempt :: "int \<Rightarrow> (int \<times> int option) \<times> QrCode \<Rightarrow> ((int \<times> int option) \<times> QrCode) res"
  assumes attempt_round: "0 \<le> m \<Longrightarrow> m \<le> 7 \<Longrightarrow> attempt m (best, q) =
    bindR (bindR (applyMask m q) (drawFormatBits m)) (\<lambda>q.
    bindR (applyMask m q) (\<lambda>q'. Inr (betterMask m (penalty q) best, q')))"
begin

lemma attempt_ok:
  assumes r: "reserved q" and g: "agree (qr_size q) g (qr_modules q)" and m: "0 \<le> m" "m \<le> 7"
  shows "\<exists>h. attempt m (best, q\<lparr>qr_modules := g\<rparr>) = Inr (betterMask m (penaltyFor penalty q m) best, q\<lparr>qr_modules := h\<rparr>)
    \<and> agree (qr_size q) h (qr_modules q)"
proof -
  let ?f = "finalModules m q"
  have wf: "wf_qr q" by (rule reservedD(1) [OF r])
  have fm: "agree (qr_size q) ?f (maskGrid m q)"
    unfolding finalModules_def by (rule agree_formatted [OF r square_maskGrid [OF wf]])
  then have sqf: "square (qr_size q) ?f" by (simp add: agree_def)
  let ?h = "maskGrid m (q\<lparr>qr_modules := ?f\<rparr>)"
  have "reserved (q\<lparr>qr_modules := maskGrid m q\<rparr>)" using r square_maskGrid [OF wf] by (rule reserved_set_modules)
  from agree_mask [OF this, of ?f m] fm have "agree (qr_size q) ?h (qr_modules q)"
    using maskGrid_twice [OF wf, of m] by simp
  moreover have "applyMask m (q\<lparr>qr_modules := ?f\<rparr>) = Inr (q\<lparr>qr_modules := ?h\<rparr>)"
    using applyMask_ok [OF wf_set_modules [OF wf sqf] m] by simp
  ultimately show ?thesis
    using masked_and_formatted [OF r g m] attempt_round [OF m] by (auto simp: penaltyFor_def)
qed

lemma attempts_ok:
  assumes "reserved q" and "\<forall>m \<in> set ms. 0 \<le> m \<and> m \<le> 7" and "agree (qr_size q) g (qr_modules q)"
  shows "\<exists>h. forR attempt ms (best, q\<lparr>qr_modules := g\<rparr>) =
      Inr (fold (\<lambda>m. betterMask m (penaltyFor penalty q m)) ms best, q\<lparr>qr_modules := h\<rparr>)
    \<and> agree (qr_size q) h (qr_modules q)"
  using assms(2,3)
proof (induction ms arbitrary: best g)
  case Nil
  then show ?case by auto
next
  case (Cons m ms)
  from attempt_ok [OF assms(1) Cons.prems(2), of m best] Cons.prems(1) obtain h where
    "attempt m (best, q\<lparr>qr_modules := g\<rparr>) = Inr (betterMask m (penaltyFor penalty q m) best, q\<lparr>qr_modules := h\<rparr>)"
    "agree (qr_size q) h (qr_modules q)" by auto
  with Cons.IH [of h] Cons.prems(1) show ?case by simp
qed

lemma search:
  assumes r: "reserved q"
  obtains h i where "forR attempt [0..7] ((msk, None), q) = Inr ((int i, Some (penaltyFor penalty q (int i))), q\<lparr>qr_modules := h\<rparr>)"
    "agree (qr_size q) h (qr_modules q)" "i < 8"
    "\<And>k. 0 \<le> k \<Longrightarrow> k \<le> 7 \<Longrightarrow> penaltyFor penalty q (int i) \<le> penaltyFor penalty q k"
    "\<And>k. 0 \<le> k \<Longrightarrow> k < int i \<Longrightarrow> penaltyFor penalty q (int i) < penaltyFor penalty q k"
proof -
  let ?pen = "penaltyFor penalty q"
  have "agree (qr_size q) (qr_modules q) (qr_modules q)"
    using wf_qrD(1) [OF reservedD(1) [OF r]] by (simp add: agree_def)
  from attempts_ok [OF r _ this, of "[0..7]" "(msk, None)"] obtain h where
    h: "forR attempt [0..7] ((msk, None), q) = Inr (fold (\<lambda>m. betterMask m (?pen m)) [0..7] (msk, None), q\<lparr>qr_modules := h\<rparr>)"
    "agree (qr_size q) h (qr_modules q)"
    by auto
  have nth: "[0..7::int] ! j = int j" "length [0..7::int] = 8" if "j < 8" for j using that by (auto simp: nth_upto)
  from fold_betterMask [of "[0..7]" ?pen msk] obtain i where i: "i < length [0..7::int]"
    "fold (\<lambda>m. betterMask m (?pen m)) [0..7] (msk, None) = (int i, Some (?pen (int i)))"
    "\<forall>j<length [0..7::int]. ?pen (int i) \<le> ?pen ([0..7] ! j)" "\<forall>j<i. ?pen (int i) < ?pen ([0..7] ! j)"
    unfolding best_of_def using nth by auto
  have i8: "i < 8" using i(1) by simp
  show thesis
  proof (rule that [OF _ h(2) i8])
    show "forR attempt [0..7] ((msk, None), q) = Inr ((int i, Some (?pen (int i))), q\<lparr>qr_modules := h\<rparr>)"
      using h(1) i(2) by simp
    show "?pen (int i) \<le> ?pen k" if "0 \<le> k" "k \<le> 7" for k
      using i(3) [rule_format, of "nat k"] nth(1) [of "nat k"] that by simp
    show "?pen (int i) < ?pen k" if "0 \<le> k" "k < int i" for k
      using i(4) [rule_format, of "nat k"] nth(1) [of "nat k"] that i8 by (simp add: nat_less_iff)
  qed
qed

end

interpretation dashMasks: mask_search getPenaltyScore tryMask
  by unfold_locales (simp add: tryMask_def Let_def bindR_assoc)

section \<open>The finished symbol\<close>

text \<open>The symbol before masking: function patterns and code words on the blank grid.\<close>

definition unmasked :: "nat \<Rightarrow> Ecc \<Rightarrow> u32 list \<Rightarrow> QrCode" where
  "unmasked version ecl cs = placed cs (painted (functionWrites version ecl) (blank version ecl))"

definition finished :: "nat \<Rightarrow> Ecc \<Rightarrow> u32 list \<Rightarrow> int \<Rightarrow> QrCode" where
  "finished version ecl cs m = (unmasked version ecl cs)
     \<lparr>qr_modules := finalModules m (unmasked version ecl cs), qr_isFunction := [], qr_mask := Some m\<rparr>"

lemma unmasked_fields [simp]:
  "qr_version (unmasked version ecl cs) = version" "qr_ecl (unmasked version ecl cs) = ecl"
  "qr_size (unmasked version ecl cs) = sizeOf version" "qr_mask (unmasked version ecl cs) = None"
  by (simp_all add: unmasked_def)

lemma wf_patterns:
  assumes "1 \<le> version" and "version \<le> 40"
  shows "wf_qr (painted (functionWrites version ecl) (blank version ecl))"
  using wf_painted [OF wf_blank] inside_functionWrites [OF assms] by simp

lemma isFunction_unmasked:
  assumes "1 \<le> version" and "version \<le> 40" and "inside (sizeOf version) x y"
  shows "cell (qr_isFunction (unmasked version ecl cs)) x y
    \<longleftrightarrow> (x, y) \<in> (\<lambda>(x, y, v). (x, y)) ` set (functionWrites version ecl)"
  using cell_paint_marks [OF wf_qrD(2) [OF wf_blank], of version ecl "functionWrites version ecl" x y]
    inside_functionWrites [OF assms(1,2)] assms(3) cell_blank [OF assms(3)]
  by (simp add: unmasked_def)

lemma reserved_unmasked:
  assumes "1 \<le> version" and "version \<le> 40"
  shows "reserved (unmasked version ecl cs)"
proof -
  have "inside (sizeOf version) x y" "(x, y) \<in> (\<lambda>(x, y, v). (x, y)) ` set (functionWrites version ecl)"
    if "(x, y) \<in> formatCells (sizeOf version)" for x y
  proof -
    from that have *: "(x, y) \<in> (\<lambda>(x, y, v). (x, y)) ` set (formatWrites (sizeOf version) (formatInfo ecl 0))"
      by (simp add: formatWrites_cells)
    then show "(x, y) \<in> (\<lambda>(x, y, v). (x, y)) ` set (functionWrites version ecl)"
      by (simp only: functionWrites_def set_append image_Un) blast
    show "inside (sizeOf version) x y"
      using * inside_format [of "sizeOf version" "formatInfo ecl 0"] assms(1) by (auto simp: writes_inside_def)
  qed
  then show ?thesis
    using wf_placed [OF wf_patterns [OF assms]] assms(1) isFunction_unmasked [OF assms]
    by (auto simp: reserved_def unmasked_def)
qed

lemma newQrCode_steps:
  assumes v: "1 \<le> version" "version \<le> 40" and cs: "addEccAndInterleave version ecl data = Inr cs"
  shows "newQrCode version ecl data msk =
    bindR (if msk = -1 then forR tryMask [0..7] ((msk, None), unmasked version ecl cs)
           else Inr ((msk, None), unmasked version ecl cs)) (\<lambda>(best, q).
     let msk = fst best
     in bindR (assertR (0 \<le> msk \<and> msk \<le> 7)) (\<lambda>_.
        let q = q\<lparr>qr_mask := Some msk\<rparr>
        in bindR (applyMask msk q) (\<lambda>q. bindR (drawFormatBits msk q) (\<lambda>q. Inr (q\<lparr>qr_isFunction := []\<rparr>)))))"
  using drawFunctionPatterns_painted [OF wf_blank, of version ecl] v cs
    drawCodewords_placed [OF wf_patterns [OF v], of cs ecl]
  by (simp add: newQrCode_def unmasked_def)

lemma finish_mask:
  assumes v: "1 \<le> version" "version \<le> 40" and m: "0 \<le> m" "m \<le> 7"
    and g: "agree (sizeOf version) g (qr_modules (unmasked version ecl cs))"
  shows "bindR (applyMask m (unmasked version ecl cs\<lparr>qr_modules := g, qr_mask := Some m\<rparr>)) (\<lambda>q.
      bindR (drawFormatBits m q) (\<lambda>q. Inr (q\<lparr>qr_isFunction := []\<rparr>))) = Inr (finished version ecl cs m)"
proof -
  let ?q = "unmasked version ecl cs\<lparr>qr_mask := Some m\<rparr>"
  have r: "reserved ?q" using reserved_unmasked [OF v, of ecl cs] by (simp add: reserved_def wf_qr_def)
  have fin: "finalModules m ?q = finalModules m (unmasked version ecl cs)"
    by (simp add: finalModules_def formatted_def maskGrid_def)
  have "bindR (applyMask m (?q\<lparr>qr_modules := g\<rparr>)) (drawFormatBits m) = Inr (?q\<lparr>qr_modules := finalModules m ?q\<rparr>)"
    using masked_and_formatted [OF r _ m, of g] g by simp
  moreover have "?q\<lparr>qr_modules := h\<rparr> = unmasked version ecl cs\<lparr>qr_modules := h, qr_mask := Some m\<rparr>" for h
    by (rule QrCode.equality) simp_all
  moreover have "unmasked version ecl cs\<lparr>qr_modules := h, qr_mask := Some m, qr_isFunction := []\<rparr>
      = unmasked version ecl cs\<lparr>qr_modules := h, qr_isFunction := [], qr_mask := Some m\<rparr>" for h
    by (rule QrCode.equality) simp_all
  ultimately show ?thesis
    by (simp add: bindR_assoc [symmetric] finished_def fin)
qed

lemma newQrCode_given:
  assumes v: "1 \<le> version" "version \<le> 40" and cs: "addEccAndInterleave version ecl data = Inr cs"
    and m: "0 \<le> m" "m \<le> 7"
  shows "newQrCode version ecl data m = Inr (finished version ecl cs m)"
proof -
  have "agree (sizeOf version) (qr_modules (unmasked version ecl cs)) (qr_modules (unmasked version ecl cs))"
    using wf_qrD(1) [OF reservedD(1) [OF reserved_unmasked [OF v, of ecl cs]]] by (simp add: agree_def)
  from finish_mask [OF v m this] show ?thesis using newQrCode_steps [OF v cs, of m] m by simp
qed

lemma newQrCode_auto:
  assumes v: "1 \<le> version" "version \<le> 40" and cs: "addEccAndInterleave version ecl data = Inr cs"
  obtains m where "newQrCode version ecl data (-1) = Inr (finished version ecl cs m)" "0 \<le> m" "m \<le> 7"
    "\<And>i. 0 \<le> i \<Longrightarrow> i \<le> 7 \<Longrightarrow> penaltyFor getPenaltyScore (unmasked version ecl cs) m \<le> penaltyFor getPenaltyScore (unmasked version ecl cs) i"
    "\<And>i. 0 \<le> i \<Longrightarrow> i < m \<Longrightarrow> penaltyFor getPenaltyScore (unmasked version ecl cs) m < penaltyFor getPenaltyScore (unmasked version ecl cs) i"
proof -
  let ?q = "unmasked version ecl cs"
  have r: "reserved ?q" by (rule reserved_unmasked [OF v])
  from dashMasks.search [OF r, of "- 1"] obtain h i where
    h: "forR tryMask [0..7] ((- 1, None), ?q) = Inr ((int i, Some (penaltyFor getPenaltyScore ?q (int i))), ?q\<lparr>qr_modules := h\<rparr>)"
      "agree (sizeOf version) h (qr_modules ?q)" and i: "i < 8"
    and least: "\<And>k. 0 \<le> k \<Longrightarrow> k \<le> 7 \<Longrightarrow> penaltyFor getPenaltyScore ?q (int i) \<le> penaltyFor getPenaltyScore ?q k"
    "\<And>k. 0 \<le> k \<Longrightarrow> k < int i \<Longrightarrow> penaltyFor getPenaltyScore ?q (int i) < penaltyFor getPenaltyScore ?q k"
    unfolding unmasked_fields by metis
  have "newQrCode version ecl data (-1) = Inr (finished version ecl cs (int i))"
    using newQrCode_steps [OF v cs, of "-1"] h(1) i finish_mask [OF v _ _ h(2), of "int i"] by simp
  then show thesis using i least by (intro that [of "int i"]) auto
qed

section \<open>Properties\<close>

text \<open>\<^bold>\<open>C13.\<close> With automatic masking the constructor returns for every version, level and payload
  of the right length, and the mask it records is the first of the eight with the least penalty,
  where each penalty is that of the finished symbol for that mask: masked data and that mask's own
  format bits.\<close>

theorem newQrCode_mask_choice:
  assumes v: "1 \<le> version" "version \<le> 40" and bytes: "\<forall>b \<in> set data. is_byte b"
    and len: "getNumDataCodewords version ecl = Some (int (length data))"
  shows "\<exists>q m. newQrCode version ecl data (-1) = Inr q \<and> qr_mask q = Some m \<and> 0 \<le> m \<and> m \<le> 7
    \<and> newQrCode version ecl data m = Inr q
    \<and> (\<forall>i. 0 \<le> i \<longrightarrow> i \<le> 7 \<longrightarrow> (\<exists>q'. newQrCode version ecl data i = Inr q'
        \<and> getPenaltyScore q \<le> getPenaltyScore q' \<and> (i < m \<longrightarrow> getPenaltyScore q < getPenaltyScore q')))"
proof -
  obtain cs where cs: "addEccAndInterleave version ecl data = Inr cs"
    using addEccAndInterleave_ok [OF v bytes len] by metis
  let ?u = "unmasked version ecl cs"
  from newQrCode_auto [OF v cs] obtain m where m: "newQrCode version ecl data (-1) = Inr (finished version ecl cs m)"
    "0 \<le> m" "m \<le> 7" "\<And>i. 0 \<le> i \<Longrightarrow> i \<le> 7 \<Longrightarrow> penaltyFor getPenaltyScore ?u m \<le> penaltyFor getPenaltyScore ?u i"
    "\<And>i. 0 \<le> i \<Longrightarrow> i < m \<Longrightarrow> penaltyFor getPenaltyScore ?u m < penaltyFor getPenaltyScore ?u i" by metis
  have pen: "getPenaltyScore (finished version ecl cs i) = penaltyFor getPenaltyScore ?u i" for i
    by (simp add: penaltyFor_def finished_def getPenaltyScore_def rowLine_def [abs_def] columnLine_def [abs_def] sameBlock_def)
  show ?thesis
    using m newQrCode_given [OF v cs]
    by (intro exI [of _ "finished version ecl cs m"] exI [of _ m]) (auto simp: pen, simp add: finished_def)
qed

theorem newQrCode_mask_choice_witness:
  "\<exists>q m. newQrCode 1 HIGH (replicate 9 7) (-1) = Inr q \<and> qr_mask q = Some m \<and> 0 \<le> m \<and> m \<le> 7"
proof -
  have "getNumDataCodewords 1 HIGH = Some 9" by code_simp
  then show ?thesis using newQrCode_mask_choice [of 1 "replicate 9 7" HIGH] by (auto simp: is_byte_def shr_def)
qed

text \<open>What the constructor refuses: a payload of the wrong length is the
  \<^verbatim>\<open>RangeError\<close> of \<^verbatim>\<open>addEccAndInterleave\<close>; with a payload of the right length, a mask number
  outside -1..7 fails the assertion before anything is masked.\<close>

theorem newQrCode_rejects:
  assumes v: "1 \<le> version" "version \<le> 40"
  shows "(getNumDataCodewords version ecl \<noteq> Some (int (length data)) \<longrightarrow>
      newQrCode version ecl data msk = Inl (RangeError ''Invalid argument''))
    \<and> (getNumDataCodewords version ecl = Some (int (length data)) \<longrightarrow> (\<forall>b \<in> set data. is_byte b) \<longrightarrow>
      (msk < -1 \<or> 7 < msk) \<longrightarrow> newQrCode version ecl data msk = Inl (Error ''Assertion error''))"
proof (intro conjI impI)
  assume "getNumDataCodewords version ecl \<noteq> Some (int (length data))"
  then show "newQrCode version ecl data msk = Inl (RangeError ''Invalid argument'')"
    using drawFunctionPatterns_painted [OF wf_blank, of version ecl] v
    by (simp add: newQrCode_def addEccAndInterleave_def)
next
  assume len: "getNumDataCodewords version ecl = Some (int (length data))" and b: "\<forall>b \<in> set data. is_byte b"
    and msk: "msk < -1 \<or> 7 < msk"
  obtain cs where "addEccAndInterleave version ecl data = Inr cs"
    using addEccAndInterleave_ok [OF v b len] by metis
  from newQrCode_steps [OF v this, of msk] msk show "newQrCode version ecl data msk = Inl (Error ''Assertion error'')"
    by (auto simp: assertR_def)
qed

end
