(* ===== verification/Qr_Segment.thy ===== *)
theory Qr_Segment
  imports Qr_Tables
begin

unbundle bit_operations_syntax

text \<open>
  The data half of the encoder of \<^verbatim>\<open>webui/qr.js\<close>: bit buffers (\<^verbatim>\<open>appendBits\<close>), byte segments
  (\<^verbatim>\<open>makeBytes\<close>), the choice of the version and of the error correction level, and the bit
  stream with its terminator and padding packed into data codewords (the part of
  \<^verbatim>\<open>QrCode.encodeSegments\<close> before the constructor call). The lemmas give a reader of the
  codewords and show that it gets the bytes back.
\<close>

section \<open>Bit buffers and segments\<close>

definition appendBits :: "u32 \<Rightarrow> int \<Rightarrow> u32 list \<Rightarrow> u32 list res" where
  "appendBits val len bb =
     (if len < 0 \<or> len > 31 \<or> shr val (nat len) \<noteq> 0 then Inl (RangeError ''Value out of range'')
      else Inr (bb @ map (\<lambda>i. shr val i AND 1) (rev [0..<nat len])))"

record Mode =
  modeBits :: u32
  ccbits :: "nat list"

definition numCharCountBits :: "Mode \<Rightarrow> nat \<Rightarrow> nat" where
  "numCharCountBits mode ver = (case arr_get (ccbits mode) (int ((ver + 7) div 17)) of Some n \<Rightarrow> n | None \<Rightarrow> 0)"

definition BYTE :: Mode where
  "BYTE = \<lparr>modeBits = 0x4, ccbits = [8, 16, 16]\<rparr>"

record QrSegment =
  mode :: Mode
  numChars :: nat
  bitData :: "u32 list"

definition makeBytes :: "u32 list \<Rightarrow> QrSegment res" where
  "makeBytes data =
     bindR (forR (\<lambda>b bb. appendBits b 8 bb) data []) (\<lambda>bb.
       Inr \<lparr>mode = BYTE, numChars = length data, bitData = bb\<rparr>)"

fun getTotalBits :: "QrSegment list \<Rightarrow> nat \<Rightarrow> enat" where
  "getTotalBits [] version = 0"
| "getTotalBits (seg # segs) version =
     (let cc = numCharCountBits (mode seg) version
      in if numChars seg \<ge> 2 ^ cc then \<infinity>
         else enat (4 + cc + length (bitData seg)) + getTotalBits segs version)"

section \<open>Version and level\<close>

definition fits :: "enat \<Rightarrow> int option \<Rightarrow> bool" where
  "fits used codewords = (case codewords of None \<Rightarrow> False | Some c \<Rightarrow> 0 \<le> c \<and> used \<le> enat (nat (c * 8)))"

function findVersion :: "QrSegment list \<Rightarrow> Ecc \<Rightarrow> nat \<Rightarrow> nat \<Rightarrow> (nat \<times> enat) res" where
  "findVersion segs ecl version maxVersion =
     (if fits (getTotalBits segs version) (getNumDataCodewords version ecl)
      then Inr (version, getTotalBits segs version)
      else if version \<ge> maxVersion then Inl (RangeError ''Data too long'')
      else findVersion segs ecl (version + 1) maxVersion)"
  by pat_completeness auto
termination
  by (relation "measure (\<lambda>(segs, ecl, version, maxVersion). maxVersion - version)") auto

declare findVersion.simps [simp del]

definition boostLevel :: "bool \<Rightarrow> enat \<Rightarrow> nat \<Rightarrow> Ecc \<Rightarrow> Ecc" where
  "boostLevel boostEcl dataUsedBits version ecl =
     fold (\<lambda>newEcl ecl.
         if boostEcl \<and> fits dataUsedBits (getNumDataCodewords version newEcl) then newEcl else ecl)
       [MEDIUM, QUARTILE, HIGH] ecl"

section \<open>The bit stream\<close>

definition segmentBits :: "nat \<Rightarrow> QrSegment \<Rightarrow> u32 list \<Rightarrow> u32 list res" where
  "segmentBits version seg bb =
     bindR (appendBits (modeBits (mode seg)) 4 bb) (\<lambda>bb.
     bindR (appendBits (of_nat (numChars seg)) (int (numCharCountBits (mode seg) version)) bb) (\<lambda>bb.
       Inr (bb @ bitData seg)))"

lemma bindR_fundef_cong [fundef_cong]:
  "r = r' \<Longrightarrow> (\<And>x. r' = Inr x \<Longrightarrow> f x = g x) \<Longrightarrow> bindR r f = bindR r' g"
  by (rule bindR_cong)

lemma appendBits_length: "appendBits v n bb = Inr bb' \<Longrightarrow> length bb' = length bb + nat n"
  by (auto simp: appendBits_def split: if_splits)

function padLoop :: "u32 \<Rightarrow> int \<Rightarrow> u32 list \<Rightarrow> u32 list res" where
  "padLoop padByte dataCapacityBits bb =
     (if int (length bb) < dataCapacityBits
      then bindR (appendBits padByte 8 bb) (padLoop (padByte XOR (0xec XOR 0x11)) dataCapacityBits)
      else Inr bb)"
  by pat_completeness auto
termination
  by (relation "measure (\<lambda>(p, c, bb). nat (c - int (length bb)))") (auto dest: appendBits_length)

declare padLoop.simps [simp del]

definition terminatorAndPadding :: "int option \<Rightarrow> u32 list \<Rightarrow> u32 list res" where
  "terminatorAndPadding dataCapacityBits bb =
     bindR (case dataCapacityBits of None \<Rightarrow> Inr bb
            | Some c \<Rightarrow> appendBits 0 (min 4 (c - int (length bb))) bb) (\<lambda>bb.
     bindR (appendBits 0 (int ((8 - length bb mod 8) mod 8)) bb) (\<lambda>bb.
       case dataCapacityBits of None \<Rightarrow> Inr bb | Some c \<Rightarrow> padLoop 0xec c bb))"

function zeroCodewords :: "nat \<Rightarrow> u32 list \<Rightarrow> u32 list" where
  "zeroCodewords n dataCodewords =
     (if length dataCodewords * 8 < n then zeroCodewords n (dataCodewords @ [0]) else dataCodewords)"
  by pat_completeness auto
termination
  by (relation "measure (\<lambda>(n, dc). n - length dc * 8)") auto

declare zeroCodewords.simps [simp del]

definition packBits :: "u32 list \<Rightarrow> u32 list" where
  "packBits bb =
     fold (\<lambda>i dataCodewords.
         dataCodewords[i div 8 := dataCodewords ! (i div 8) OR shl (bb ! i) (7 - i mod 8)])
       [0..<length bb] (zeroCodewords (length bb) [])"

definition encodePayload :: "QrSegment list \<Rightarrow> Ecc \<Rightarrow> nat \<Rightarrow> nat \<Rightarrow> bool \<Rightarrow> (nat \<times> Ecc \<times> u32 list) res" where
  "encodePayload segs ecl minVersion maxVersion boostEcl =
     bindR (findVersion segs ecl minVersion maxVersion) (\<lambda>(version, dataUsedBits).
       let ecl = boostLevel boostEcl dataUsedBits version ecl
       in bindR (forR (segmentBits version) segs []) (\<lambda>bb.
          bindR (terminatorAndPadding (map_option (\<lambda>c. c * 8) (getNumDataCodewords version ecl)) bb) (\<lambda>bb.
            Inr (version, ecl, packBits bb))))"

section \<open>Bits written\<close>

text \<open>The big-endian bits of a value, and the value of a bit list.\<close>

definition bitsOf :: "nat \<Rightarrow> u32 \<Rightarrow> u32 list" where
  "bitsOf n v = map (\<lambda>i. shr v i AND 1) (rev [0..<n])"

fun valueOf :: "u32 list \<Rightarrow> u32" where
  "valueOf bs = foldl (\<lambda>v b. shl v 1 OR b) 0 bs"

definition is_bit :: "u32 \<Rightarrow> bool" where
  "is_bit b \<longleftrightarrow> b = 0 \<or> b = 1"

lemma length_bitsOf [simp]: "length (bitsOf n v) = n"
  by (simp add: bitsOf_def)

lemma bitsOf_is_bit: "\<forall>b \<in> set (bitsOf n v). is_bit b"
  by (auto simp: bitsOf_def is_bit_def and_one_eq odd_iff_mod_2_eq_one)

lemma appendBits_ok:
  "n \<le> 31 \<Longrightarrow> shr v n = 0 \<Longrightarrow> appendBits v (int n) bb = Inr (bb @ bitsOf n v)"
  by (simp add: appendBits_def bitsOf_def)

lemma appendBits_ok_numeral:
  "numeral n \<le> (31 :: nat) \<Longrightarrow> shr v (numeral n) = 0 \<Longrightarrow>
   appendBits v (numeral n) bb = Inr (bb @ bitsOf (numeral n) v)"
  using appendBits_ok [of "numeral n" v bb] by simp

lemma bit_and_1: "bit (x AND 1 :: u32) k \<longleftrightarrow> k = 0 \<and> bit x 0"
  by (auto simp: bit_simps bit_1_iff)

lemma valueOf_bits:
  assumes "m + n \<le> 32"
  shows "bit (foldl (\<lambda>v b. shl v 1 OR b) 0 (map (\<lambda>i. shr v i AND 1) (rev [m..<m + n]))) k \<longleftrightarrow> k < n \<and> bit v (m + k)"
  using assms
proof (induction n arbitrary: m k)
  case 0
  then show ?case by simp
next
  case (Suc n)
  have split: "rev [m..<m + Suc n] = rev [Suc m..<Suc m + n] @ [m]"
    by (simp add: upt_conv_Cons)
  define F where "F = foldl (\<lambda>v b. shl v 1 OR b) 0 (map (\<lambda>i. shr v i AND 1) (rev [Suc m..<Suc m + n]))"
  have IH: "bit F j \<longleftrightarrow> j < n \<and> bit v (Suc m + j)" for j
    unfolding F_def using Suc.prems by (intro Suc.IH) simp
  have "bit (shl F 1 OR (shr v m AND 1)) k \<longleftrightarrow> k < Suc n \<and> bit v (m + k)"
    using Suc.prems by (cases k) (auto simp: bit_or_iff bit_and_1 IH)
  then show ?case by (simp only: split map_append foldl_append list.map foldl_Cons foldl_Nil F_def)
qed

lemma valueOf_bitsOf: "n \<le> 31 \<Longrightarrow> shr v n = 0 \<Longrightarrow> valueOf (bitsOf n v) = v"
proof (rule bit_word_eqI)
  fix k
  assume n: "n \<le> 31" and z: "shr v n = 0"
  have "\<not> bit v (n + j)" for j
    using z n bit_shr [of n v j] by simp
  then have "bit v k \<Longrightarrow> k < n" by (metis le_add_diff_inverse not_le)
  then show "bit (valueOf (bitsOf n v)) k = bit v k"
    using valueOf_bits [of 0 n v k] n by (auto simp: bitsOf_def)
qed

section \<open>Packing into codewords\<close>

lemma zeroCodewords_eq: "zeroCodewords n dc = dc @ replicate ((n + 7) div 8 - length dc) 0"
proof (induction n dc rule: zeroCodewords.induct)
  case (1 n dc)
  show ?case
  proof (cases "length dc * 8 < n")
    case True
    then obtain k where k: "(n + 7) div 8 - length dc = Suc k"
      by (cases "(n + 7) div 8 - length dc") auto
    then have "(n + 7) div 8 - Suc (length dc) = k" by simp
    with True k 1 show ?thesis by (simp add: zeroCodewords.simps [of n dc])
  next
    case False
    then show ?thesis by (simp add: zeroCodewords.simps [of n dc])
  qed
qed

definition packStep :: "u32 list \<Rightarrow> nat \<Rightarrow> u32 list \<Rightarrow> u32 list" where
  "packStep bb i dc = dc[i div 8 := dc ! (i div 8) OR shl (bb ! i) (7 - i mod 8)]"

lemma length_fold_packStep [simp]: "length (fold (packStep bb) is dc) = length dc"
  by (induction "is" arbitrary: dc) (auto simp: packStep_def)

lemma packStep_bits:
  assumes "m \<le> length bb" and "\<forall>b \<in> set bb. is_bit b" and "j < (length bb + 7) div 8"
  shows "bit (fold (packStep bb) [0..<m] (replicate ((length bb + 7) div 8) 0) ! j) k
     \<longleftrightarrow> k < 8 \<and> 8 * j + (7 - k) < m \<and> bb ! (8 * j + (7 - k)) = 1"
  using assms(1)
proof (induction m)
  case 0
  then show ?case using assms(3) by simp
next
  case (Suc m)
  let ?dc = "fold (packStep bb) [0..<m] (replicate ((length bb + 7) div 8) 0)"
  have "is_bit (bb ! m)" using assms(2) Suc.prems by simp
  then have bb: "bit (bb ! m) i \<longleftrightarrow> i = 0 \<and> bb ! m = 1" for i
    by (auto simp: is_bit_def bit_1_iff)
  have IH: "bit (?dc ! j) k \<longleftrightarrow> k < 8 \<and> 8 * j + (7 - k) < m \<and> bb ! (8 * j + (7 - k)) = 1"
    using Suc by simp
  have "packStep bb m ?dc ! j = (if j = m div 8 then ?dc ! j OR shl (bb ! m) (7 - m mod 8) else ?dc ! j)"
    using assms(3) by (simp add: packStep_def nth_list_update)
  moreover have "8 * j + (7 - k) = m \<longleftrightarrow> j = m div 8 \<and> k = 7 - m mod 8" if "k < 8"
  proof
    assume m: "8 * j + (7 - k) = m"
    define c where "c = 7 - k"
    then have "m = 8 * j + c" "c < 8" "k = 7 - c" using m that by simp_all
    then show "j = m div 8 \<and> k = 7 - m mod 8" by simp
  next
    assume "j = m div 8 \<and> k = 7 - m mod 8"
    then show "8 * j + (7 - k) = m" using mod_less_divisor [of 8 m] by simp
  qed
  ultimately show ?case
    using IH by (cases "k < 8") (auto simp: bit_or_iff bb less_Suc_eq)
qed

lemma packBits_fold: "packBits bb = fold (packStep bb) [0..<length bb] (replicate ((length bb + 7) div 8) 0)"
  unfolding packBits_def zeroCodewords_eq packStep_def by simp

lemma length_packBits [simp]: "length (packBits bb) = (length bb + 7) div 8"
  by (simp add: packBits_fold)

lemma bit_packBits:
  assumes "\<forall>b \<in> set bb. is_bit b" and "j < (length bb + 7) div 8"
  shows "bit (packBits bb ! j) k \<longleftrightarrow> k < 8 \<and> 8 * j + (7 - k) < length bb \<and> bb ! (8 * j + (7 - k)) = 1"
  using packStep_bits [OF order_refl assms] by (simp add: packBits_fold)

lemma packBits_byte: "\<forall>b \<in> set bb. is_bit b \<Longrightarrow> c \<in> set (packBits bb) \<Longrightarrow> shr c 8 = 0"
  by (auto simp: in_set_conv_nth bit_packBits intro!: bit_word_eqI)

lemma bitsOf_nth: "i < n \<Longrightarrow> n \<le> 32 \<Longrightarrow> bitsOf n v ! i = of_bool (bit v (n - 1 - i))"
  by (auto simp: bitsOf_def rev_nth bit_simps bit_1_iff intro!: bit_word_eqI)

lemma nth_concat_bitsOf:
  "i < 8 * length cs \<Longrightarrow> concat (map (bitsOf 8) cs) ! i = of_bool (bit (cs ! (i div 8)) (7 - i mod 8))"
proof (induction cs arbitrary: i)
  case Nil
  then show ?case by simp
next
  case (Cons c cs)
  show ?case
  proof (cases "i < 8")
    case True
    then show ?thesis by (simp add: nth_append bitsOf_nth)
  next
    case False
    then obtain k where "i = 8 + k" using le_Suc_ex not_less by blast
    with Cons show ?thesis by (simp add: nth_append)
  qed
qed

lemma length_concat_bitsOf [simp]: "length (concat (map (bitsOf 8) cs)) = 8 * length cs"
  by (induction cs) auto

lemma unpack_packBits:
  assumes "\<forall>b \<in> set bb. is_bit b" and "8 dvd length bb"
  shows "concat (map (bitsOf 8) (packBits bb)) = bb"
proof (rule nth_equalityI)
  show len: "length (concat (map (bitsOf 8) (packBits bb))) = length bb"
    using assms(2) by auto
  fix i
  assume "i < length (concat (map (bitsOf 8) (packBits bb)))"
  with len have i: "i < length bb" by simp
  have "i div 8 < (length bb + 7) div 8"
    using div_le_mono [of "i + 8" "length bb + 7" 8] i by simp
  moreover have "8 * (i div 8) + i mod 8 = i" by simp
  moreover have "7 - (7 - i mod 8) = i mod 8" by simp
  moreover have "7 - i mod 8 < 8" by (rule le_less_trans [OF diff_le_self]) simp
  ultimately have "bit (packBits bb ! (i div 8)) (7 - i mod 8) \<longleftrightarrow> bb ! i = 1"
    using bit_packBits [OF assms(1), of "i div 8" "7 - i mod 8"] i by simp
  moreover have "is_bit (bb ! i)" using i assms(1) by simp
  ultimately have "of_bool (bit (packBits bb ! (i div 8)) (7 - i mod 8)) = bb ! i"
    by (auto simp: is_bit_def)
  moreover have "i < 8 * length (packBits bb)" using i len by (simp only: length_concat_bitsOf)
  ultimately show "concat (map (bitsOf 8) (packBits bb)) ! i = bb ! i"
    by (simp only: nth_concat_bitsOf)
qed

section \<open>Segments, version choice and padding\<close>

lemma makeBytes_ok:
  assumes "\<forall>b \<in> set data. shr b 8 = 0"
  shows "makeBytes data = Inr \<lparr>mode = BYTE, numChars = length data, bitData = concat (map (bitsOf 8) data)\<rparr>"
proof -
  have "forR (\<lambda>b bb. appendBits b 8 bb) data bb = Inr (bb @ concat (map (bitsOf 8) data))" for bb
    using assms by (induction data arbitrary: bb) (auto simp: appendBits_ok_numeral)
  then show ?thesis by (simp add: makeBytes_def)
qed

lemma numCharCountBits_BYTE: "ver \<le> 40 \<Longrightarrow> numCharCountBits BYTE ver = (if ver \<le> 9 then 8 else 16)"
proof -
  assume "ver \<le> 40"
  then have "(ver + 7) div 17 = 0 \<or> (ver + 7) div 17 = 1 \<or> (ver + 7) div 17 = 2" by linarith
  moreover have "(ver + 7) div 17 = 0 \<longleftrightarrow> ver \<le> 9" by linarith
  ultimately show ?thesis by (auto simp: numCharCountBits_def BYTE_def arr_get_def)
qed

lemma findVersion_result:
  "case findVersion segs ecl v mx of
     Inr (w, used) \<Rightarrow> v \<le> w \<and> w \<le> max v mx \<and> used = getTotalBits segs w
        \<and> fits used (getNumDataCodewords w ecl)
        \<and> (\<forall>k. v \<le> k \<longrightarrow> k < w \<longrightarrow> \<not> fits (getTotalBits segs k) (getNumDataCodewords k ecl))
   | Inl e \<Rightarrow> e = RangeError ''Data too long''
        \<and> (\<forall>k. v \<le> k \<longrightarrow> k \<le> max v mx \<longrightarrow> \<not> fits (getTotalBits segs k) (getNumDataCodewords k ecl))"
proof (induction segs ecl v mx rule: findVersion.induct)
  case (1 segs ecl v mx)
  show ?case
  proof (cases "fits (getTotalBits segs v) (getNumDataCodewords v ecl) \<or> v \<ge> mx")
    case True
    then show ?thesis by (auto simp: findVersion.simps [of segs ecl v mx] dest: le_antisym)
  next
    case False
    then have eq: "findVersion segs ecl v mx = findVersion segs ecl (v + 1) mx"
      by (simp add: findVersion.simps [of segs ecl v mx])
    have le: "v \<le> k \<longleftrightarrow> k = v \<or> v + 1 \<le> k" for k by auto
    show ?thesis
      using 1 False unfolding eq
      by (cases "findVersion segs ecl (v + 1) mx") (auto simp: le split: prod.splits)
  qed
qed

lemma padLoop_ok:
  "\<exists>pad. padLoop padByte c bb = Inr (bb @ pad) \<and> int (length (bb @ pad)) = c \<and> (\<forall>b \<in> set pad. is_bit b)"
  if "shr padByte 8 = 0" and "int (length bb) \<le> c" and "8 dvd c - int (length bb)"
  using that
proof (induction padByte c bb rule: padLoop.induct)
  case (1 padByte c bb)
  show ?case
  proof (cases "int (length bb) < c")
    case True
    let ?p = "padByte XOR (0xec XOR 0x11)"
    have app: "appendBits padByte 8 bb = Inr (bb @ bitsOf 8 padByte)"
      using "1.prems"(1) by (simp add: appendBits_ok_numeral)
    have "shr ?p 8 = 0" using "1.prems"(1) by (simp add: shr_def drop_bit_xor)
    moreover have "int (length (bb @ bitsOf 8 padByte)) \<le> c"
      using True "1.prems"(3) zdvd_imp_le [of 8 "c - int (length bb)"] by simp
    moreover have "8 dvd c - int (length (bb @ bitsOf 8 padByte))"
      using "1.prems"(3) by (simp add: dvd_diff_right_iff diff_diff_eq [symmetric])
    ultimately obtain pad where "padLoop ?p c (bb @ bitsOf 8 padByte) = Inr ((bb @ bitsOf 8 padByte) @ pad)"
      "int (length ((bb @ bitsOf 8 padByte) @ pad)) = c" "\<forall>b \<in> set pad. is_bit b"
      using "1.IH" [OF True app] by blast
    then show ?thesis
      using True app bitsOf_is_bit [of 8 padByte]
      by (intro exI [of _ "bitsOf 8 padByte @ pad"]) (auto simp: padLoop.simps [of padByte c bb])
  next
    case False
    then show ?thesis using "1.prems" by (intro exI [of _ "[]"]) (auto simp: padLoop.simps [of padByte c bb])
  qed
qed

lemma bitsOf_0: "bitsOf n 0 = replicate n 0"
  by (rule nth_equalityI) (auto simp: bitsOf_def shr_def)

lemma terminatorAndPadding_ok:
  assumes "length bb \<le> 8 * n"
  shows "\<exists>pad. terminatorAndPadding (Some (int n * 8)) bb = Inr (bb @ pad) \<and> length (bb @ pad) = 8 * n
    \<and> (\<forall>b \<in> set pad. is_bit b)
    \<and> take (min 4 (8 * n - length bb)) pad = replicate (min 4 (8 * n - length bb)) 0"
proof -
  define t where "t = min 4 (8 * n - length bb)"
  define b1 where "b1 = bb @ bitsOf t 0"
  define f where "f = (8 - length b1 mod 8) mod 8"
  define b2 where "b2 = b1 @ bitsOf f 0"
  have z: "shr 0 k = 0" for k by (simp add: shr_def)
  have t: "min 4 (int n * 8 - int (length bb)) = int t"
    using assms by (simp add: t_def min_def of_nat_diff) arith
  have app1: "appendBits 0 (int t) bb = Inr b1"
    unfolding b1_def by (rule appendBits_ok) (simp_all add: z t_def)
  have "f < 8" by (simp add: f_def)
  then have app2: "appendBits 0 (int f) b1 = Inr b2"
    unfolding b2_def by (intro appendBits_ok) (simp_all add: z)
  have len1: "length b1 \<le> 8 * n" using assms by (simp add: b1_def t_def)
  have dvd: "8 dvd length b2" and len2: "length b2 \<le> 8 * n"
    using round_up_8 [of "length b1"] len1 by (auto simp: b2_def f_def)
  have "8 dvd int n * 8 - int (length b2)"
    using dvd by (metis dvd_diff dvd_triv_right int_dvd_int_iff of_nat_numeral)
  then obtain pad where pad: "padLoop 0xec (int n * 8) b2 = Inr (b2 @ pad)"
    "int (length (b2 @ pad)) = int n * 8" "\<forall>b \<in> set pad. is_bit b"
    using padLoop_ok [of "0xec" b2 "int n * 8"] len2 by (auto simp: shr_def)
  have "terminatorAndPadding (Some (int n * 8)) bb = Inr (b2 @ pad)"
    using app1 app2 pad(1) by (simp add: terminatorAndPadding_def t f_def)
  moreover have "b2 @ pad = bb @ (replicate t 0 @ bitsOf f 0 @ pad)"
    by (simp add: b2_def b1_def bitsOf_0)
  moreover have "\<forall>b \<in> set (replicate t 0 @ bitsOf f 0 @ pad). is_bit b"
    using pad(3) bitsOf_is_bit [of f 0] by (auto simp: is_bit_def)
  ultimately show ?thesis
    using pad(2) by (intro exI [of _ "replicate t 0 @ bitsOf f 0 @ pad"]) (simp add: t_def [symmetric])
qed

section \<open>Reading the codewords back\<close>

text \<open>
  A reader of the data codewords of a byte-mode symbol: mode indicator, character count, bytes.
  It is the specification the encoder is measured against; nothing in the repository reads a
  symbol.
\<close>

definition readPayload :: "nat \<Rightarrow> u32 list \<Rightarrow> u32 list option" where
  "readPayload version codewords =
     (let bits = concat (map (bitsOf 8) codewords); cc = (if version \<le> 9 then 8 else 16);
          n = unat (valueOf (take cc (drop 4 bits))); rest = drop (4 + cc) bits
      in if valueOf (take 4 bits) = 4 \<and> 8 * n \<le> length rest
         then Some (map (\<lambda>i. valueOf (take 8 (drop (8 * i) rest))) [0..<n]) else None)"

lemma chunk_concat_bitsOf:
  "i < length data \<Longrightarrow> take 8 (drop (8 * i) (concat (map (bitsOf 8) data) @ rest)) = bitsOf 8 (data ! i)"
proof (induction data arbitrary: i)
  case (Cons b data)
  then show ?case by (cases i) (auto simp: drop_append)
qed simp

lemma readPayload_bits:
  assumes bytes: "\<forall>b \<in> set data. shr b 8 = 0" and v: "version \<le> 40"
    and n: "length data < 2 ^ (if version \<le> 9 then 8 else 16)"
    and bits: "concat (map (bitsOf 8) codewords) =
      bitsOf 4 4 @ bitsOf (if version \<le> 9 then 8 else 16) (of_nat (length data)) @ concat (map (bitsOf 8) data) @ pad"
  shows "readPayload version codewords = Some data"
proof -
  define cc :: nat where "cc = (if version \<le> 9 then 8 else 16)"
  have cc: "cc = 8 \<or> cc = 16" "length data < 2 ^ cc" using n by (auto simp: cc_def)
  have len: "unat (of_nat (length data) :: u32) = length data"
    using cc by (auto simp: unat_of_nat)
  have "shr (of_nat (length data) :: u32) cc = 0"
    using cc len by (intro word_unat_eq_iff [THEN iffD2]) (auto simp: shr_def drop_bit_eq_div unat_div)
  then have count: "valueOf (bitsOf cc (of_nat (length data))) = of_nat (length data)"
    using cc by (intro valueOf_bitsOf) auto
  have four: "valueOf (bitsOf 4 4) = 4" by (intro valueOf_bitsOf) (simp_all add: shr_def)
  have "map (\<lambda>i. valueOf (take 8 (drop (8 * i) (concat (map (bitsOf 8) data) @ pad)))) [0..<length data] = data"
    using bytes by (intro nth_equalityI) (auto simp: chunk_concat_bitsOf [where rest = "[]", simplified] valueOf_bitsOf simp del: valueOf.simps)
  then show ?thesis
    unfolding readPayload_def bits cc_def [symmetric] Let_def
    using len by (simp add: count four del: valueOf.simps)
qed

section \<open>The whole payload\<close>

abbreviation byteSegment :: "u32 list \<Rightarrow> QrSegment" where
  "byteSegment data \<equiv> \<lparr>mode = BYTE, numChars = length data, bitData = concat (map (bitsOf 8) data)\<rparr>"

abbreviation ccBits :: "nat \<Rightarrow> nat" where
  "ccBits version \<equiv> (if version \<le> 9 then 8 else 16)"

lemma fits_byteSegment:
  "version \<le> 40 \<Longrightarrow> fits (getTotalBits [byteSegment data] version) c \<longleftrightarrow>
     length data < 2 ^ ccBits version \<and> (\<exists>k. c = Some (int k) \<and> 4 + ccBits version + 8 * length data \<le> 8 * k)"
  by (auto simp: fits_def numCharCountBits_BYTE Let_def zero_enat_def split: option.splits
      intro: exI [of _ "nat (the c)"])

text \<open>
  Table facts about capacities: the last version has room for any data an earlier version has
  room for, the bound at version 40, and a higher level never has more room.
\<close>

definition byteCapacity :: "Ecc \<Rightarrow> int" where
  "byteCapacity ecl = (case ecl of LOW \<Rightarrow> 2953 | MEDIUM \<Rightarrow> 2331 | QUARTILE \<Rightarrow> 1663 | HIGH \<Rightarrow> 1273)"

definition roomFor :: "nat \<Rightarrow> Ecc \<Rightarrow> int" where
  "roomFor version ecl = (case getNumDataCodewords version ecl of
     Some c \<Rightarrow> (8 * c - 4 - int (ccBits version)) div 8 | None \<Rightarrow> - 1)"

lemma room_table:
  "list_all (\<lambda>v. list_all (\<lambda>l. roomFor v l \<le> byteCapacity l \<and> roomFor v l < (if v \<le> 9 then 256 else 65536)
      \<and> 0 \<le> roomFor v l) all_levels) all_versions"
  by code_simp

lemma room_at_40: "list_all (\<lambda>l. roomFor 40 l = byteCapacity l) all_levels"
  by code_simp

lemma fits_iff_room:
  assumes "1 \<le> version" and "version \<le> 40"
  shows "fits (getTotalBits [byteSegment data] version) (getNumDataCodewords version ecl)
    \<longleftrightarrow> int (length data) \<le> roomFor version ecl"
proof -
  have "version \<in> set all_versions" using assms by (simp add: all_versions_def)
  then have room: "roomFor version ecl < 2 ^ ccBits version" "0 \<le> roomFor version ecl"
    using room_table in_all_levels [of ecl] by (auto simp: list_all_iff)
  obtain k where k: "getNumDataCodewords version ecl = Some (int k)"
    using layoutE [OF assms, of ecl] by metis
  have "4 + ccBits version + 8 * length data \<le> 8 * k \<longleftrightarrow> int (length data) \<le> roomFor version ecl"
    unfolding roomFor_def k option.case by linarith
  moreover have "int (length data) \<le> roomFor version ecl \<Longrightarrow> length data < 2 ^ ccBits version"
    using room(1) by (metis (no_types) le_less_trans of_nat_less_iff of_nat_numeral of_nat_power)
  ultimately show ?thesis using assms(2) k(1) by (auto simp only: fits_byteSegment option.inject of_nat_eq_iff)
qed

lemma roomFor_le_40: "1 \<le> v \<Longrightarrow> v \<le> 40 \<Longrightarrow> roomFor v ecl \<le> roomFor 40 ecl"
  using room_table room_at_40 in_all_levels [of ecl] by (auto simp: list_all_iff all_versions_def)

lemma roomFor_40: "roomFor 40 ecl = byteCapacity ecl"
  using room_at_40 in_all_levels [of ecl] by (simp add: list_all_iff)

lemma boostLevel_fits:
  "fits used (getNumDataCodewords v ecl) \<Longrightarrow>
   fits used (getNumDataCodewords v (boostLevel b used v ecl)) \<and> ordinal ecl \<le> ordinal (boostLevel b used v ecl)"
  by (cases ecl) (auto simp: boostLevel_def)

lemma segmentBits_byteSegment:
  assumes "version \<le> 40" and "length data < 2 ^ ccBits version"
  shows "segmentBits version (byteSegment data) bb =
    Inr (bb @ bitsOf 4 4 @ bitsOf (ccBits version) (of_nat (length data)) @ concat (map (bitsOf 8) data))"
proof -
  define cc :: nat where "cc = ccBits version"
  have cc: "cc = 8 \<or> cc = 16" "length data < 2 ^ cc" using assms(2) by (auto simp: cc_def)
  have "unat (of_nat (length data) :: u32) = length data" using cc by (auto simp: unat_of_nat)
  then have z: "shr (of_nat (length data) :: u32) cc = 0"
    using cc by (intro word_unat_eq_iff [THEN iffD2]) (auto simp: shr_def drop_bit_eq_div unat_div)
  have n: "cc \<le> 31" using cc by auto
  have four: "appendBits (modeBits BYTE) 4 bb = Inr (bb @ bitsOf 4 4)"
    by (simp add: BYTE_def appendBits_ok_numeral shr_def)
  show ?thesis
    by (simp add: segmentBits_def numCharCountBits_BYTE assms(1) four appendBits_ok [OF n z] flip: cc_def)
qed

lemma encodePayload_ok:
  assumes bytes: "\<forall>b \<in> set data. shr b 8 = 0" and room: "int (length data) \<le> byteCapacity ecl"
  shows "\<exists>version ecl' codewords. encodePayload [byteSegment data] ecl MIN_VERSION MAX_VERSION boost = Inr (version, ecl', codewords)
    \<and> 1 \<le> version \<and> version \<le> 40 \<and> ordinal ecl \<le> ordinal ecl'
    \<and> int (length data) \<le> roomFor version ecl
    \<and> (\<forall>v. 1 \<le> v \<longrightarrow> v < version \<longrightarrow> roomFor v ecl < int (length data))
    \<and> getNumDataCodewords version ecl' = Some (int (length codewords))
    \<and> (\<forall>c \<in> set codewords. shr c 8 = 0)
    \<and> readPayload version codewords = Some data"
proof -
  let ?segs = "[byteSegment data]"
  have "fits (getTotalBits ?segs 40) (getNumDataCodewords 40 ecl)"
    using room by (simp only: fits_iff_room roomFor_40)
  with findVersion_result [where segs = ?segs and ecl = ecl and v = 1 and mx = 40] obtain version used where
    find: "findVersion ?segs ecl 1 40 = Inr (version, used)" and v: "1 \<le> version" "version \<le> 40"
    and used: "used = getTotalBits ?segs version" and fit: "fits used (getNumDataCodewords version ecl)"
    and minimal: "\<And>k. 1 \<le> k \<Longrightarrow> k < version \<Longrightarrow> \<not> fits (getTotalBits ?segs k) (getNumDataCodewords k ecl)"
    by (cases "findVersion ?segs ecl 1 40") (auto split: prod.splits)
  define ecl' where "ecl' = boostLevel boost used version ecl"
  have boosted: "fits used (getNumDataCodewords version ecl')" "ordinal ecl \<le> ordinal ecl'"
    using boostLevel_fits [OF fit, of boost] by (auto simp: ecl'_def)
  from boosted(1) v(2) obtain n where n: "getNumDataCodewords version ecl' = Some (int n)"
    and le: "4 + ccBits version + 8 * length data \<le> 8 * n" and cnt: "length data < 2 ^ ccBits version"
    unfolding used by (auto simp only: fits_byteSegment)
  define hdr where "hdr = bitsOf 4 4 @ bitsOf (ccBits version) (of_nat (length data)) @ concat (map (bitsOf 8) data)"
  have "length hdr \<le> 8 * n" using le by (simp add: hdr_def)
  then obtain pad where pad: "terminatorAndPadding (Some (int n * 8)) hdr = Inr (hdr @ pad)"
    "length (hdr @ pad) = 8 * n" "\<forall>b \<in> set pad. is_bit b"
    using terminatorAndPadding_ok by blast
  let ?cw = "packBits (hdr @ pad)"
  have bit: "\<forall>b \<in> set (hdr @ pad). is_bit b"
    using pad(3) bitsOf_is_bit by (fastforce simp: hdr_def)
  have "encodePayload ?segs ecl MIN_VERSION MAX_VERSION boost = Inr (version, ecl', ?cw)"
    using find n pad(1) segmentBits_byteSegment [OF v(2) cnt, of "[]"]
    by (simp add: encodePayload_def MIN_VERSION_def MAX_VERSION_def ecl'_def [symmetric] hdr_def [symmetric] Let_def)
  moreover have "concat (map (bitsOf 8) ?cw) = hdr @ pad"
    using bit pad(2) by (intro unpack_packBits) auto
  then have "readPayload version ?cw = Some data"
    using bytes v(2) cnt by (intro readPayload_bits) (simp_all add: hdr_def)
  moreover have "length ?cw = n" using pad(2) by simp
  moreover have "roomFor k ecl < int (length data)" if "1 \<le> k" "k < version" for k
  proof -
    have "k \<le> 40" using that(2) v(2) by simp
    from minimal [OF that] fits_iff_room [OF that(1) this, of data ecl] show ?thesis
      by (simp only: not_le)
  qed
  moreover have "int (length data) \<le> roomFor version ecl"
    using fit v unfolding used by (simp only: fits_iff_room)
  ultimately show ?thesis
    using v boosted(2) n packBits_byte [OF bit] by (intro exI [of _ version] exI [of _ ecl'] exI [of _ ?cw]) auto
qed

lemma encodePayload_too_long:
  assumes "byteCapacity ecl < int (length data)"
  shows "encodePayload [byteSegment data] ecl MIN_VERSION MAX_VERSION boost = Inl (RangeError ''Data too long'')"
proof -
  have "\<not> fits (getTotalBits [byteSegment data] v) (getNumDataCodewords v ecl)" if "1 \<le> v" "v \<le> 40" for v
    using that assms roomFor_le_40 [OF that, of ecl] roomFor_40 [of ecl] by (simp only: fits_iff_room)
  with findVersion_result [where segs = "[byteSegment data]" and ecl = ecl and v = 1 and mx = 40]
  have "findVersion [byteSegment data] ecl 1 40 = Inl (RangeError ''Data too long'')"
    by (cases "findVersion [byteSegment data] ecl 1 40") (auto split: prod.splits)
  then show ?thesis by (simp add: encodePayload_def MIN_VERSION_def MAX_VERSION_def)
qed

end
