(* ===== verification/Js_Text.thy ===== *)
theory Js_Text
  imports Prelude
begin

unbundle bit_operations_syntax

text \<open>
  JavaScript strings as lists of UTF-16 code units, and the standard functions that both QR
  encoders use to get the UTF-8 bytes of a text: \<^verbatim>\<open>encodeURI\<close>, \<^verbatim>\<open>encodeURIComponent\<close> and
  \<^verbatim>\<open>unescape\<close>, as ECMAScript defines them. \<open>codePoints\<close> and \<open>utf8\<close> are the specification:
  the code points of a well-formed string and the UTF-8 bytes of a code point.
\<close>

type_synonym jstr = "nat list"

section \<open>Code points and UTF-8\<close>

definition is_high :: "nat \<Rightarrow> bool" where "is_high c \<longleftrightarrow> 0xD800 \<le> c \<and> c \<le> 0xDBFF"
definition is_low :: "nat \<Rightarrow> bool" where "is_low c \<longleftrightarrow> 0xDC00 \<le> c \<and> c \<le> 0xDFFF"

definition surrogatePair :: "nat \<Rightarrow> nat \<Rightarrow> nat" where
  "surrogatePair h l = (h - 0xD800) * 0x400 + (l - 0xDC00) + 0x10000"

fun codePoints :: "jstr \<Rightarrow> nat list option" where
  "codePoints [] = Some []"
| "codePoints [c] = (if is_high c \<or> is_low c then None else Some [c])"
| "codePoints (c # d # cs) =
     (if is_low c then None
      else if is_high c
      then (if is_low d then map_option ((#) (surrogatePair c d)) (codePoints cs) else None)
      else map_option ((#) c) (codePoints (d # cs)))"

definition utf8 :: "nat \<Rightarrow> nat list" where
  "utf8 c =
     (if c < 0x80 then [c]
      else if c < 0x800 then [0xC0 + c div 64, 0x80 + c mod 64]
      else if c < 0x10000 then [0xE0 + c div 4096, 0x80 + c div 64 mod 64, 0x80 + c mod 64]
      else [0xF0 + c div 262144, 0x80 + c div 4096 mod 64, 0x80 + c div 64 mod 64, 0x80 + c mod 64])"

section \<open>The URI functions\<close>

definition is_alnum :: "nat \<Rightarrow> bool" where
  "is_alnum c \<longleftrightarrow> 48 \<le> c \<and> c \<le> 57 \<or> 65 \<le> c \<and> c \<le> 90 \<or> 97 \<le> c \<and> c \<le> 122"

text \<open>Letters, digits and \<^verbatim>\<open>_ - . ! ~ * ' ( )\<close> are never escaped; \<^verbatim>\<open>encodeURI\<close> also keeps
  \<^verbatim>\<open>; / ? : @ & = + $ , #\<close>.\<close>

definition uriUnescaped :: "nat \<Rightarrow> bool" where
  "uriUnescaped c \<longleftrightarrow> is_alnum c \<or> c \<in> {95, 45, 46, 33, 126, 42, 39, 40, 41}"

definition uriReserved :: "nat \<Rightarrow> bool" where
  "uriReserved c \<longleftrightarrow> c \<in> {59, 47, 63, 58, 64, 38, 61, 43, 36, 44, 35}"

definition hexDigit :: "nat \<Rightarrow> nat" where
  "hexDigit n = (if n < 10 then 48 + n else 55 + n)"

definition percent :: "nat \<Rightarrow> jstr" where
  "percent b = [37, hexDigit (b div 16), hexDigit (b mod 16)]"

definition percentEncode :: "nat \<Rightarrow> jstr" where
  "percentEncode c = concat (map percent (utf8 c))"

fun encodeWith :: "(nat \<Rightarrow> bool) \<Rightarrow> jstr \<Rightarrow> jstr res" where
  "encodeWith keep [] = Inr []"
| "encodeWith keep [c] =
     (if keep c then Inr [c]
      else if is_high c \<or> is_low c then Inl (URIError ''URI malformed'')
      else Inr (percentEncode c))"
| "encodeWith keep (c # d # cs) =
     (if keep c then bindR (encodeWith keep (d # cs)) (\<lambda>r. Inr (c # r))
      else if is_low c then Inl (URIError ''URI malformed'')
      else if is_high c
      then (if is_low d
            then bindR (encodeWith keep cs) (\<lambda>r. Inr (percentEncode (surrogatePair c d) @ r))
            else Inl (URIError ''URI malformed''))
      else bindR (encodeWith keep (d # cs)) (\<lambda>r. Inr (percentEncode c @ r)))"

definition encodeURI :: "jstr \<Rightarrow> jstr res" where
  "encodeURI = encodeWith (\<lambda>c. uriUnescaped c \<or> uriReserved c)"

definition encodeURIComponent :: "jstr \<Rightarrow> jstr res" where
  "encodeURIComponent = encodeWith uriUnescaped"

fun hexValue :: "nat \<Rightarrow> nat option" where
  "hexValue c =
     (if 48 \<le> c \<and> c \<le> 57 then Some (c - 48)
      else if 65 \<le> c \<and> c \<le> 70 then Some (c - 55)
      else if 97 \<le> c \<and> c \<le> 102 then Some (c - 87) else None)"

text \<open>\<^verbatim>\<open>parseInt(s, 16)\<close> on a string without sign, space or \<^verbatim>\<open>0x\<close>: the longest prefix of
  hexadecimal digits, \<^verbatim>\<open>NaN\<close> when there is none.\<close>

definition parseHex :: "jstr \<Rightarrow> nat option" where
  "parseHex s =
     (let ds = map (\<lambda>c. the (hexValue c)) (takeWhile (\<lambda>c. hexValue c \<noteq> None) s)
      in if ds = [] then None else Some (foldl (\<lambda>v d. 16 * v + d) 0 ds))"

text \<open>\<^verbatim>\<open>unescape\<close> on a string without \<^verbatim>\<open>%u\<close> escapes.\<close>

fun unescapeJs :: "jstr \<Rightarrow> jstr" where
  "unescapeJs (c # a # b # s) =
     (if c = 37 \<and> hexValue a \<noteq> None \<and> hexValue b \<noteq> None
      then (16 * the (hexValue a) + the (hexValue b)) # unescapeJs s
      else c # unescapeJs (a # b # s))"
| "unescapeJs s = s"

section \<open>Percent encoding and the bytes behind it\<close>

lemma hexValue_hexDigit: "n < 16 \<Longrightarrow> hexValue (hexDigit n) = Some n"
  by (auto simp: hexDigit_def)

lemma utf8_less_256: "c \<le> 0x10FFFF \<Longrightarrow> b \<in> set (utf8 c) \<Longrightarrow> b < 256"
  by (auto simp: utf8_def split: if_splits)

lemma surrogatePair_le: "is_high h \<Longrightarrow> is_low l \<Longrightarrow> surrogatePair h l \<le> 0x10FFFF"
  by (auto simp: surrogatePair_def is_high_def is_low_def)

lemma codePoints_le: "codePoints s = Some cps \<Longrightarrow> \<forall>c \<in> set s. c < 65536 \<Longrightarrow> \<forall>c \<in> set cps. c \<le> 0x10FFFF"
proof (induction s arbitrary: cps rule: codePoints.induct)
  case (3 c d cs)
  then show ?case
    using surrogatePair_le [of c d] by (auto split: if_splits)
qed (auto split: if_splits)

lemma codePoints_plain: "\<forall>c \<in> set s. c < 0xD800 \<Longrightarrow> codePoints s = Some s"
  by (induction s rule: codePoints.induct) (auto simp: is_high_def is_low_def)

text \<open>A reader that turns kept characters and percent escapes into bytes inverts the encoding,
  whatever set of characters is kept, as long as the kept ones are ASCII and not \<^verbatim>\<open>%\<close>.\<close>

definition keeps_plain :: "(nat \<Rightarrow> bool) \<Rightarrow> bool" where
  "keeps_plain keep \<longleftrightarrow> (\<forall>c. keep c \<longrightarrow> c < 0x80 \<and> c \<noteq> 37)"

lemma keeps_plain_URI: "keeps_plain (\<lambda>c. uriUnescaped c \<or> uriReserved c)" "keeps_plain uriUnescaped"
  by (auto simp: keeps_plain_def uriUnescaped_def uriReserved_def is_alnum_def)

locale percent_reader =
  fixes read :: "jstr \<Rightarrow> 'b list" and byte :: "nat \<Rightarrow> 'b"
  assumes read_Nil: "read [] = []"
    and read_plain: "c < 0x80 \<Longrightarrow> c \<noteq> 37 \<Longrightarrow> read (c # s) = byte c # read s"
    and read_percent: "b < 256 \<Longrightarrow> read (percent b @ s) = byte b # read s"
begin

lemma read_percents: "\<forall>b \<in> set bs. b < 256 \<Longrightarrow> read (concat (map percent bs) @ s) = map byte bs @ read s"
  by (induction bs) (simp_all add: read_percent)

lemma read_percentEncode: "c \<le> 0x10FFFF \<Longrightarrow> read (percentEncode c @ s) = map byte (utf8 c) @ read s"
  unfolding percentEncode_def by (rule read_percents) (auto dest: utf8_less_256)

lemma read_encodeWith:
  assumes "keeps_plain keep" and "\<forall>c \<in> set s. c < 65536"
  shows "(case codePoints s of
      None \<Rightarrow> encodeWith keep s = Inl (URIError ''URI malformed'')
    | Some cps \<Rightarrow> (\<exists>r. encodeWith keep s = Inr r \<and> read r = map byte (concat (map utf8 cps))))"
  using assms(2)
proof (induction s rule: codePoints.induct)
  case 1
  show ?case by (simp add: read_Nil)
next
  case (2 c)
  have "keep c \<Longrightarrow> c < 0x80 \<and> c \<noteq> 37" using assms(1) by (simp add: keeps_plain_def)
  then show ?case
    using read_plain [of c "[]"] read_percentEncode [of c "[]"] 2
    by (auto simp: read_Nil is_high_def is_low_def utf8_def)
next
  case (3 c d cs)
  have keep: "keep c \<Longrightarrow> c < 0x80 \<and> c \<noteq> 37" using assms(1) by (simp add: keeps_plain_def)
  then have utf: "keep c \<Longrightarrow> utf8 c = [c]" "keep c \<Longrightarrow> \<not> is_low c \<and> \<not> is_high c"
    by (auto simp: utf8_def is_high_def is_low_def)
  show ?case
  proof (cases "is_low c \<or> is_high c")
    case True
    then show ?thesis
      using 3 utf(2) surrogatePair_le [of c d] read_percentEncode [of "surrogatePair c d"]
      by (auto simp: is_low_def is_high_def split: option.splits)
  next
    case False
    then show ?thesis
      using 3 keep utf(1) read_plain [of c] read_percentEncode [of c]
      by (auto split: option.splits)
  qed
qed

end

end
