(* ===== verification/Qr_Api.thy ===== *)
theory Qr_Api
  imports Qr_Symbol Qr_Segment Js_Text
begin

text \<open>
  The entry points of \<^verbatim>\<open>webui/qr.js\<close>: text to bytes, bytes to a symbol, \<^verbatim>\<open>generate\<close> and
  \<^verbatim>\<open>render\<close>. A canvas is its size and the list of drawing commands
  it received since it was last cleared; assigning its width or height clears it.
\<close>

section \<open>From text to a symbol\<close>

text \<open>The loop over the percent-encoded text. \<^verbatim>\<open>NaN\<close> would be pushed for a malformed escape; as
  every later use of a byte is a 32-bit shift, it is the byte 0.\<close>

function percentBytes :: "jstr \<Rightarrow> u32 list" where
  "percentBytes [] = []"
| "percentBytes (c # s) =
     (if c \<noteq> 37 then of_nat c # percentBytes s
      else num_or_0 (map_option of_nat (parseHex (take 2 s))) # percentBytes (drop 2 s))"
  by pat_completeness auto
termination
  by (relation "measure length") auto

definition toUtf8Bytes :: "jstr \<Rightarrow> u32 list res" where
  "toUtf8Bytes str = bindR (encodeURI str) (\<lambda>s. Inr (percentBytes s))"

definition encodeSegments :: "QrSegment list \<Rightarrow> Ecc \<Rightarrow> nat \<Rightarrow> nat \<Rightarrow> int \<Rightarrow> bool \<Rightarrow> QrCode res" where
  "encodeSegments segs ecl minVersion maxVersion msk boostEcl =
     bindR (encodePayload segs ecl minVersion maxVersion boostEcl) (\<lambda>(version, ecl, dataCodewords).
       newQrCode version ecl dataCodewords msk)"

definition encodeText :: "jstr \<Rightarrow> Ecc \<Rightarrow> QrCode res" where
  "encodeText text ecl =
     bindR (toUtf8Bytes text) (\<lambda>bytes.
     bindR (makeBytes bytes) (\<lambda>seg.
       encodeSegments [seg] ecl MIN_VERSION MAX_VERSION (-1) True))"

section \<open>The public functions\<close>

definition ECC_MAP :: "string \<Rightarrow> Ecc option" where
  "ECC_MAP name =
     (if name = ''L'' then Some LOW else if name = ''M'' then Some MEDIUM
      else if name = ''Q'' then Some QUARTILE else if name = ''H'' then Some HIGH else None)"

text \<open>\<^verbatim>\<open>ECC_MAP\<close> is an object literal, so a name that every object inherits is found too; what is
  found has no \<^verbatim>\<open>ordinal\<close>, and the first table lookup with it throws.\<close>

definition generate :: "jstr \<Rightarrow> string option \<Rightarrow> nat list list res" where
  "generate text eccName =
     (let name = (case eccName of None \<Rightarrow> ''M'' | Some n \<Rightarrow> if n = '''' then ''M'' else n)
      in bindR (if name \<in> set inheritedNames
                then bindR (toUtf8Bytes text) (\<lambda>bytes. bindR (makeBytes bytes) (\<lambda>seg.
                       Inl (TypeError ''cannot read a property of undefined'')))
                else encodeText text (case ECC_MAP name of Some ecl \<Rightarrow> ecl | None \<Rightarrow> MEDIUM)) (\<lambda>qr.
           Inr (map (\<lambda>y. map (\<lambda>x. if cell (qr_modules qr) x y then 1 else 0) [0..qr_size qr - 1])
                  [0..qr_size qr - 1])))"

datatype canvas_op = FillStyle string | FillRect int int int int

record Canvas =
  cv_width :: int
  cv_height :: int
  cv_ops :: "canvas_op list"

record RenderOptions =
  opt_level :: "string option"
  opt_quiet :: "int option"
  opt_size :: "int option"
  opt_light :: "string option"
  opt_dark :: "string option"

text \<open>\<^verbatim>\<open>a || b\<close> for optional numbers and strings.\<close>

definition or_number :: "int option \<Rightarrow> int \<Rightarrow> int" where
  "or_number a b = (case a of None \<Rightarrow> b | Some n \<Rightarrow> if n = 0 then b else n)"

definition or_string :: "string option \<Rightarrow> string \<Rightarrow> string" where
  "or_string a b = (case a of None \<Rightarrow> b | Some s \<Rightarrow> if s = '''' then b else s)"

definition render :: "Canvas \<Rightarrow> jstr \<Rightarrow> RenderOptions \<Rightarrow> (Canvas \<times> (nat \<times> int)) res" where
  "render canvas text options =
     bindR (generate text (Some (or_string (opt_level options) ''M''))) (\<lambda>matrix.
       let n = length matrix;
           quiet = (case opt_quiet options of Some k \<Rightarrow> k | None \<Rightarrow> 4);
           total = int n + quiet * 2;
           px = max 1 (or_number (opt_size options) (or_number (Some (cv_width canvas)) 200) div total);
           dim = px * total;
           ops = [FillStyle (or_string (opt_light options) ''#ffffff''), FillRect 0 0 dim dim,
                  FillStyle (or_string (opt_dark options) ''#000000'')]
                 @ [FillRect ((int x + quiet) * px) ((int y + quiet) * px) px px.
                      y \<leftarrow> [0..<n], x \<leftarrow> [0..<n], matrix ! y ! x \<noteq> 0]
       in Inr (\<lparr>cv_width = dim, cv_height = dim, cv_ops = ops\<rparr>, (n, px)))"

section \<open>The bytes of a text\<close>

lemma parseHex_percent: "b < 256 \<Longrightarrow> parseHex [hexDigit (b div 16), hexDigit (b mod 16)] = Some b"
  by (simp add: parseHex_def hexValue_hexDigit less_mult_imp_div_less del: hexValue.simps)

interpretation utf8Reader: percent_reader percentBytes "of_nat :: nat \<Rightarrow> u32"
  by unfold_locales (simp_all add: percent_def parseHex_percent)

abbreviation utf8Bytes :: "nat list \<Rightarrow> u32 list" where
  "utf8Bytes cps \<equiv> map of_nat (concat (map utf8 cps))"

lemma toUtf8Bytes_result:
  assumes "\<forall>c \<in> set text. c < 65536"
  shows "toUtf8Bytes text = (case codePoints text of
    None \<Rightarrow> Inl (URIError ''URI malformed'') | Some cps \<Rightarrow> Inr (utf8Bytes cps))"
  using utf8Reader.read_encodeWith [OF keeps_plain_URI(1) assms]
  by (auto simp: toUtf8Bytes_def encodeURI_def split: option.splits)

lemma utf8Bytes_bytes:
  assumes "codePoints text = Some cps" and "\<forall>c \<in> set text. c < 65536"
  shows "\<forall>b \<in> set (utf8Bytes cps). is_byte b"
proof
  fix b assume "b \<in> set (utf8Bytes cps)"
  then obtain c n where "c \<in> set cps" "n \<in> set (utf8 c)" "b = of_nat n" by auto
  then have "n < 256" "b = of_nat n" using codePoints_le [OF assms] utf8_less_256 by blast+
  then show "is_byte b" using below_of_nat [of n 8] below_shr [of 8 b] by (simp add: is_byte_def)
qed

section \<open>Pixels\<close>

text \<open>The colour of a pixel after a list of commands: that of the last rectangle over it.\<close>

fun pixel :: "canvas_op list \<Rightarrow> string \<Rightarrow> string option \<Rightarrow> int \<Rightarrow> int \<Rightarrow> string option" where
  "pixel [] style c i j = c"
| "pixel (FillStyle s # ops) style c i j = pixel ops s c i j"
| "pixel (FillRect x y w h # ops) style c i j =
     pixel ops style (if x \<le> i \<and> i < x + w \<and> y \<le> j \<and> j < y + h then Some style else c) i j"

fun rect_inside :: "int \<Rightarrow> canvas_op \<Rightarrow> bool" where
  "rect_inside side (FillRect x y w h) \<longleftrightarrow> 0 \<le> x \<and> 0 \<le> y \<and> 0 \<le> w \<and> 0 \<le> h \<and> x + w \<le> side \<and> y + h \<le> side"
| "rect_inside side (FillStyle s) \<longleftrightarrow> True"

lemma pixel_rects:
  "pixel (map (\<lambda>(x, y, w, h). FillRect x y w h) rs) style c i j =
     (if \<exists>(x, y, w, h) \<in> set rs. x \<le> i \<and> i < x + w \<and> y \<le> j \<and> j < y + h then Some style else c)"
  by (induction rs arbitrary: c) (auto split: if_splits)

lemma scaled_cell:
  fixes px :: int
  assumes "0 < px"
  shows "k * px \<le> i \<and> i < k * px + px \<longleftrightarrow> k = i div px"
proof
  assume *: "k * px \<le> i \<and> i < k * px + px"
  then have "i = k * px + (i - k * px)" "0 \<le> i - k * px" "i - k * px < px" by auto
  then show "k = i div px" by (metis div_mult_self3 div_pos_pos_trivial assms add.commute add.right_neutral less_irrefl)
next
  assume "k = i div px"
  then have "k * px + i mod px = i" "0 \<le> i mod px" "i mod px < px" using assms by auto
  then show "k * px \<le> i \<and> i < k * px + px" by (intro conjI) linarith+
qed

definition moduleRects :: "nat list list \<Rightarrow> int \<Rightarrow> int \<Rightarrow> (int \<times> int \<times> int \<times> int) list" where
  "moduleRects matrix quiet px =
     [((int x + quiet) * px, (int y + quiet) * px, px, px). y \<leftarrow> [0..<length matrix], x \<leftarrow> [0..<length matrix], matrix ! y ! x \<noteq> 0]"

lemma moduleRects_ops:
  "[FillRect ((int x + quiet) * px) ((int y + quiet) * px) px px.
      y \<leftarrow> [0..<length matrix], x \<leftarrow> [0..<length matrix], matrix ! y ! x \<noteq> 0]
   = map (\<lambda>(x, y, w, h). FillRect x y w h) (moduleRects matrix quiet px)"
  by (simp add: moduleRects_def map_concat comp_def) (intro arg_cong [of _ _ concat] map_cong refl, auto)

lemma moduleRects_hit:
  assumes "0 < px"
  shows "(\<exists>(x, y, w, h) \<in> set (moduleRects matrix quiet px). x \<le> i \<and> i < x + w \<and> y \<le> j \<and> j < y + h) \<longleftrightarrow>
    (\<exists>x<length matrix. \<exists>y<length matrix. matrix ! y ! x \<noteq> 0 \<and> int x = i div px - quiet \<and> int y = j div px - quiet)"
proof -
  have one: "(int x + quiet) * px \<le> i \<and> i < (int x + quiet) * px + px \<longleftrightarrow> int x = i div px - quiet" for x i
    using scaled_cell [OF assms, of "int x + quiet" i] by auto
  have "set (moduleRects matrix quiet px) = {((int x + quiet) * px, (int y + quiet) * px, px, px) | x y.
      x < length matrix \<and> y < length matrix \<and> matrix ! y ! x \<noteq> 0}"
    using assms by (auto simp: moduleRects_def)
  then have "(\<exists>(x, y, w, h) \<in> set (moduleRects matrix quiet px). x \<le> i \<and> i < x + w \<and> y \<le> j \<and> j < y + h) \<longleftrightarrow>
    (\<exists>x<length matrix. \<exists>y<length matrix. matrix ! y ! x \<noteq> 0
      \<and> ((int x + quiet) * px \<le> i \<and> i < (int x + quiet) * px + px)
      \<and> ((int y + quiet) * px \<le> j \<and> j < (int y + quiet) * px + px))"
    by (simp only: Bex_def) (auto; blast)
  then show ?thesis by (simp only: one)
qed

lemma moduleRects_inside:
  assumes "0 < px" and "0 \<le> quiet" and "(x, y, w, h) \<in> set (moduleRects matrix quiet px)"
  shows "rect_inside (px * (int (length matrix) + quiet * 2)) (FillRect x y w h)"
proof -
  have "0 \<le> (int k + quiet) * px \<and> (int k + quiet) * px + px \<le> px * (int (length matrix) + quiet * 2)"
    if "k < length matrix" for k
  proof -
    have "(int k + quiet + 1) * px \<le> (int (length matrix) + quiet * 2) * px"
      using that assms(1,2) by (intro mult_right_mono) auto
    then show ?thesis using assms by (simp add: algebra_simps)
  qed
  then show ?thesis using assms(1,3) by (auto simp: moduleRects_def)
qed

end
