(* ===== verification/Qr_Capacity.thy ===== *)
theory Qr_Capacity
  imports Qr_Symbol
begin

text \<open>
  How many modules a symbol leaves for data. The formula of \<^verbatim>\<open>getNumRawDataModules\<close> in
  \<^verbatim>\<open>webui/qr.js\<close> is compared with what \<^verbatim>\<open>drawFunctionPatterns\<close> really marks: the marked
  modules are covered by three corner squares, the two timing lines between them, the alignment
  patterns outside the timing lines and the two version areas, so at least as many modules stay
  free as the formula says and the code words of every version fit.
\<close>

section \<open>A cover of the function modules\<close>

definition rect :: "int \<Rightarrow> int \<Rightarrow> int \<Rightarrow> int \<Rightarrow> (int \<times> int) set" where
  "rect x1 x2 y1 y2 = {x1..x2} \<times> {y1..y2}"

definition cornerCover :: "int \<Rightarrow> (int \<times> int) set" where
  "cornerCover sz = rect 0 8 0 8 \<union> rect (sz - 8) (sz - 1) 0 8 \<union> rect 0 8 (sz - 8) (sz - 1)"

definition timingCover :: "int \<Rightarrow> (int \<times> int) set" where
  "timingCover sz = rect 6 6 9 (sz - 9) \<union> rect 9 (sz - 9) 6 6"

definition without6 :: "int \<Rightarrow> int set" where
  "without6 p = {p - 2..p + 2} - {6}"

definition alignCover :: "int list \<Rightarrow> (int \<times> int) set" where
  "alignCover ps = (\<Union>(a, b) \<in> set (alignPairs (length ps)). without6 (ps ! a) \<times> without6 (ps ! b))"

definition versionCover :: "nat \<Rightarrow> (int \<times> int) set" where
  "versionCover version = (if version < 7 then {}
     else rect (sizeOf version - 11) (sizeOf version - 9) 0 5 \<union> rect 0 5 (sizeOf version - 11) (sizeOf version - 9))"

definition functionCover :: "nat \<Rightarrow> (int \<times> int) set" where
  "functionCover version = cornerCover (sizeOf version) \<union> timingCover (sizeOf version)
     \<union> alignCover (alignPos version) \<union> versionCover version"

abbreviation cellsOf :: "writes \<Rightarrow> (int \<times> int) set" where
  "cellsOf ws \<equiv> (\<lambda>(x, y, v). (x, y)) ` set ws"

lemma line6_cover:
  assumes "17 \<le> sz" and "0 \<le> z" and "z < sz"
  shows "(6, z) \<in> cornerCover sz \<union> timingCover sz" and "(z, 6) \<in> cornerCover sz \<union> timingCover sz"
  using assms by (auto simp: cornerCover_def timingCover_def rect_def)

lemma timing_covered: "17 \<le> sz \<Longrightarrow> cellsOf (timingWrites sz) \<subseteq> cornerCover sz \<union> timingCover sz"
  using line6_cover [of sz] by (fastforce simp: timingWrites_def)

lemma finder_covered:
  assumes "17 \<le> sz"
  shows "cellsOf (finderWrites sz 3 3) \<subseteq> cornerCover sz"
    and "cellsOf (finderWrites sz (sz - 4) 3) \<subseteq> cornerCover sz"
    and "cellsOf (finderWrites sz 3 (sz - 4)) \<subseteq> cornerCover sz"
proof -
  have "cellsOf (finderWrites sz x y) \<subseteq> {(u, w). x - 4 \<le> u \<and> u \<le> x + 4 \<and> y - 4 \<le> w \<and> w \<le> y + 4 \<and> inside sz u w}" for x y
    by (fastforce simp: finderWrites_def inside_def simp del: upto.simps)
  note sub = order_trans [OF this]
  show "cellsOf (finderWrites sz 3 3) \<subseteq> cornerCover sz"
    by (rule sub) (auto simp: cornerCover_def rect_def inside_def)
  show "cellsOf (finderWrites sz (sz - 4) 3) \<subseteq> cornerCover sz"
    by (rule sub) (auto simp: cornerCover_def rect_def inside_def)
  show "cellsOf (finderWrites sz 3 (sz - 4)) \<subseteq> cornerCover sz"
    by (rule sub) (auto simp: cornerCover_def rect_def inside_def)
qed

lemma format_covered: "17 \<le> sz \<Longrightarrow> formatCells sz \<subseteq> cornerCover sz"
  by (auto simp: formatCells_def formatWrites_def cornerCover_def rect_def)

lemma version_covered: "cellsOf (versionInfoWrites version) \<subseteq> versionCover version"
proof -
  have "i mod 3 < (3 :: nat)" "i < 18 \<Longrightarrow> i div 3 < (6 :: nat)" for i :: nat by (auto simp: less_mult_imp_div_less)
  then show ?thesis
    by (fastforce simp: versionInfoWrites_def versionWrites_def versionCover_def rect_def Let_def)
qed

lemma align_covered:
  assumes v: "1 \<le> version" "version \<le> 40"
  shows "cellsOf (alignmentWrites (alignPos version)) \<subseteq> functionCover version"
proof
  fix p assume p: "p \<in> cellsOf (alignmentWrites (alignPos version))"
  let ?ps = "alignPos version"
  obtain x y where xy: "p = (x, y)" by (cases p)
  have "cellsOf (alignmentWrites ?ps) = (\<Union>(a, b) \<in> set (alignPairs (length ?ps)). cellsOf (alignWrites (?ps ! a) (?ps ! b)))"
    by (simp add: alignmentWrites_def image_UN case_prod_beta)
  with p have "p \<in> (\<Union>(a, b) \<in> set (alignPairs (length ?ps)). cellsOf (alignWrites (?ps ! a) (?ps ! b)))" by (simp only:)
  then obtain a b where ab: "(a, b) \<in> set (alignPairs (length ?ps))" "p \<in> cellsOf (alignWrites (?ps ! a) (?ps ! b))"
    by (elim UN_E) (simp only: case_prod_beta, metis prod.collapse)
  then have near: "?ps ! a - 2 \<le> x" "x \<le> ?ps ! a + 2" "?ps ! b - 2 \<le> y" "y \<le> ?ps ! b + 2"
    using xy by (auto simp: alignWrites_def simp del: upto.simps)
  have "p \<in> cellsOf (alignmentWrites ?ps) \<Longrightarrow> inside (sizeOf version) x y"
    using inside_alignment [OF v] xy by (auto simp: writes_inside_def)
  then have ins: "inside (sizeOf version) x y" using p by blast
  show "p \<in> functionCover version"
  proof (cases "x = 6 \<or> y = 6")
    case True
    then show ?thesis
      using line6_cover [of "sizeOf version" x] line6_cover [of "sizeOf version" y] ins xy
      by (auto simp: functionCover_def inside_def)
  next
    case False
    then have "p \<in> without6 (?ps ! a) \<times> without6 (?ps ! b)" using near xy by (auto simp: without6_def)
    then show ?thesis using ab(1) by (auto simp: functionCover_def alignCover_def)
  qed
qed

lemma function_covered:
  assumes v: "1 \<le> version" "version \<le> 40"
  shows "cellsOf (functionWrites version ecl) \<subseteq> functionCover version"
proof -
  have "17 \<le> sizeOf version" by simp
  note big = timing_covered [OF this] finder_covered [OF this] format_covered [OF this]
  have cover: "cornerCover (sizeOf version) \<subseteq> functionCover version"
    "cornerCover (sizeOf version) \<union> timingCover (sizeOf version) \<subseteq> functionCover version"
    "versionCover version \<subseteq> functionCover version"
    by (auto simp: functionCover_def)
  show ?thesis
    unfolding functionWrites_def set_append image_Un formatWrites_cells
    using order_trans [OF big(1) cover(2)] order_trans [OF big(2) cover(1)] order_trans [OF big(3) cover(1)]
      order_trans [OF big(4) cover(1)] order_trans [OF big(5) cover(1)] align_covered [OF v]
      order_trans [OF version_covered cover(3)]
    by (intro Un_least)
qed

section \<open>Counting\<close>

lemma card_rect: "card (rect x1 x2 y1 y2) = nat (x2 - x1 + 1) * nat (y2 - y1 + 1)"
  by (simp add: rect_def algebra_simps)

lemma finite_rect [simp]: "finite (rect x1 x2 y1 y2)"
  by (simp add: rect_def)

lemma card_cornerCover: "card (cornerCover sz) \<le> 225"
  unfolding cornerCover_def
  using card_Un_le [of "rect 0 8 0 8 \<union> rect (sz - 8) (sz - 1) 0 8" "rect 0 8 (sz - 8) (sz - 1)"]
    card_Un_le [of "rect 0 8 0 8" "rect (sz - 8) (sz - 1) 0 8"]
  by (simp add: card_rect)

lemma card_timingCover: "17 \<le> sz \<Longrightarrow> int (card (timingCover sz)) \<le> 2 * (sz - 17)"
  unfolding timingCover_def
  using card_Un_le [of "rect 6 6 9 (sz - 9)" "rect 9 (sz - 9) 6 6"] by (simp add: card_rect)

lemma card_versionCover: "card (versionCover version) \<le> (if version < 7 then 0 else 36)"
  unfolding versionCover_def
  using card_Un_le [of "rect (sizeOf version - 11) (sizeOf version - 9) 0 5" "rect 0 5 (sizeOf version - 11) (sizeOf version - 9)"]
  by (simp add: card_rect)

lemma card_without6: "card (without6 p) = (if 4 \<le> p \<and> p \<le> 8 then 4 else 5)"
  by (simp add: without6_def card_Diff_singleton_if)

lemma finite_without6 [simp]: "finite (without6 p)"
  by (simp add: without6_def)

text \<open>Alignment positions after the first one are at least 18, so only patterns in the first row or
  column of patterns touch a timing line.\<close>

definition alignWidth :: "nat \<Rightarrow> nat" where
  "alignWidth a = (if a = 0 then 4 else 5)"

lemma spaced_nth: "0 \<le> d \<Longrightarrow> spaced d ps \<Longrightarrow> 0 < a \<Longrightarrow> a < length ps \<Longrightarrow> hd ps + d \<le> ps ! a"
proof (induction d ps arbitrary: a rule: spaced.induct)
  case (1 d x y zs)
  then show ?case by (cases "a = 1") (auto simp: nth_Cons split: nat.splits, force)
qed auto

lemma card_alignCover:
  assumes "1 \<le> version" and "version \<le> 40"
  shows "card (alignCover (alignPos version)) \<le>
    sum_list (map (\<lambda>(a, b). alignWidth a * alignWidth b) (alignPairs (length (alignPos version))))"
proof -
  let ?ps = "alignPos version"
  have width: "card (without6 (?ps ! a)) = alignWidth a" if "a < length ?ps" for a
  proof -
    have "2 \<le> version" using that assms(1) by (cases "version = 1") (auto simp: alignPos_def)
    then have "hd ?ps = 6" "?ps \<noteq> []" using alignPos_facts(3) [OF assms] by auto
    moreover have "hd ?ps + 12 \<le> ?ps ! a" if "0 < a"
      using spaced_nth [OF _ alignPos_facts(1) [OF assms] that] \<open>a < length ?ps\<close> by simp
    ultimately show ?thesis by (cases "a = 0") (auto simp: card_without6 alignWidth_def hd_conv_nth)
  qed
  have "card (\<Union>(a, b) \<in> set ab. without6 (?ps ! a) \<times> without6 (?ps ! b)) \<le> sum_list (map (\<lambda>(a, b). alignWidth a * alignWidth b) ab)"
    if "set ab \<subseteq> {..<length ?ps} \<times> {..<length ?ps}" for ab
    using that
  proof (induction ab)
    case (Cons p ab)
    obtain a b where p: "p = (a, b)" by (cases p)
    then show ?case
      using Cons width card_Un_le [of "without6 (?ps ! a) \<times> without6 (?ps ! b)" "\<Union>(a, b) \<in> set ab. without6 (?ps ! a) \<times> without6 (?ps ! b)"]
      by (auto simp: card_cartesian_product)
  qed simp
  moreover have "set (alignPairs (length ?ps)) \<subseteq> {..<length ?ps} \<times> {..<length ?ps}"
    by (auto simp: alignPairs_def)
  ultimately show ?thesis unfolding alignCover_def by blast
qed

lemma align_sum_table:
  "list_all (\<lambda>n. int (sum_list (map (\<lambda>(a, b). alignWidth a * alignWidth b) (alignPairs n)))
      = (if n = 0 then 0 else (25 * int n - 10) * int n - 55)) [0, 2, 3, 4, 5, 6, 7]"
  by code_simp

lemma card_functionCover:
  assumes v: "1 \<le> version" "version \<le> 40"
  shows "int (card (functionCover version)) + getNumRawDataModules version \<le> sizeOf version * sizeOf version"
proof -
  let ?n = "length (alignPos version)"
  have n: "?n = (if version = 1 then 0 else version div 7 + 2)"
    using alignPos_facts(3) [OF v] v by (auto simp: alignPos_def)
  then have "?n \<in> {0, 2, 3, 4, 5, 6, 7}"
  proof -
    have "version div 7 \<le> 5" using v(2) by simp
    then have "version div 7 \<in> {0, 1, 2, 3, 4, 5}" by auto
    then show ?thesis using n by auto
  qed
  then have align: "int (sum_list (map (\<lambda>(a, b). alignWidth a * alignWidth b) (alignPairs ?n)))
      = (if ?n = 0 then 0 else (25 * int ?n - 10) * int ?n - 55)"
    using align_sum_table unfolding list_all_iff by auto
  let ?c = "cornerCover (sizeOf version)" and ?t = "timingCover (sizeOf version)" and ?a = "alignCover (alignPos version)"
  have "card (functionCover version) \<le> card ?c + card ?t + card ?a + card (versionCover version)"
    unfolding functionCover_def
    using card_Un_le [of "?c \<union> ?t \<union> ?a" "versionCover version"] card_Un_le [of "?c \<union> ?t" ?a] card_Un_le [of ?c ?t] by linarith
  then have "int (card (functionCover version)) \<le> 225 + 2 * (sizeOf version - 17)
      + (if ?n = 0 then 0 else (25 * int ?n - 10) * int ?n - 55) + (if version < 7 then 0 else 36)"
  proof -
    have "int (card ?c) \<le> 225" using card_cornerCover [of "sizeOf version"] by linarith
    moreover have "int (card ?t) \<le> 2 * (sizeOf version - 17)" by (rule card_timingCover) simp
    moreover have "int (card ?a) \<le> (if ?n = 0 then 0 else (25 * int ?n - 10) * int ?n - 55)"
      using card_alignCover [OF v] unfolding align [symmetric] by (simp only: of_nat_le_iff)
    moreover have "int (card (versionCover version)) \<le> (if version < 7 then 0 else 36)"
      using card_versionCover [of version] by (auto split: if_splits)
    ultimately show ?thesis using \<open>card (functionCover version) \<le> _\<close> by linarith
  qed
  then show ?thesis
    using n v by (auto simp: getNumRawDataModules_def Let_def zdiv_int algebra_simps split: if_splits)
qed

lemma finite_functionCover: "finite (functionCover version)"
  by (auto simp: functionCover_def cornerCover_def timingCover_def alignCover_def versionCover_def)

text \<open>So every module the formula counts is free when the code words are placed.\<close>

lemma freeCells_unmasked:
  assumes v: "1 \<le> version" "version \<le> 40"
  shows "getNumRawDataModules version \<le> int (length (freeCells (painted (functionWrites version ecl) (blank version ecl))))"
proof -
  let ?q = "painted (functionWrites version ecl) (blank version ecl)" and ?sz = "sizeOf version"
  have isF: "cell (qr_isFunction ?q) x y \<longleftrightarrow> (x, y) \<in> cellsOf (functionWrites version ecl)" if "inside ?sz x y" for x y
    using isFunction_unmasked [OF v that, of ecl "[]"] by (simp add: unmasked_def)
  have all: "{(x, y). inside ?sz x y} = rect 0 (?sz - 1) 0 (?sz - 1)" by (auto simp: inside_def rect_def)
  have six: "(6, y) \<in> cellsOf (functionWrites version ecl)" if "inside ?sz 6 y" for y
  proof -
    have "(6, y, y mod 2 = 0) \<in> set (timingWrites ?sz)" using that by (force simp: timingWrites_def inside_def)
    then have "(6, y, y mod 2 = 0) \<in> set (functionWrites version ecl)" by (simp add: functionWrites_def)
    then show ?thesis by force
  qed
  have "rect 0 (?sz - 1) 0 (?sz - 1) - functionCover version \<subseteq> set (freeCells ?q)"
  proof
    fix p assume p: "p \<in> rect 0 (?sz - 1) 0 (?sz - 1) - functionCover version"
    obtain x y where xy: "p = (x, y)" by (cases p)
    have ins: "inside ?sz x y" using p xy all by auto
    have "(x, y) \<notin> cellsOf (functionWrites version ecl)" using p xy function_covered [OF v, of ecl] by blast
    moreover from this have "x \<noteq> 6" using six [of y] ins by auto
    ultimately show "p \<in> set (freeCells ?q)"
      using freeCells_facts(2) [OF wf_patterns [OF v, of ecl]] ins isF [OF ins] xy by simp
  qed
  then have "card (rect 0 (?sz - 1) 0 (?sz - 1) - functionCover version) \<le> card (set (freeCells ?q))"
    by (rule card_mono [rotated]) simp
  also have "card (set (freeCells ?q)) = length (freeCells ?q)"
    by (rule distinct_card [OF freeCells_facts(1) [OF wf_patterns [OF v]]])
  finally have "card (rect 0 (?sz - 1) 0 (?sz - 1)) \<le> length (freeCells ?q) + card (functionCover version)"
    using diff_card_le_card_Diff [OF finite_functionCover [of version], of "rect 0 (?sz - 1) 0 (?sz - 1)"] by linarith
  moreover have "int (card (rect 0 (?sz - 1) 0 (?sz - 1))) = ?sz * ?sz" by (simp add: card_rect algebra_simps)
  ultimately show ?thesis using card_functionCover [OF v] by linarith
qed

section \<open>Properties\<close>

text \<open>\<^bold>\<open>C25.\<close> The capacity formula is honest: for every version and level, the modules that
  \<^verbatim>\<open>drawFunctionPatterns\<close> leaves unmarked along the scan are at least the number
  \<^verbatim>\<open>getNumRawDataModules\<close> computes, so all code words of the symbol are placed.\<close>

theorem capacity_formula:
  assumes "1 \<le> version" and "version \<le> 40"
  shows "\<exists>q. drawFunctionPatterns (blank version ecl) = Inr q \<and> wf_qr q
    \<and> getNumRawDataModules version \<le> int (length (freeCells q))"
  using drawFunctionPatterns_painted [OF wf_blank] wf_patterns [OF assms] freeCells_unmasked [OF assms] assms
  by (intro exI [of _ "painted (functionWrites version ecl) (blank version ecl)"]) simp

theorem capacity_formula_witness:
  "\<exists>q. drawFunctionPatterns (blank 7 LOW) = Inr q \<and> 1568 \<le> int (length (freeCells q))"
proof -
  have "getNumRawDataModules 7 = 1568" by code_simp
  then show ?thesis using capacity_formula [of 7 LOW] by auto
qed

end
