(* ===== verification/Qr_Reader.thy ===== *)
theory Qr_Reader
  imports Qr_Api Qr_Capacity
begin

unbundle bit_operations_syntax

text \<open>
  A reader of finished symbols, the specification of what \<^verbatim>\<open>webui/qr.js\<close> has to produce: it
  sees nothing but the grid of modules, takes the version from its side, level and mask from the
  first copy of the format bits, unmasks the data area along the scan, undoes the interleaving and
  reads the byte-mode payload. The round trip says that every text the encoder accepts comes back
  as its UTF-8 bytes.
\<close>

section \<open>The reader\<close>

definition formatPositions :: "(int \<times> int) list" where
  "formatPositions = map (\<lambda>i. (8, int i)) [0..<6] @ [(8, 7), (8, 8), (7, 8)] @ map (\<lambda>i. (14 - int i, 8)) [9..<15]"

definition formatChoices :: "(Ecc \<times> int) list" where
  "formatChoices = [(ecl, m). ecl \<leftarrow> all_levels, m \<leftarrow> [0..7]]"

definition formatBitsOf :: "Ecc \<times> int \<Rightarrow> bool list" where
  "formatBitsOf c = map (getBit (formatInfo (fst c) (word_of_int (snd c)))) [0..<15]"

definition readFormat :: "bool list list \<Rightarrow> (Ecc \<times> int) option" where
  "readFormat g = find (\<lambda>c. formatBitsOf c = map (\<lambda>(x, y). cell g x y) formatPositions) formatChoices"

definition readCodewords :: "nat \<Rightarrow> Ecc \<Rightarrow> int \<Rightarrow> bool list list \<Rightarrow> u32 list" where
  "readCodewords version ecl m g =
     (let area = filter (\<lambda>p. p \<notin> cellsOf (functionWrites version ecl)) (scanOrder (sizeOf version));
          bits = map (\<lambda>(x, y). cell g x y \<noteq> (maskInvert m x y = Some True)) area
      in map (\<lambda>k. valueOf (map of_bool (take 8 (drop (8 * k) bits)))) [0..<nat (getNumRawDataModules version div 8)])"

definition readBlocks :: "nat \<Rightarrow> Ecc \<Rightarrow> u32 list \<Rightarrow> u32 list option" where
  "readBlocks version ecl cs =
     (case (numBlocksOf ecl version, eccPerBlock ecl version) of
        (Some n, Some e) \<Rightarrow>
          (let n = nat n; raw = length cs; d = raw div n - nat e; s = n - raw mod n
           in Some (concat (map (blockData n s d cs) [0..<n])))
      | _ \<Rightarrow> None)"

definition readSymbol :: "bool list list \<Rightarrow> u32 list option" where
  "readSymbol g =
     (let version = (length g - 17) div 4
      in case readFormat g of
           None \<Rightarrow> None
         | Some (ecl, m) \<Rightarrow>
             (case readBlocks version ecl (readCodewords version ecl m g) of
                None \<Rightarrow> None
              | Some data \<Rightarrow> readPayload version data))"

section \<open>Format bits\<close>

text \<open>Any two of the 32 format words differ in at least seven of their fifteen bits, so up to three
  misread modules can be corrected.\<close>

definition hamming :: "bool list \<Rightarrow> bool list \<Rightarrow> nat" where
  "hamming a b = length (filter (\<lambda>(x, y). x \<noteq> y) (zip a b))"

text \<open>The same words computed with integers, which the simplifier evaluates much faster; \<open>bchRun\<close>
  checks that no step leaves the range in which the two agree.\<close>

fun bchRun :: "nat \<Rightarrow> nat \<Rightarrow> int \<Rightarrow> int \<Rightarrow> int option" where
  "bchRun 0 hi p r = Some r"
| "bchRun (Suc n) hi p r =
     (if 0 \<le> r \<and> r < 4294967296 then bchRun n hi p ((2 * r) XOR ((r div 2 ^ hi) * p)) else None)"

fun formatBitsInt :: "Ecc \<Rightarrow> int" where
  "formatBitsInt LOW = 1"
| "formatBitsInt MEDIUM = 0"
| "formatBitsInt QUARTILE = 3"
| "formatBitsInt HIGH = 2"

definition formatInt :: "Ecc \<times> int \<Rightarrow> bool list option" where
  "formatInt c =
     (let data = (8 * formatBitsInt (fst c)) OR snd c
      in map_option (\<lambda>r. map (\<lambda>i. odd ((((1024 * data) OR r) XOR 0x5412) div 2 ^ i)) [0..<15]) (bchRun 10 9 0x537 data))"

lemma getBit_bit: "i < 32 \<Longrightarrow> getBit w i \<longleftrightarrow> bit w i"
  by (simp add: getBit_def shr_def and_one_eq bit_iff_odd_drop_bit odd_iff_mod_2_eq_one)

lemma bchRun_word:
  assumes "hi < 32"
  shows "bchRun n hi p r = Some r' \<Longrightarrow> (bchStep hi (word_of_int p) ^^ n) (word_of_int r) = word_of_int r'"
proof (induction n arbitrary: r)
  case (Suc n)
  let ?r = "(2 * r) XOR ((r div 2 ^ hi) * p)"
  from Suc.prems have r: "0 \<le> r" "r < 4294967296" "bchRun n hi p ?r = Some r'" by (auto split: if_splits)
  have small: "uint (word_of_int k :: u32) = k" if "0 \<le> k" "k \<le> r" for k
    using r that by (simp add: uint_word_of_int)
  have "0 \<le> r div 2 ^ hi" "r div 2 ^ hi \<le> r" using r(1) zdiv_mono2 [of r 1 "2 ^ hi"] by (simp_all add: pos_imp_zdiv_nonneg_iff)
  then have "shr (word_of_int r) hi = word_of_int (r div 2 ^ hi)"
  proof -
    have "uint (drop_bit hi (word_of_int r :: u32)) = drop_bit hi r"
      unfolding unsigned_drop_bit_eq using small [of r] r(1,2) by (simp add: take_bit_int_eq_self)
    then show ?thesis
      using \<open>0 \<le> r div 2 ^ hi\<close> \<open>r div 2 ^ hi \<le> r\<close> assms small [of "r div 2 ^ hi"]
      by (simp only: shr_def word_uint_eq_iff drop_bit_eq_div mod_less)
  qed
  moreover have "shl (word_of_int r) 1 = word_of_int (2 * r)" by (simp add: shl_def push_bit_eq_mult)
  ultimately have "bchStep hi (word_of_int p) (word_of_int r) = word_of_int ?r"
    by (simp add: bchStep_def of_int_xor_eq)
  then show ?case using Suc.IH [OF r(3)] by (simp add: funpow_swap1)
qed simp

lemma formatInt_word: "formatInt c = Some bits \<Longrightarrow> formatBitsOf c = bits"
proof -
  let ?data = "(8 * formatBitsInt (fst c)) OR snd c"
  assume "formatInt c = Some bits"
  then obtain r where r: "bchRun 10 9 0x537 ?data = Some r"
    and bits: "bits = map (\<lambda>i. odd ((((1024 * ?data) OR r) XOR 0x5412) div 2 ^ i)) [0..<15]"
    by (auto simp: formatInt_def Let_def)
  have "formatBits (fst c) = word_of_int (formatBitsInt (fst c))" by (cases "fst c") simp_all
  then have data: "shl (formatBits (fst c)) 3 OR word_of_int (snd c) = word_of_int ?data"
    by (simp add: shl_def push_bit_eq_mult of_int_or_eq mult.commute)
  have "shl (word_of_int ?data) 10 = word_of_int (1024 * ?data)" by (simp add: shl_def push_bit_eq_mult mult.commute)
  then have "formatInfo (fst c) (word_of_int (snd c)) = word_of_int (((1024 * ?data) OR r) XOR 0x5412)"
    using bchRun_word [OF _ r] by (simp add: formatInfo_def data of_int_or_eq of_int_xor_eq)
  then show ?thesis
    unfolding formatBitsOf_def bits
    by (auto simp: getBit_bit bit_word_of_int_iff simp flip: bit_iff_odd)
qed

lemma format_distance_table:
  "(let ws = map (\<lambda>c. (c, formatInt c)) formatChoices
    in list_all (\<lambda>(c, a). list_all (\<lambda>(c', a'). c = c' \<or>
         (case (a, a') of (Some b, Some b') \<Rightarrow> 7 \<le> hamming b b' | _ \<Rightarrow> False)) ws) ws)"
  by code_simp

lemma formatBitsOf_distance:
  assumes "c \<in> set formatChoices" and "c' \<in> set formatChoices" and "c \<noteq> c'"
  shows "7 \<le> hamming (formatBitsOf c) (formatBitsOf c')"
proof -
  have "case (formatInt c, formatInt c') of (Some b, Some b') \<Rightarrow> 7 \<le> hamming b b' | _ \<Rightarrow> False"
    using format_distance_table assms unfolding Let_def list_all_iff by auto
  then show ?thesis using formatInt_word [of c] formatInt_word [of c'] by (auto split: option.splits)
qed

lemma formatChoices_complete: "(ecl, m) \<in> set formatChoices \<longleftrightarrow> 0 \<le> m \<and> m \<le> 7"
proof -
  have "set formatChoices = set all_levels \<times> {0..7}" unfolding formatChoices_def by auto
  then show ?thesis using in_all_levels by auto
qed

lemma hamming_refl: "hamming a a = 0"
  by (induction a) (auto simp: hamming_def)

lemma formatBitsOf_inj:
  assumes "c \<in> set formatChoices" and "c' \<in> set formatChoices" and "formatBitsOf c = formatBitsOf c'"
  shows "c = c'"
  using formatBitsOf_distance [OF assms(1,2)] assms(3) hamming_refl [of "formatBitsOf c'"] by force

lemma distinct_formatWrites: "21 \<le> sz \<Longrightarrow> distinct (map (\<lambda>(x, y, v). (x, y)) (formatWrites sz bits))"
  by (auto simp: formatWrites_def distinct_map inj_on_def)

lemma formatted_reads:
  assumes "reserved q" and "square (qr_size q) g"
  shows "map (\<lambda>(x, y). cell (formatted m q g) x y) formatPositions = formatBitsOf (qr_ecl q, m)"
proof -
  let ?bits = "formatInfo (qr_ecl q) (word_of_int m)"
  have val: "cell (formatted m q g) x y = v" if "(x, y, v) \<in> set (formatWrites (qr_size q) ?bits)" for x y v
    unfolding formatted_def
    using cell_paint_distinct(1) [OF assms(2) reservedD(4) [OF assms(1)] distinct_formatWrites] that
      reservedD(3) [OF assms(1)] by blast
  let ?ws = "take 15 (formatWrites (qr_size q) ?bits)"
  have pos: "formatPositions = map (\<lambda>(x, y, v). (x, y)) ?ws" and bits: "formatBitsOf (qr_ecl q, m) = map (\<lambda>(x, y, v). v) ?ws"
    by (simp_all add: formatPositions_def formatBitsOf_def formatWrites_def numeral_eq_Suc upt_rec)
  show ?thesis unfolding pos bits by (auto dest!: in_set_takeD simp: val)
qed

lemma readFormat_final:
  assumes "reserved q" and "0 \<le> m" and "m \<le> 7"
  shows "readFormat (finalModules m q) = Some (qr_ecl q, m)"
proof -
  let ?P = "\<lambda>c. formatBitsOf c = formatBitsOf (qr_ecl q, m)"
  have "readFormat (finalModules m q) = find ?P formatChoices"
    using formatted_reads [OF assms(1) square_maskGrid [OF reservedD(1) [OF assms(1)]], of m m]
    by (simp add: readFormat_def finalModules_def)
  moreover have mem: "(qr_ecl q, m) \<in> set formatChoices" using assms by (simp add: formatChoices_complete)
  moreover obtain c where c: "find ?P formatChoices = Some c"
    using mem by (cases "find ?P formatChoices") (auto simp: find_None_iff)
  moreover from c have "c \<in> set formatChoices" "?P c" by (auto simp: find_Some_iff)
  ultimately show ?thesis using formatBitsOf_inj [of c "(qr_ecl q, m)"] by simp
qed

section \<open>The data area\<close>

lemma cell_final_free:
  assumes "reserved q" and "inside (qr_size q) x y" and "\<not> cell (qr_isFunction q) x y"
  shows "cell (finalModules m q) x y = (cell (qr_modules q) x y \<noteq> (maskInvert m x y = Some True))"
proof -
  have "(x, y) \<notin> formatCells (qr_size q)" using assms(1,3) by (auto simp: reserved_def)
  then have "cell (finalModules m q) x y = cell (maskGrid m q) x y"
    using cell_paint_outside [OF square_maskGrid [OF reservedD(1) [OF assms(1)]] reservedD(4) [OF assms(1)] assms(2)]
    by (simp add: finalModules_def formatted_def formatWrites_cells)
  then show ?thesis using cell_maskGrid [OF assms(2)] assms(3) by simp
qed

lemma dataBits_byte:
  assumes "is_byte (cs ! k)" and "k < length cs"
  shows "valueOf (map of_bool (take 8 (drop (8 * k) (map (dataBit cs) [0..<length cs * 8])))) = cs ! k"
proof -
  have "take 8 (drop (8 * k) (map (dataBit cs) [0..<length cs * 8])) = map (dataBit cs) [8 * k..<8 * k + 8]"
    using assms(2) by (simp add: drop_map take_map take_upt)
  also have "\<dots> = map (\<lambda>i. dataBit cs (8 * k + i)) [0..<8]"
    by (simp add: map_add_upt [symmetric] add.commute)
  finally have "map of_bool (take 8 (drop (8 * k) (map (dataBit cs) [0..<length cs * 8])))
      = map (\<lambda>i. of_bool (getBit (cs ! k) (7 - i))) [0..<8]"
    by (simp add: dataBit_def)
  also have "\<dots> = bitsOf 8 (cs ! k)"
  proof -
    have "of_bool (getBit (cs ! k) i) = shr (cs ! k) i AND 1" for i
      by (auto simp: getBit_def and_one_eq)
    then show ?thesis by (simp add: bitsOf_def numeral_eq_Suc)
  qed
  finally show ?thesis using assms(1) valueOf_bitsOf [of 8 "cs ! k"] by (simp add: is_byte_def)
qed

lemma readCodewords_final:
  assumes v: "1 \<le> version" "version \<le> 40" and bytes: "\<forall>b \<in> set cs. is_byte b"
    and len: "int (length cs) = getNumRawDataModules version div 8"
  shows "readCodewords version ecl m (finalModules m (unmasked version ecl cs)) = cs"
proof -
  let ?b = "painted (functionWrites version ecl) (blank version ecl)" and ?q = "unmasked version ecl cs"
  have r: "reserved ?q" by (rule reserved_unmasked [OF v])
  have isF: "cell (qr_isFunction ?b) x y \<longleftrightarrow> (x, y) \<in> cellsOf (functionWrites version ecl)" if "inside (sizeOf version) x y" for x y
    using isFunction_unmasked [OF v that, of ecl cs] by (simp add: unmasked_def)
  have area: "filter (\<lambda>p. p \<notin> cellsOf (functionWrites version ecl)) (scanOrder (sizeOf version)) = freeCells ?b"
  proof -
    have "p \<notin> cellsOf (functionWrites version ecl) \<longleftrightarrow> (case p of (x, y) \<Rightarrow> \<not> cell (qr_isFunction ?b) x y)"
      if "p \<in> set (scanOrder (sizeOf version))" for p
    proof -
      obtain x y where p: "p = (x, y)" by (cases p)
      then have "inside (sizeOf version) x y" using that set_scanOrder [of version] by simp
      from isF [OF this] show ?thesis by (simp only: p prod.case)
    qed
    then show ?thesis unfolding freeCells_def painted_fields blank_fields by (rule filter_cong [OF refl])
  qed
  have free: "cell (finalModules m ?q) x y \<noteq> (maskInvert m x y = Some True) \<longleftrightarrow> cell (qr_modules ?q) x y"
    if "(x, y) \<in> set (freeCells ?b)" for x y
  proof -
    have "inside (sizeOf version) x y" "\<not> cell (qr_isFunction ?q) x y"
      using that freeCells_facts(2) [OF wf_patterns [OF v, of ecl]] by (auto simp: unmasked_def)
    then show ?thesis using cell_final_free [OF r, of x y m] by auto
  qed
  define bits where "bits = map (\<lambda>(x, y). cell (finalModules m ?q) x y \<noteq> (maskInvert m x y = Some True)) (freeCells ?b)"
  have bits: "bits = readBits (placed cs ?b) (freeCells ?b)"
    unfolding bits_def readBits_def using free by (auto simp: unmasked_def)
  have "length cs * 8 \<le> length (freeCells ?b)"
    using freeCells_unmasked [OF v, of ecl] len by linarith
  then have pre: "take (length cs * 8) bits = map (dataBit cs) [0..<length cs * 8]"
    using readBits_placed [OF wf_patterns [OF v]] bits by simp
  have chunk: "take 8 (drop (8 * k) bits) = take 8 (drop (8 * k) (take (length cs * 8) bits))" if "k < length cs" for k
    using that by (simp add: drop_take min_def)
  have "readCodewords version ecl m (finalModules m ?q) = map (\<lambda>k. valueOf (map of_bool (take 8 (drop (8 * k) bits)))) [0..<length cs]"
    using len unfolding readCodewords_def Let_def area bits_def [symmetric] by (simp flip: len)
  also have "\<dots> = map (\<lambda>k. cs ! k) [0..<length cs]"
    using bytes by (intro map_cong) (simp_all add: chunk pre dataBits_byte del: valueOf.simps)
  finally show ?thesis by (simp add: map_nth)
qed

section \<open>The round trip\<close>

lemma readSymbol_finished:
  assumes v: "1 \<le> version" "version \<le> 40" and m: "0 \<le> m" "m \<le> 7" and bytes: "\<forall>b \<in> set data. is_byte b"
    and len: "getNumDataCodewords version ecl = Some (int (length data))"
    and cs: "addEccAndInterleave version ecl data = Inr cs"
  shows "readSymbol (qr_modules (finished version ecl cs m)) = readPayload version data"
proof -
  let ?q = "unmasked version ecl cs" and ?g = "finalModules m (unmasked version ecl cs)"
  have r: "reserved ?q" by (rule reserved_unmasked [OF v])
  have "square (sizeOf version) ?g"
    using square_formatted [OF r square_maskGrid [OF reservedD(1) [OF r]]] by (simp add: finalModules_def)
  then have side: "(length ?g - 17) div 4 = version" by (auto simp: square_def)
  have fmt: "readFormat ?g = Some (ecl, m)" using readFormat_final [OF r m] by simp
  from addEccAndInterleave_ok [OF v bytes len] obtain n e d s cs' where
    o: "addEccAndInterleave version ecl data = Inr cs'"
    "numBlocksOf ecl version = Some (int n)" "eccPerBlock ecl version = Some (int e)"
    "d = nat (getNumRawDataModules version div 8) div n - e" "s = n - nat (getNumRawDataModules version div 8) mod n"
    "int (length cs') = getNumRawDataModules version div 8" "\<forall>b \<in> set cs'. is_byte b"
    "concat (map (blockData n s d cs') [0..<n]) = data"
    by metis
  have cs': "cs' = cs" using o(1) cs by simp
  have "length cs = nat (getNumRawDataModules version div 8)" using o(6) by (simp add: cs')
  then have "readBlocks version ecl cs = Some data"
    using o(2-5,8) by (simp add: readBlocks_def cs' Let_def)
  then show ?thesis
    using readCodewords_final [OF v, of cs ecl m] o(6,7) fmt side
    by (simp add: readSymbol_def finished_def cs' Let_def)
qed

lemma encodeText_ok:
  assumes "codePoints text = Some cps" and "\<forall>c \<in> set text. c < 65536"
    and "int (length (utf8Bytes cps)) \<le> byteCapacity ecl"
  obtains version ecl' data cs m where "encodeText text ecl = Inr (finished version ecl' cs m)"
    "1 \<le> version" "version \<le> 40" "0 \<le> m" "m \<le> 7" "ordinal ecl \<le> ordinal ecl'"
    "addEccAndInterleave version ecl' data = Inr cs" "\<forall>b \<in> set data. is_byte b"
    "getNumDataCodewords version ecl' = Some (int (length data))"
    "readPayload version data = Some (utf8Bytes cps)"
    "int (length (utf8Bytes cps)) \<le> roomFor version ecl"
    "\<forall>v. 1 \<le> v \<longrightarrow> v < version \<longrightarrow> roomFor v ecl < int (length (utf8Bytes cps))"
proof -
  let ?bytes = "utf8Bytes cps"
  have bytes: "\<forall>b \<in> set ?bytes. shr b 8 = 0" using utf8Bytes_bytes [OF assms(1,2)] by (simp only: is_byte_def)
  from encodePayload_ok [OF bytes assms(3), of True] obtain version ecl' data where
    p: "encodePayload [byteSegment ?bytes] ecl MIN_VERSION MAX_VERSION True = Inr (version, ecl', data)"
    "1 \<le> version" "version \<le> 40" "ordinal ecl \<le> ordinal ecl'" "int (length ?bytes) \<le> roomFor version ecl"
    "\<forall>v. 1 \<le> v \<longrightarrow> v < version \<longrightarrow> roomFor v ecl < int (length ?bytes)"
    "getNumDataCodewords version ecl' = Some (int (length data))" "\<forall>c \<in> set data. shr c 8 = 0"
    "readPayload version data = Some ?bytes"
    by blast
  have db: "\<forall>b \<in> set data. is_byte b" using p(8) by (simp add: is_byte_def)
  obtain cs where cs: "addEccAndInterleave version ecl' data = Inr cs"
    using addEccAndInterleave_ok [OF p(2,3) db p(7)] by metis
  obtain m where m: "newQrCode version ecl' data (- 1) = Inr (finished version ecl' cs m)" "0 \<le> m" "m \<le> 7"
    using newQrCode_auto [OF p(2,3) cs] by metis
  have "encodeText text ecl = Inr (finished version ecl' cs m)"
    using toUtf8Bytes_result [OF assms(2)] assms(1) makeBytes_ok [OF bytes] p(1) m(1)
    by (simp add: encodeText_def encodeSegments_def)
  then show thesis using that m p cs db by blast
qed

section \<open>Properties\<close>

text \<open>\<^bold>\<open>C1.\<close> End to end: a text without lone surrogates whose UTF-8 bytes fit into the largest
  symbol of the requested level is encoded, and reading the modules of the symbol (format, unmasking,
  scan, de-interleaving, payload) gives back exactly its UTF-8 bytes. The version is the smallest
  that has room, the level is at least the requested one, and the mask is one of the eight.\<close>

theorem encodeText_roundtrip:
  assumes "codePoints text = Some cps" and "\<forall>c \<in> set text. c < 65536"
    and "int (length (utf8Bytes cps)) \<le> byteCapacity ecl"
  shows "\<exists>q m. encodeText text ecl = Inr q \<and> readSymbol (qr_modules q) = Some (utf8Bytes cps)
    \<and> qr_size q = int (qr_version q) * 4 + 17 \<and> square (qr_size q) (qr_modules q)
    \<and> qr_mask q = Some m \<and> 0 \<le> m \<and> m \<le> 7 \<and> ordinal ecl \<le> ordinal (qr_ecl q)
    \<and> int (length (utf8Bytes cps)) \<le> roomFor (qr_version q) ecl
    \<and> (\<forall>v. 1 \<le> v \<longrightarrow> v < qr_version q \<longrightarrow> roomFor v ecl < int (length (utf8Bytes cps)))"
proof -
  from encodeText_ok [OF assms] obtain version ecl' data cs m where
    e: "encodeText text ecl = Inr (finished version ecl' cs m)" and v: "1 \<le> version" "version \<le> 40"
    and m: "0 \<le> m" "m \<le> 7" and lvl: "ordinal ecl \<le> ordinal ecl'"
    and cs: "addEccAndInterleave version ecl' data = Inr cs" and b: "\<forall>b \<in> set data. is_byte b"
    and len: "getNumDataCodewords version ecl' = Some (int (length data))"
    and p: "readPayload version data = Some (utf8Bytes cps)"
    and room: "int (length (utf8Bytes cps)) \<le> roomFor version ecl"
      "\<forall>v. 1 \<le> v \<longrightarrow> v < version \<longrightarrow> roomFor v ecl < int (length (utf8Bytes cps))"
    by metis
  have r: "reserved (unmasked version ecl' cs)" by (rule reserved_unmasked [OF v])
  have "square (sizeOf version) (finalModules m (unmasked version ecl' cs))"
    using square_formatted [OF r square_maskGrid [OF reservedD(1) [OF r]]] by (simp add: finalModules_def)
  then show ?thesis
    using e readSymbol_finished [OF v m b len cs] p lvl room m
    by (intro exI [of _ "finished version ecl' cs m"] exI [of _ m]) (simp add: finished_def)
qed

theorem encodeText_roundtrip_witness:
  "\<exists>q m. encodeText [111, 98, 120, 8364] MEDIUM = Inr q
    \<and> readSymbol (qr_modules q) = Some [111, 98, 120, 0xE2, 0x82, 0xAC] \<and> qr_mask q = Some m"
  using encodeText_roundtrip [of "[111, 98, 120, 8364]" "[111, 98, 120, 8364]" MEDIUM]
  by (auto simp: is_high_def is_low_def utf8_def byteCapacity_def)

text \<open>\<^bold>\<open>C26.\<close> The two ways the encoder refuses a text: a lone surrogate is the \<^verbatim>\<open>URIError\<close> of
  \<^verbatim>\<open>encodeURI\<close>, and more bytes than version 40 holds at the requested level is the
  \<^verbatim>\<open>RangeError\<close> of \<^verbatim>\<open>encodeSegments\<close>.\<close>

theorem encodeText_errors:
  assumes "\<forall>c \<in> set text. c < 65536"
  shows "(codePoints text = None \<longrightarrow> encodeText text ecl = Inl (URIError ''URI malformed''))
    \<and> (codePoints text = Some cps \<longrightarrow> byteCapacity ecl < int (length (utf8Bytes cps)) \<longrightarrow>
      encodeText text ecl = Inl (RangeError ''Data too long''))"
proof
  show "codePoints text = None \<longrightarrow> encodeText text ecl = Inl (URIError ''URI malformed'')"
    using toUtf8Bytes_result [OF assms] by (simp add: encodeText_def)
  show "codePoints text = Some cps \<longrightarrow> byteCapacity ecl < int (length (utf8Bytes cps)) \<longrightarrow>
      encodeText text ecl = Inl (RangeError ''Data too long'')"
  proof (intro impI)
    assume cps: "codePoints text = Some cps" and long: "byteCapacity ecl < int (length (utf8Bytes cps))"
    have "\<forall>b \<in> set (utf8Bytes cps). shr b 8 = 0" using utf8Bytes_bytes [OF cps assms] by (simp only: is_byte_def)
    then show "encodeText text ecl = Inl (RangeError ''Data too long'')"
      using toUtf8Bytes_result [OF assms] cps makeBytes_ok encodePayload_too_long [OF long, of True]
      by (simp add: encodeText_def encodeSegments_def)
  qed
qed

theorem encodeText_errors_witness:
  "encodeText [65, 0xD800] LOW = Inl (URIError ''URI malformed'')
   \<and> encodeText (replicate 1274 65) HIGH = Inl (RangeError ''Data too long'')"
proof
  show "encodeText [65, 0xD800] LOW = Inl (URIError ''URI malformed'')"
    using encodeText_errors [of "[65, 0xD800]" LOW "[]"] by (simp add: is_low_def is_high_def)
  have "codePoints (replicate 1274 65) = Some (replicate 1274 65)" by (rule codePoints_plain) simp
  moreover have "length (utf8Bytes (replicate 1274 65)) = 1274"
    by (simp add: utf8_def length_concat sum_list_replicate)
  ultimately show "encodeText (replicate 1274 65) HIGH = Inl (RangeError ''Data too long'')"
    using encodeText_errors [of "replicate 1274 65" HIGH "replicate 1274 65"] by (simp only: byteCapacity_def) simp
qed

text \<open>Any two of the 32 format words of \<^verbatim>\<open>drawFormatBits\<close> differ in at least seven of
  their fifteen modules, and level and mask read back from the first copy on a finished symbol.\<close>

theorem format_words_distance:
  assumes "(ecl, m) \<in> set formatChoices" and "(ecl', m') \<in> set formatChoices" and "(ecl, m) \<noteq> (ecl', m')"
  shows "7 \<le> hamming (map (getBit (formatInfo ecl (word_of_int m))) [0..<15])
    (map (getBit (formatInfo ecl' (word_of_int m'))) [0..<15])"
  using formatBitsOf_distance [OF assms] by (simp add: formatBitsOf_def)

lemma generate_ok:
  assumes "codePoints text = Some cps" and "\<forall>c \<in> set text. c < 65536"
    and "int (length (utf8Bytes cps)) \<le> byteCapacity MEDIUM"
  shows "\<exists>matrix. generate text (Some ''M'') = Inr matrix"
proof -
  obtain q where "encodeText text MEDIUM = Inr q" using encodeText_ok [OF assms] by metis
  then show ?thesis by (simp add: generate_def ECC_MAP_def inheritedNames_def)
qed

text \<open>\<^bold>\<open>C28.\<close> Rendering: the canvas becomes a square of \<open>px\<close> pixels per module with a margin of
  \<open>quiet\<close> modules, no rectangle leaves it, it is not larger than the requested size when that has
  room for one pixel per module, and the colour of every pixel is that of the module under it, the
  light colour in the margin.\<close>

theorem render_pixels:
  assumes gen: "generate text (Some (or_string (opt_level options) ''M'')) = Inr matrix"
    and quiet: "opt_quiet options = Some quiet" "0 \<le> quiet" and size: "opt_size options = Some sz" and "sz \<noteq> 0"
  shows "\<exists>ops px side. render canvas text options = Inr (\<lparr>cv_width = side, cv_height = side, cv_ops = ops\<rparr>, (length matrix, px))
    \<and> 1 \<le> px \<and> side = px * (int (length matrix) + quiet * 2) \<and> (int (length matrix) + quiet * 2 \<le> sz \<longrightarrow> side \<le> sz)
    \<and> (\<forall>r \<in> set ops. rect_inside side r)
    \<and> (\<forall>i j. 0 \<le> i \<and> i < side \<and> 0 \<le> j \<and> j < side \<longrightarrow> pixel ops '''' None i j =
        Some (if \<exists>x<length matrix. \<exists>y<length matrix. matrix ! y ! x \<noteq> 0 \<and> int x = i div px - quiet \<and> int y = j div px - quiet
              then or_string (opt_dark options) ''#000000'' else or_string (opt_light options) ''#ffffff''))"
proof -
  let ?n = "length matrix"
  define total where "total = int ?n + quiet * 2"
  define px where "px = max 1 (sz div total)"
  define side where "side = px * total"
  define ops where "ops = [FillStyle (or_string (opt_light options) ''#ffffff''), FillRect 0 0 side side,
    FillStyle (or_string (opt_dark options) ''#000000'')] @ map (\<lambda>(x, y, w, h). FillRect x y w h) (moduleRects matrix quiet px)"
  have px: "0 < px" by (simp add: px_def)
  have run: "render canvas text options = Inr (\<lparr>cv_width = side, cv_height = side, cv_ops = ops\<rparr>, (?n, px))"
    using assms(5)
    by (simp only: render_def Let_def moduleRects_ops gen bindR.simps quiet(1) size option.case)
      (simp add: or_number_def ops_def side_def px_def total_def)
  have "0 \<le> side" using quiet(2) px by (simp add: side_def total_def)
  then have ins: "\<forall>r \<in> set ops. rect_inside side r"
    using moduleRects_inside [OF px quiet(2)] by (auto simp: ops_def side_def total_def)
  have fits: "total \<le> sz \<longrightarrow> side \<le> sz"
  proof
    assume t: "total \<le> sz"
    show "side \<le> sz"
    proof (cases "total \<le> 0")
      case True
      then have "total = 0" using quiet(2) by (simp add: total_def)
      then show ?thesis using t by (simp add: side_def)
    next
      case False
      then have "1 \<le> sz div total" using t by (simp add: pos_imp_zdiv_pos_iff int_one_le_iff_zero_less)
      then have "side = sz - sz mod total" by (simp add: side_def px_def minus_mod_eq_div_mult)
      then show ?thesis using False by simp
    qed
  qed
  have hit: "pixel ops '''' None i j =
      Some (if \<exists>x<?n. \<exists>y<?n. matrix ! y ! x \<noteq> 0 \<and> int x = i div px - quiet \<and> int y = j div px - quiet
            then or_string (opt_dark options) ''#000000'' else or_string (opt_light options) ''#ffffff'')"
    if "0 \<le> i" "i < side" "0 \<le> j" "j < side" for i j
    using that unfolding ops_def append_Cons append_Nil pixel.simps pixel_rects moduleRects_hit [OF px] by (auto dest: gr_implies_not0)
  show ?thesis
    by (intro exI [of _ ops] exI [of _ px] exI [of _ side] conjI allI impI)
      (use run px ins fits hit in \<open>auto simp: side_def total_def\<close>)
qed

theorem render_pixels_witness:
  "\<exists>ops px side n. render \<lparr>cv_width = 0, cv_height = 0, cv_ops = []\<rparr> [111, 98, 120]
      \<lparr>opt_level = Some ''M'', opt_quiet = Some 3, opt_size = Some 200, opt_light = None, opt_dark = None\<rparr>
    = Inr (\<lparr>cv_width = side, cv_height = side, cv_ops = ops\<rparr>, (n, px)) \<and> side = px * (int n + 6)
    \<and> (\<forall>r \<in> set ops. rect_inside side r)"
proof -
  obtain matrix where "generate [111, 98, 120] (Some ''M'') = Inr matrix"
    using generate_ok [of "[111, 98, 120]" "[111, 98, 120]"] by (auto simp: is_high_def is_low_def utf8_def byteCapacity_def)
  then show ?thesis
    using render_pixels [of "[111, 98, 120]" "\<lparr>opt_level = Some ''M'', opt_quiet = Some 3, opt_size = Some 200, opt_light = None, opt_dark = None\<rparr>"
        matrix 3 200 "\<lparr>cv_width = 0, cv_height = 0, cv_ops = []\<rparr>"]
    by (simp add: or_string_def) blast
qed

end
