(* ===== verification/Wallet_Qr.thy ===== *)
theory Wallet_Qr
  imports Qr_Reader
begin

unbundle bit_operations_syntax

text \<open>
  The second QR encoder of the repository, \<^verbatim>\<open>website/qrcodegen.js\<close>, used by the web wallet. It
  has its own Reed-Solomon routines without range checks, another formula for the alignment
  positions, no level boost, no assertions and a simplified penalty. The names of its routines
  carry the prefix \<open>w\<close> where the dashboard's encoder has a routine of the same name. The lemmas
  show that routine by routine it computes what the dashboard's encoder computes, so that the
  same reader reads its symbols.

  The level is the table index 0 to 3, here the datatype \<open>Ecc\<close> through \<open>ordinal\<close>; the symbol is the
  record \<open>QrCode\<close>, where \<^verbatim>\<open>isFunction = null\<close> at the end is the empty grid.
\<close>

section \<open>Reed-Solomon\<close>

definition rsMultiply :: "u32 \<Rightarrow> u32 \<Rightarrow> u32" where
  "rsMultiply x y =
     fold (\<lambda>i z. let z = shl z 1 XOR (shr z 7 * 0x11D) in z XOR ((shr y i AND 1) * x)) (rev [0..<8]) 0 AND 0xFF"

definition rsDivisorStep :: "u32 \<Rightarrow> nat \<Rightarrow> u32 list \<Rightarrow> u32 list" where
  "rsDivisorStep rt j result =
     (let result = result[j := rsMultiply (result ! j) rt]
      in if j + 1 < length result then result[j := result ! j XOR result ! (j + 1)] else result)"

definition rsDivisor :: "nat \<Rightarrow> u32 list" where
  "rsDivisor degree =
     fst (fold (\<lambda>i (result, rt). (fold (rsDivisorStep rt) [0..<length result] result, rsMultiply rt 2))
       [0..<degree] (replicate (degree - 1) 0 @ [1], 1))"

definition rsRemainderStep :: "u32 list \<Rightarrow> u32 \<Rightarrow> u32 list \<Rightarrow> u32 list" where
  "rsRemainderStep divisor b result =
     (let (factor, result) = (case result of [] \<Rightarrow> (b, [0]) | r # rs \<Rightarrow> (b XOR r, rs @ [0]))
      in fold (\<lambda>i result. result[i := result ! i XOR rsMultiply (divisor ! i) factor]) [0..<length divisor] result)"

definition rsRemainder :: "u32 list \<Rightarrow> u32 list \<Rightarrow> u32 list" where
  "rsRemainder data divisor = fold (rsRemainderStep divisor) data (map (\<lambda>_. 0) divisor)"

section \<open>Tables\<close>

definition wECC_CODEWORDS_PER_BLOCK :: "int list list" where
  "wECC_CODEWORDS_PER_BLOCK = [
     [-1, 7, 10, 15, 20, 26, 18, 20, 24, 30, 18, 20, 24, 26, 30, 22, 24, 28, 30, 28, 28, 28, 28, 30, 30, 26, 28, 30, 30, 30, 30, 30, 30, 30, 30, 30, 30, 30, 30, 30, 30],
     [-1, 10, 16, 26, 18, 24, 16, 18, 22, 22, 26, 30, 22, 22, 24, 24, 28, 28, 26, 26, 26, 26, 28, 28, 28, 28, 28, 28, 28, 28, 28, 28, 28, 28, 28, 28, 28, 28, 28, 28, 28],
     [-1, 13, 22, 18, 26, 18, 24, 18, 22, 20, 24, 28, 26, 24, 20, 30, 24, 28, 28, 26, 30, 28, 30, 30, 30, 30, 28, 30, 30, 30, 30, 30, 30, 30, 30, 30, 30, 30, 30, 30, 30],
     [-1, 17, 28, 22, 16, 22, 28, 26, 26, 24, 28, 24, 28, 22, 24, 24, 30, 28, 28, 26, 28, 30, 24, 30, 30, 30, 30, 30, 30, 30, 30, 30, 30, 30, 30, 30, 30, 30, 30, 30, 30]]"

definition ECC_BLOCKS :: "int list list" where
  "ECC_BLOCKS = [
     [-1, 1, 1, 1, 1, 1, 2, 2, 2, 2, 4, 4, 4, 4, 4, 6, 6, 6, 6, 7, 8, 8, 9, 9, 10, 12, 12, 12, 13, 14, 15, 16, 17, 18, 19, 19, 20, 21, 22, 24, 25],
     [-1, 1, 1, 1, 2, 2, 4, 4, 4, 5, 5, 5, 8, 9, 9, 10, 10, 11, 13, 14, 16, 17, 17, 18, 20, 21, 23, 25, 26, 28, 29, 31, 33, 35, 37, 38, 40, 43, 45, 47, 49],
     [-1, 1, 1, 2, 2, 4, 4, 6, 6, 8, 8, 8, 10, 12, 16, 12, 17, 16, 18, 21, 20, 23, 23, 25, 27, 29, 34, 34, 35, 38, 40, 43, 45, 48, 51, 53, 56, 59, 62, 65, 68],
     [-1, 1, 1, 2, 4, 4, 4, 5, 6, 8, 8, 11, 11, 16, 16, 18, 16, 19, 21, 25, 25, 25, 34, 30, 32, 35, 37, 40, 42, 45, 48, 51, 54, 57, 60, 63, 66, 70, 74, 77, 81]]"

definition wGetNumRawDataModules :: "nat \<Rightarrow> int" where
  "wGetNumRawDataModules ver =
     (let v = int ver; result = (16 * v + 128) * v + 64
      in if ver \<ge> 2
         then let numAlign = v div 7 + 2; result = result - ((25 * numAlign - 10) * numAlign - 55)
              in if ver \<ge> 7 then result - 36 else result
         else result)"

definition wGetNumDataCodewords :: "nat \<Rightarrow> Ecc \<Rightarrow> int option" where
  "wGetNumDataCodewords ver ecl =
     (case (arr_get (wECC_CODEWORDS_PER_BLOCK ! ordinal ecl) (int ver), arr_get (ECC_BLOCKS ! ordinal ecl) (int ver)) of
        (Some e, Some n) \<Rightarrow> Some (wGetNumRawDataModules ver div 8 - e * n)
      | _ \<Rightarrow> None)"

section \<open>Drawing\<close>

definition wGetModule :: "QrCode \<Rightarrow> int \<Rightarrow> int \<Rightarrow> bool" where
  "wGetModule q x y \<longleftrightarrow> 0 \<le> x \<and> x < qr_size q \<and> 0 \<le> y \<and> y < qr_size q \<and> cell (qr_modules q) x y"

definition wSetFunctionModule :: "int \<Rightarrow> int \<Rightarrow> bool \<Rightarrow> QrCode \<Rightarrow> QrCode res" where
  "wSetFunctionModule x y isDark q =
     bindR (setCell (qr_modules q) x y isDark) (\<lambda>m.
     bindR (setCell (qr_isFunction q) x y True) (\<lambda>f.
       Inr (q\<lparr>qr_modules := m, qr_isFunction := f\<rparr>)))"

definition wSetAll :: "writes \<Rightarrow> QrCode \<Rightarrow> QrCode res" where
  "wSetAll = forR (\<lambda>(x, y, isDark). wSetFunctionModule x y isDark)"

definition FORMAT_ECC :: "u32 list" where
  "FORMAT_ECC = [1, 0, 3, 2]"

definition wDrawFormatBits :: "int \<Rightarrow> QrCode \<Rightarrow> QrCode res" where
  "wDrawFormatBits msk q =
     (let data = shl (FORMAT_ECC ! ordinal (qr_ecl q)) 3 OR word_of_int msk;
          rem = ((\<lambda>rem. shl rem 1 XOR (shr rem 9 * 0x537)) ^^ 10) data;
          bits = (shl data 10 OR rem) XOR 0x5412;
          bit = (\<lambda>i. shr bits i AND 1 \<noteq> 0);
          sz = qr_size q
      in wSetAll
           (map (\<lambda>i. (8, int i, bit i)) [0..<6]
            @ [(8, 7, bit 6), (8, 8, bit 7), (7, 8, bit 8)]
            @ map (\<lambda>i. (14 - int i, 8, bit i)) [9..<15]
            @ map (\<lambda>i. (sz - 1 - int i, 8, bit i)) [0..<8]
            @ map (\<lambda>i. (8, sz - 15 + int i, bit i)) [8..<15]
            @ [(8, sz - 8, True)]) q)"

definition wDrawVersion :: "QrCode \<Rightarrow> QrCode res" where
  "wDrawVersion q =
     (if qr_version q < 7 then Inr q
      else let rem = ((\<lambda>rem. shl rem 1 XOR (shr rem 11 * 0x1F25)) ^^ 12) (of_nat (qr_version q));
               bits = shl (of_nat (qr_version q)) 12 OR rem
           in wSetAll (concat (map (\<lambda>i. let b1 = (shr bits i AND 1 \<noteq> 0); a = qr_size q - 11 + int (i mod 3); b = int (i div 3)
                                        in [(a, b, b1), (b, a, b1)]) [0..<18])) q)"

definition wDrawFinderPattern :: "int \<Rightarrow> int \<Rightarrow> QrCode \<Rightarrow> QrCode res" where
  "wDrawFinderPattern x y q =
     wSetAll [(x + dx, y + dy, max \<bar>dx\<bar> \<bar>dy\<bar> \<noteq> 2 \<and> max \<bar>dx\<bar> \<bar>dy\<bar> \<noteq> 4).
               dy \<leftarrow> [-4..4], dx \<leftarrow> [-4..4],
               0 \<le> x + dx \<and> x + dx < qr_size q \<and> 0 \<le> y + dy \<and> y + dy < qr_size q] q"

definition wDrawAlignmentPattern :: "int \<Rightarrow> int \<Rightarrow> QrCode \<Rightarrow> QrCode res" where
  "wDrawAlignmentPattern x y =
     wSetAll [(x + dx, y + dy, max \<bar>dx\<bar> \<bar>dy\<bar> \<noteq> 1). dy \<leftarrow> [-2..2], dx \<leftarrow> [-2..2]]"

definition wAlignStep :: "nat \<Rightarrow> nat" where
  "wAlignStep version =
     (let numAlign = version div 7 + 2 in (version * 8 + numAlign * 3 + 5) div (numAlign * 4 - 4) * 2)"

definition wGetAlignmentPatternPositions :: "QrCode \<Rightarrow> int list" where
  "wGetAlignmentPatternPositions q =
     (if qr_version q = 1 then []
      else let numAlign = qr_version q div 7 + 2
           in alignLoop numAlign (qr_size q - 7) (int (wAlignStep (qr_version q))) [6])"

definition wDrawFunctionPatterns :: "QrCode \<Rightarrow> QrCode res" where
  "wDrawFunctionPatterns q =
     (let size = qr_size q
      in bindR (wSetAll (concat (map (\<lambda>i. [(6, i, i mod 2 = 0), (i, 6, i mod 2 = 0)]) [0..size - 1])) q) (\<lambda>q.
         bindR (wDrawFinderPattern 3 3 q) (\<lambda>q.
         bindR (wDrawFinderPattern (size - 4) 3 q) (\<lambda>q.
         bindR (wDrawFinderPattern 3 (size - 4) q) (\<lambda>q.
         let alignPos = wGetAlignmentPatternPositions q; n = length alignPos
         in bindR (forR (\<lambda>(i, j). wDrawAlignmentPattern (alignPos ! i) (alignPos ! j))
                     [(i, j). i \<leftarrow> [0..<n], j \<leftarrow> [0..<n],
                        \<not> (i = 0 \<and> j = 0 \<or> i = 0 \<and> j = n - 1 \<or> i = n - 1 \<and> j = 0)] q) (\<lambda>q.
            bindR (wDrawFormatBits 0 q) (\<lambda>q.
              wDrawVersion q)))))))"

definition wCutBlock :: "u32 list \<Rightarrow> u32 list \<Rightarrow> int \<Rightarrow> int \<Rightarrow> nat \<Rightarrow> nat \<times> u32 list list \<Rightarrow> nat \<times> u32 list list" where
  "wCutBlock data rsDiv shortDataLen numShortBlocks i = (\<lambda>(k, blocks).
     let dat = take (nat (shortDataLen + (if int i < numShortBlocks then 0 else 1))) (drop k data);
         k = k + length dat;
         ecc = rsRemainder dat rsDiv;
         dat = (if int i < numShortBlocks then dat @ [0] else dat)
     in (k, blocks @ [dat @ ecc]))"

definition wInterleave :: "u32 list list \<Rightarrow> int \<Rightarrow> int \<Rightarrow> u32 list" where
  "wInterleave blocks shortDataLen numShortBlocks =
     concat (map (\<lambda>i. concat (map (\<lambda>j. if int i \<noteq> shortDataLen \<or> int j \<ge> numShortBlocks then [blocks ! j ! i] else [])
         [0..<length blocks])) [0..<length (blocks ! 0)])"

definition wAddEccAndInterleave :: "nat \<Rightarrow> Ecc \<Rightarrow> u32 list \<Rightarrow> u32 list res" where
  "wAddEccAndInterleave ver ecl data =
     (case (arr_get (ECC_BLOCKS ! ordinal ecl) (int ver), arr_get (wECC_CODEWORDS_PER_BLOCK ! ordinal ecl) (int ver)) of
        (Some numBlocks, Some blockEccLen) \<Rightarrow>
          (let rawCodewords = wGetNumRawDataModules ver div 8;
               numShortBlocks = numBlocks - rawCodewords mod numBlocks;
               shortBlockLen = rawCodewords div numBlocks;
               rsDiv = rsDivisor (nat blockEccLen);
               blocks = snd (fold (wCutBlock data rsDiv (shortBlockLen - blockEccLen) numShortBlocks) [0..<nat numBlocks] (0, []))
           in if blocks = [] then Inl (TypeError ''blocks[0] is undefined'')
              else Inr (wInterleave blocks (shortBlockLen - blockEccLen) numShortBlocks))
      | _ \<Rightarrow> Inl (TypeError ''blocks[0] is undefined''))"

definition wDrawCodewordBit :: "u32 list \<Rightarrow> int \<times> int \<Rightarrow> nat \<times> QrCode \<Rightarrow> (nat \<times> QrCode) res" where
  "wDrawCodewordBit data xy iq =
     (let (x, y) = xy; (i, q) = iq
      in if \<not> cell (qr_isFunction q) x y \<and> i < length data * 8
         then bindR (setCell (qr_modules q) x y (shr (data ! (i div 8)) (7 - i mod 8) AND 1 \<noteq> 0)) (\<lambda>m.
                Inr (i + 1, q\<lparr>qr_modules := m\<rparr>))
         else Inr (i, q))"

definition wDrawCodewords :: "u32 list \<Rightarrow> QrCode \<Rightarrow> QrCode res" where
  "wDrawCodewords data q =
     bindR (forR (wDrawCodewordBit data) (scanOrder (qr_size q)) (0, q)) (\<lambda>(i, q). Inr q)"

text \<open>The \<^verbatim>\<open>switch\<close> has no default: for any other mask number \<^verbatim>\<open>invert\<close> stays undefined.\<close>

definition wInvert :: "int \<Rightarrow> int \<Rightarrow> int \<Rightarrow> bool" where
  "wInvert msk x y =
     (if msk = 0 then (x + y) mod 2 = 0
      else if msk = 1 then y mod 2 = 0
      else if msk = 2 then x mod 3 = 0
      else if msk = 3 then (x + y) mod 3 = 0
      else if msk = 4 then (x div 3 + y div 2) mod 2 = 0
      else if msk = 5 then (x * y) mod 2 + (x * y) mod 3 = 0
      else if msk = 6 then ((x * y) mod 2 + (x * y) mod 3) mod 2 = 0
      else if msk = 7 then ((x + y) mod 2 + (x * y) mod 3) mod 2 = 0
      else False)"

definition wMaskModule :: "int \<Rightarrow> int \<times> int \<Rightarrow> QrCode \<Rightarrow> QrCode res" where
  "wMaskModule msk xy q =
     (let (x, y) = xy
      in if \<not> cell (qr_isFunction q) x y \<and> wInvert msk x y
         then bindR (setCell (qr_modules q) x y (\<not> cell (qr_modules q) x y)) (\<lambda>m. Inr (q\<lparr>qr_modules := m\<rparr>))
         else Inr q)"

definition wApplyMask :: "int \<Rightarrow> QrCode \<Rightarrow> QrCode res" where
  "wApplyMask msk q = forR (wMaskModule msk) (rowMajor (qr_size q)) q"

section \<open>The penalty\<close>

definition wFinderPenalty :: "nat \<Rightarrow> nat list \<Rightarrow> nat list" where
  "wFinderPenalty run hs = run # butlast hs"

definition wFinderTerm :: "nat \<Rightarrow> nat list \<Rightarrow> nat" where
  "wFinderTerm run hs =
     (let hs = run # butlast hs; n = hs ! 1;
          core = (n > 0 \<and> hs ! 2 = n \<and> hs ! 3 = n * 3 \<and> hs ! 4 = n \<and> hs ! 5 = n);
          a = (if core \<and> hs ! 0 \<ge> n * 4 \<and> hs ! 6 \<ge> n then 1 else 0);
          b = (if core \<and> hs ! 6 \<ge> n * 4 \<and> hs ! 0 \<ge> n then 1 else 0)
      in a + b)"

definition wScanModule :: "bool \<Rightarrow> int \<times> bool \<times> nat \<times> nat list \<Rightarrow> int \<times> bool \<times> nat \<times> nat list" where
  "wScanModule c st =
     (let (result, runColor, run, runHistory) = st
      in if c = runColor
         then (let run = run + 1
               in (if run = 5 then result + 3 else if run > 5 then result + 1 else result, runColor, run, runHistory))
         else (result, c, 1, wFinderPenalty run runHistory))"

definition wLinePenalty :: "bool list \<Rightarrow> int \<Rightarrow> int" where
  "wLinePenalty line result =
     (let (result, runColor, run, runHistory) = fold wScanModule line (result, False, 0, [0, 0, 0, 0, 0, 0, 0])
      in result + int (wFinderTerm run runHistory) * 40)"

definition wGetPenaltyScore :: "QrCode \<Rightarrow> int" where
  "wGetPenaltyScore q =
     (let result = fold (\<lambda>y. wLinePenalty (rowLine q y)) [0..qr_size q - 1] 0;
          result = fold (\<lambda>x. wLinePenalty (columnLine q x)) [0..qr_size q - 1] result;
          result = fold (\<lambda>y result. fold (\<lambda>x result. if sameBlock q x y then result + 3 else result)
                                      [0..qr_size q - 2] result) [0..qr_size q - 2] result;
          dark = fold (\<lambda>y dark. fold (\<lambda>x dark. if cell (qr_modules q) x y then dark + 1 else dark)
                                  [0..qr_size q - 1] dark) [0..qr_size q - 1] 0;
          total = qr_size q * qr_size q;
          k = ceilQuot \<bar>dark * 20 - total * 10\<bar> total - 1
      in result + k * 10)"

section \<open>The constructor and the entry point\<close>

definition wTryMask :: "int \<Rightarrow> (int \<times> int option) \<times> QrCode \<Rightarrow> ((int \<times> int option) \<times> QrCode) res" where
  "wTryMask m st =
     (let (best, q) = st
      in bindR (wApplyMask m q) (\<lambda>q.
         bindR (wDrawFormatBits m q) (\<lambda>q.
         let best = betterMask m (wGetPenaltyScore q) best
         in bindR (wApplyMask m q) (\<lambda>q. Inr (best, q)))))"

definition wNewQrCode :: "nat \<Rightarrow> Ecc \<Rightarrow> u32 list \<Rightarrow> int \<Rightarrow> QrCode res" where
  "wNewQrCode version ecl dataCodewords msk =
     (let sz = version * 4 + 17;
          q = \<lparr>qr_version = version, qr_ecl = ecl, qr_size = int sz, qr_modules = replicate sz (replicate sz False),
               qr_isFunction = replicate sz (replicate sz False), qr_mask = None\<rparr>
      in bindR (wDrawFunctionPatterns q) (\<lambda>q.
         bindR (wAddEccAndInterleave (qr_version q) (qr_ecl q) dataCodewords) (\<lambda>allCodewords.
         bindR (wDrawCodewords allCodewords q) (\<lambda>q.
         bindR (if msk < 0 then forR wTryMask [0..7] ((msk, None), q) else Inr ((msk, None), q)) (\<lambda>(best, q).
         let msk = fst best; q = q\<lparr>qr_mask := Some msk\<rparr>
         in bindR (wApplyMask msk q) (\<lambda>q.
            bindR (wDrawFormatBits msk q) (\<lambda>q.
            Inr (q\<lparr>qr_isFunction := []\<rparr>))))))))"

text \<open>The smallest version that fits, with its capacity in bits.\<close>

definition wFindVersion :: "nat \<Rightarrow> Ecc \<Rightarrow> (nat \<times> int) option" where
  "wFindVersion n ecl =
     (case find (\<lambda>v. case wGetNumDataCodewords v ecl of
                       Some c \<Rightarrow> 4 + (if v \<le> 9 then 8 else 16) + int n * 8 \<le> c * 8 | None \<Rightarrow> False) [1..<41] of
        None \<Rightarrow> None
      | Some v \<Rightarrow> Some (v, the (wGetNumDataCodewords v ecl) * 8))"

definition wAppendBits :: "u32 \<Rightarrow> int \<Rightarrow> u32 list \<Rightarrow> u32 list" where
  "wAppendBits val len bb = bb @ map (\<lambda>i. shr val i AND 1) (rev [0..<nat len])"

function wPadLoop :: "u32 \<Rightarrow> int \<Rightarrow> u32 list \<Rightarrow> u32 list" where
  "wPadLoop pad capacity bb =
     (if int (length bb) < capacity then wPadLoop (pad XOR (0xEC XOR 0x11)) capacity (wAppendBits pad 8 bb) else bb)"
  by pat_completeness auto
termination
  by (relation "measure (\<lambda>(pad, capacity, bb). nat (capacity - int (length bb)))") (auto simp: wAppendBits_def)

declare wPadLoop.simps [simp del]

text \<open>One byte per eight bits; a missing bit is \<^verbatim>\<open>undefined\<close>, which \<^verbatim>\<open>|\<close> reads as 0.\<close>

function wPack :: "u32 list \<Rightarrow> u32 list" where
  "wPack bb = (if bb = [] then []
     else fold (\<lambda>j b. shl b 1 OR num_or_0 (arr_get bb (int j))) [0..<8] 0 # wPack (drop 8 bb))"
  by pat_completeness auto
termination
  by (relation "measure length") auto

declare wPack.simps [simp del]

definition wEncodeText :: "jstr \<Rightarrow> Ecc option \<Rightarrow> QrCode res" where
  "wEncodeText text level =
     (let ecl = (case level of None \<Rightarrow> LOW | Some l \<Rightarrow> l)
      in bindR (encodeURIComponent text) (\<lambda>s.
         let bytes = map (\<lambda>c. (of_nat c :: u32) AND 0xFF) (unescapeJs s)
         in case wFindVersion (length bytes) ecl of
              None \<Rightarrow> Inl (Error ''Data too long for QR'')
            | Some (version, capacity) \<Rightarrow>
                (let bb = wAppendBits 4 4 [];
                     bb = wAppendBits (of_nat (length bytes)) (if version \<le> 9 then 8 else 16) bb;
                     bb = fold (\<lambda>b. wAppendBits b 8) bytes bb;
                     bb = wAppendBits 0 (min 4 (capacity - int (length bb))) bb;
                     bb = wAppendBits 0 (int ((8 - length bb mod 8) mod 8)) bb;
                     bb = wPadLoop 0xEC capacity bb
                 in wNewQrCode version ecl (wPack bb) (-1))))"

section \<open>Routine by routine the same results\<close>

text \<open>When a loop of fallible steps succeeds, the loop of total steps that agree with them gives the
  same result.\<close>

lemma forR_agrees:
  assumes "forR f is s = Inr t" and "I s"
    and "\<And>i u v. i \<in> set is \<Longrightarrow> I u \<Longrightarrow> f i u = Inr v \<Longrightarrow> g i u = v \<and> I v"
  shows "fold g is s = t"
  using assms
proof (induction "is" arbitrary: s)
  case (Cons i "is")
  from Cons.prems(1) obtain u where u: "f i s = Inr u" "forR f is u = Inr t" by (auto simp: bindR_eq_Inr_iff)
  have "g i s = u" "I u" using Cons.prems(3) [OF _ Cons.prems(2) u(1)] by auto
  moreover have "fold g is u = t" using u(2) \<open>I u\<close> Cons.prems(3) by (intro Cons.IH) auto
  ultimately show ?case by simp
qed simp

lemma rsMultiply_agrees:
  assumes "reedSolomonMultiply x y = Inr v"
  shows "rsMultiply x y = v"
proof -
  have "is_byte x" "is_byte y" using assms by (auto simp: reedSolomonMultiply_def is_byte_def split: if_splits)
  then have "v = of_gf (to_gf x * to_gf y)"
    using assms reedSolomonMultiply_of_gf [of "to_gf x" "to_gf y"] by (simp add: of_gf_to_gf)
  then have v: "\<forall>k\<ge>8. \<not> bit v k" by (simp add: is_byte_bits [symmetric])
  have "rsMultiply x y = v AND 0xFF"
    using assms by (auto simp: reedSolomonMultiply_def rsMultiply_def split: if_splits)
  also have "\<dots> = v"
  proof (rule bit_word_eqI)
    fix k
    have "bit (0xFF :: u32) k \<longleftrightarrow> k < 8" using bit_mask_iff [of 8 k, where 'a = "32 word"] by (auto simp: mask_eq_exp_minus_1)
    then show "bit (v AND 0xFF) k = bit v k" using v by (auto simp: bit_and_iff not_less)
  qed
  finally show ?thesis .
qed

lemma rsDivisor_agrees:
  assumes "reedSolomonComputeDivisor (int d) = Inr ds"
  shows "rsDivisor d = ds"
proof -
  let ?f = "\<lambda>i (result, root). bindR (forR (divisor_step root) [0..<length result] result) (\<lambda>result.
     bindR (reedSolomonMultiply root 2) (\<lambda>root. Inr (result, root)))"
  obtain rt where run: "forR ?f [0..<d] (replicate (d - 1) 0 @ [1], 1) = Inr (ds, rt)"
    using assms by (auto simp: reedSolomonComputeDivisor_def bindR_eq_Inr_iff split: if_splits)
  have step: "rsDivisorStep rt j xs = ys" if "divisor_step rt j xs = Inr ys" for rt j xs ys
    using that rsMultiply_agrees [of "xs ! j" rt]
    by (auto simp: divisor_step_def rsDivisorStep_def bindR_eq_Inr_iff Let_def)
  have "fold (\<lambda>i (result, rt). (fold (rsDivisorStep rt) [0..<length result] result, rsMultiply rt 2))
      [0..<d] (replicate (d - 1) 0 @ [1], 1) = (ds, rt)"
    using run
  proof (rule forR_agrees [where I = "\<lambda>_. True"])
    fix i :: nat and u v :: "u32 list \<times> u32"
    assume fu: "?f i u = Inr v"
    obtain xs r where u: "u = (xs, r)" by (cases u)
    from fu obtain ys r' where ys: "forR (divisor_step r) [0..<length xs] xs = Inr ys"
      "reedSolomonMultiply r 2 = Inr r'" "v = (ys, r')" by (auto simp: u bindR_eq_Inr_iff)
    have "fold (rsDivisorStep r) [0..<length xs] xs = ys"
      using ys(1) by (rule forR_agrees [where I = "\<lambda>_. True"]) (auto intro: step)
    then show "(case u of (result, rt) \<Rightarrow> (fold (rsDivisorStep rt) [0..<length result] result, rsMultiply rt 2)) = v \<and> True"
      using ys(2,3) rsMultiply_agrees by (simp add: u)
  qed simp
  then show ?thesis by (simp add: rsDivisor_def)
qed

lemma rsRemainder_agrees:
  assumes "reedSolomonComputeRemainder data divisor = Inr rs" and "divisor \<noteq> []"
  shows "rsRemainder data divisor = rs"
  using assms(1) unfolding reedSolomonComputeRemainder_def rsRemainder_def
proof (rule forR_agrees [where I = "\<lambda>xs. length xs = length divisor"])
  fix b u v
  assume len: "length u = length divisor" and run: "remainder_step divisor b u = Inr v"
  from len assms(2) obtain r us where u: "u = r # us" by (cases u) auto
  let ?xs = "us @ [0]" and ?factor = "b XOR r"
  have lx: "length ?xs = length divisor" using len u by simp
  have run': "forR (\<lambda>i result. bindR (reedSolomonMultiply (num_or_0 (arr_get divisor (int i))) ?factor) (\<lambda>v.
      Inr (result[i := result ! i XOR v]))) [0..<length ?xs] ?xs = Inr v"
    using run by (simp add: remainder_step_def u)
  have "fold (\<lambda>i result. result[i := result ! i XOR rsMultiply (divisor ! i) ?factor]) [0..<length ?xs] ?xs = v"
    using run'
  proof (rule forR_agrees [where I = "\<lambda>_. True"])
    fix i and s t :: "u32 list"
    assume "i \<in> set [0..<length ?xs]"
      and "bindR (reedSolomonMultiply (num_or_0 (arr_get divisor (int i))) ?factor) (\<lambda>v. Inr (s[i := s ! i XOR v])) = Inr t"
    then show "s[i := s ! i XOR rsMultiply (divisor ! i) ?factor] = t \<and> True"
      using lx rsMultiply_agrees [of "divisor ! i" ?factor] by (auto simp: bindR_eq_Inr_iff)
  qed simp
  moreover have "length (fold (\<lambda>i result. result[i := result ! i XOR f i]) is xs) = length xs"
    for f :: "nat \<Rightarrow> u32" and "is" and xs by (induction "is" arbitrary: xs) auto
  ultimately show "rsRemainderStep divisor b u = v \<and> length v = length divisor"
    unfolding rsRemainderStep_def u lx [symmetric] Let_def by (auto simp only: list.case prod.case)
qed simp

lemma wTables:
  "wECC_CODEWORDS_PER_BLOCK = ECC_CODEWORDS_PER_BLOCK" "ECC_BLOCKS = NUM_ERROR_CORRECTION_BLOCKS"
  unfolding wECC_CODEWORDS_PER_BLOCK_def ECC_CODEWORDS_PER_BLOCK_def ECC_BLOCKS_def NUM_ERROR_CORRECTION_BLOCKS_def
  by (rule refl)+

lemma wGetNumRaw_same: "wGetNumRawDataModules = getNumRawDataModules"
  by (simp add: fun_eq_iff wGetNumRawDataModules_def getNumRawDataModules_def)

lemma wGetNumData_same: "wGetNumDataCodewords = getNumDataCodewords"
  unfolding fun_eq_iff wGetNumDataCodewords_def getNumDataCodewords_def eccPerBlock_def numBlocksOf_def wTables
    wGetNumRaw_same by simp

lemmas wGetNum_same = wGetNumRaw_same wGetNumData_same

lemma wSetAll_same: "wSetAll = setAll"
  by (simp add: wSetAll_def setAll_def wSetFunctionModule_def [abs_def] setFunctionModule_def [abs_def])

lemma wDrawFormatBits_same:
  assumes "0 \<le> m" and "m \<le> 7"
  shows "wDrawFormatBits m q = drawFormatBits m q"
proof -
  let ?bits = "formatInfo (qr_ecl q) (word_of_int m)"
  have "shr ?bits 15 = 0" using formatInfo_below [OF assms] by (intro below_shr) auto
  moreover have "FORMAT_ECC ! ordinal (qr_ecl q) = formatBits (qr_ecl q)"
    by (cases "qr_ecl q") (simp_all add: FORMAT_ECC_def)
  then have "wDrawFormatBits m q = setAll (formatWrites (qr_size q) ?bits) q"
    by (simp only: wDrawFormatBits_def wSetAll_same Let_def formatInfo_def bchStep_def [abs_def] formatWrites_def getBit_def)
  ultimately show ?thesis by (simp add: drawFormatBits_def)
qed

lemma wDrawVersion_same:
  assumes "qr_version q \<le> 40"
  shows "wDrawVersion q = drawVersion q"
proof -
  have "shr (versionInfo (qr_version q)) 18 = 0" using versionInfo_below [OF assms] by (intro below_shr) auto
  then show ?thesis
    by (simp only: wDrawVersion_def drawVersion_def wSetAll_same Let_def versionInfo_def bchStep_def [abs_def]
        versionWrites_def getBit_def simp_thms assertR_True bindR.simps)
qed

lemma wPatterns_same: "wDrawFinderPattern = drawFinderPattern" "wDrawAlignmentPattern = drawAlignmentPattern"
  by (simp_all only: fun_eq_iff wDrawFinderPattern_def drawFinderPattern_def wDrawAlignmentPattern_def
      drawAlignmentPattern_def wSetAll_same simp_thms)

text \<open>The two formulas for the distance of the alignment patterns agree on every version that has any.\<close>

lemma align_step_table: "list_all (\<lambda>v. v = 1 \<or> wAlignStep v = alignStep v) all_versions"
  by code_simp

lemma wAlignment_same:
  assumes "1 \<le> qr_version q" and "qr_version q \<le> 40"
  shows "wGetAlignmentPatternPositions q = getAlignmentPatternPositions q"
proof -
  have "qr_version q \<in> set all_versions" using assms by (simp add: all_versions_def)
  then have "qr_version q = 1 \<or> wAlignStep (qr_version q) = alignStep (qr_version q)"
    using align_step_table unfolding list_all_iff by blast
  then show ?thesis by (auto simp: wGetAlignmentPatternPositions_def getAlignmentPatternPositions_def)
qed

lemma setAll_version: "setAll ws q = Inr q' \<Longrightarrow> qr_version q' = qr_version q"
  using setAll_keeps by blast

lemma wDrawFunctionPatterns_same:
  assumes "1 \<le> qr_version q" and "qr_version q \<le> 40"
  shows "wDrawFunctionPatterns q = drawFunctionPatterns q"
proof -
  have finder: "drawFinderPattern x y p = Inr p' \<Longrightarrow> qr_version p' = qr_version p" for x y p p'
    unfolding drawFinderPattern_def by (rule setAll_version)
  have fmt: "drawFormatBits m p = Inr p' \<Longrightarrow> qr_version p' = qr_version p" for m p p'
    unfolding drawFormatBits_def Let_def bindR_eq_Inr_iff by (auto dest: setAll_version)
  have align: "forR (\<lambda>(i, j). drawAlignmentPattern (ps ! i) (ps ! j)) ab p = Inr p' \<Longrightarrow> qr_version p' = qr_version p" for ps ab p p'
    by (rule forR_invariant [where I = "\<lambda>p'. qr_version p' = qr_version p"])
      (auto simp: drawAlignmentPattern_def dest: setAll_version)
  show ?thesis
    unfolding wDrawFunctionPatterns_def drawFunctionPatterns_def Let_def wSetAll_same wPatterns_same
    by (intro bindR_cong refl)
      (use assms in \<open>simp_all add: wAlignment_same wDrawFormatBits_same wDrawVersion_same setAll_version finder fmt align\<close>)
qed

lemma wCutBlock_agrees:
  assumes "cutBlock data ds d s i u = Inr v" and "ds \<noteq> []"
  shows "wCutBlock data ds d s i u = v"
proof -
  obtain k blocks where u: "u = (k, blocks)" by (cases u)
  show ?thesis
    using assms(1) rsRemainder_agrees [OF _ assms(2)]
    by (auto simp: u cutBlock_def wCutBlock_def bindR_eq_Inr_iff Let_def)
qed

lemma wAddEcc_agrees:
  assumes v: "1 \<le> ver" "ver \<le> 40" and ok: "addEccAndInterleave ver ecl data = Inr cs"
  shows "wAddEccAndInterleave ver ecl data = Inr cs"
proof -
  obtain e n where en: "eccPerBlock ecl ver = Some (int e)" "numBlocksOf ecl ver = Some (int n)" "1 \<le> e" "e \<le> 30"
    using layoutE [OF v, of ecl] by metis
  let ?raw = "getNumRawDataModules ver div 8"
  let ?d = "?raw div int n - int e" and ?s = "int n - ?raw mod int n"
  obtain ds k blocks where ds: "reedSolomonComputeDivisor (int e) = Inr ds"
    and cut: "forR (cutBlock data ds ?d ?s) [0..<n] (0, []) = Inr (k, blocks)"
    and ne: "blocks \<noteq> []" and cs: "cs = interleave blocks ?d ?s"
    using ok en by (auto simp: addEccAndInterleave_def bindR_eq_Inr_iff Let_def split: if_splits)
  obtain g where "reedSolomonComputeDivisor (int e) = Inr (map of_gf g)" "length g = e"
    using reedSolomonComputeDivisor_gf [of e] en(3,4) by auto
  then have len: "ds \<noteq> []" using ds en(3) by auto
  have "fold (wCutBlock data ds ?d ?s) [0..<n] (0, []) = (k, blocks)"
    using cut by (rule forR_agrees [where I = "\<lambda>_. True"]) (auto intro: wCutBlock_agrees [OF _ len])
  then show ?thesis
    using en ne cs rsDivisor_agrees [OF ds]
    by (simp add: wAddEccAndInterleave_def wTables wGetNum_same eccPerBlock_def numBlocksOf_def Let_def
        wInterleave_def interleave_def)
qed

lemma wDrawCodewords_same: "wDrawCodewords = drawCodewords"
proof -
  have "wDrawCodewordBit = drawCodewordBit"
    by (intro ext) (simp only: wDrawCodewordBit_def drawCodewordBit_def getBit_def)
  then show ?thesis by (intro ext) (simp only: wDrawCodewords_def drawCodewords_def)
qed

lemma wApplyMask_same:
  assumes "0 \<le> m" and "m \<le> 7"
  shows "wApplyMask m = applyMask m"
proof -
  have "maskInvert m x y = Some (wInvert m x y)" for x y
    using assms by (auto simp: maskInvert_def wInvert_def)
  then show ?thesis
    by (simp add: fun_eq_iff wApplyMask_def applyMask_def wMaskModule_def [abs_def] maskModule_def [abs_def])
qed

section \<open>The constructor\<close>

interpretation walletMasks: mask_search wGetPenaltyScore wTryMask
proof
  fix m best q
  assume m: "0 \<le> m" "m \<le> (7 :: int)"
  have "wDrawFormatBits m = drawFormatBits m" by (rule ext) (rule wDrawFormatBits_same [OF m])
  then show "wTryMask m (best, q) = bindR (bindR (applyMask m q) (drawFormatBits m)) (\<lambda>q.
      bindR (applyMask m q) (\<lambda>q'. Inr (betterMask m (wGetPenaltyScore q) best, q')))"
    by (simp add: wTryMask_def wApplyMask_same [OF m] Let_def bindR_assoc)
qed

lemma wStart:
  "\<lparr>qr_version = version, qr_ecl = ecl, qr_size = int (version * 4 + 17),
     qr_modules = replicate (version * 4 + 17) (replicate (version * 4 + 17) False),
     qr_isFunction = replicate (version * 4 + 17) (replicate (version * 4 + 17) False), qr_mask = None\<rparr> = blank version ecl"
  by (simp add: blank_def Let_def)

lemma wNewQrCode_auto:
  assumes v: "1 \<le> version" "version \<le> 40" and cs: "addEccAndInterleave version ecl data = Inr cs"
  obtains m where "wNewQrCode version ecl data (-1) = Inr (finished version ecl cs m)" "0 \<le> m" "m \<le> 7"
    "\<And>i. 0 \<le> i \<Longrightarrow> i \<le> 7 \<Longrightarrow>
      penaltyFor wGetPenaltyScore (unmasked version ecl cs) m \<le> penaltyFor wGetPenaltyScore (unmasked version ecl cs) i"
proof -
  let ?q = "unmasked version ecl cs"
  have r: "reserved ?q" by (rule reserved_unmasked [OF v])
  from walletMasks.search [OF r, of "- 1"] obtain h i where
    h: "forR wTryMask [0..7] ((- 1, None), ?q) = Inr ((int i, Some (penaltyFor wGetPenaltyScore ?q (int i))), ?q\<lparr>qr_modules := h\<rparr>)"
      "agree (sizeOf version) h (qr_modules ?q)" and i: "i < 8"
    and least: "\<And>k. 0 \<le> k \<Longrightarrow> k \<le> 7 \<Longrightarrow> penaltyFor wGetPenaltyScore ?q (int i) \<le> penaltyFor wGetPenaltyScore ?q k"
    unfolding unmasked_fields by metis
  have i7: "0 \<le> int i" "int i \<le> 7" using i by auto
  have "wNewQrCode version ecl data (-1) = Inr (finished version ecl cs (int i))"
    unfolding wNewQrCode_def Let_def wStart
    using wDrawFunctionPatterns_same [of "blank version ecl"] drawFunctionPatterns_painted [OF wf_blank, of version ecl] v
      wAddEcc_agrees [OF v cs] drawCodewords_placed [OF wf_patterns [OF v], of cs ecl] h(1)
      finish_mask [OF v i7 h(2)]
    by (simp add: wDrawCodewords_same unmasked_def [symmetric] wApplyMask_same [OF i7] wDrawFormatBits_same [OF i7])
  then show thesis using i least by (intro that [of "int i"]) auto
qed

section \<open>The text\<close>

interpretation walletReader: percent_reader unescapeJs "id :: nat \<Rightarrow> nat"
proof
  show "unescapeJs [] = []" by simp
  fix c :: nat and s
  assume c: "c < 0x80" "c \<noteq> 37"
  then show "unescapeJs (c # s) = id c # unescapeJs s"
    by (cases s rule: list.exhaust) (auto, metis list.exhaust unescapeJs.simps(1,3,4))
next
  fix b :: nat and s
  assume "b < 256"
  then have "hexValue (hexDigit (b div 16)) = Some (b div 16)" "hexValue (hexDigit (b mod 16)) = Some (b mod 16)"
    by (simp_all add: hexValue_hexDigit less_mult_imp_div_less del: hexValue.simps)
  then show "unescapeJs (percent b @ s) = id b # unescapeJs s"
    by (simp add: percent_def del: hexValue.simps)
qed

lemma and_FF: "n < 256 \<Longrightarrow> (of_nat n :: u32) AND 0xFF = of_nat n"
proof -
  assume "n < 256"
  moreover have "(of_nat n :: u32) AND 0xFF = take_bit 8 (of_nat n)" by (simp add: take_bit_eq_mask mask_eq_exp_minus_1)
  ultimately show ?thesis by (simp add: take_bit_of_nat take_bit_nat_eq_self)
qed

lemma wallet_bytes:
  assumes "codePoints text = Some cps" and "\<forall>c \<in> set text. c < 65536"
  shows "\<exists>s. encodeURIComponent text = Inr s \<and> map (\<lambda>c. (of_nat c :: u32) AND 0xFF) (unescapeJs s) = utf8Bytes cps"
proof -
  have "\<forall>n \<in> set (concat (map utf8 cps)). n < 256"
    using codePoints_le [OF assms] utf8_less_256 by auto
  then have "map (\<lambda>c. (of_nat c :: u32) AND 0xFF) (concat (map utf8 cps)) = utf8Bytes cps"
    by (intro map_cong) (auto simp: and_FF)
  then show ?thesis
    using walletReader.read_encodeWith [OF keeps_plain_URI(2) assms(2)] assms(1)
    by (auto simp: encodeURIComponent_def)
qed

lemma wFindVersion_room:
  "wFindVersion n ecl = (case find (\<lambda>v. int n \<le> roomFor v ecl) [1..<41] of
     None \<Rightarrow> None | Some v \<Rightarrow> Some (v, the (getNumDataCodewords v ecl) * 8))"
proof -
  have "(case getNumDataCodewords v ecl of Some c \<Rightarrow> 4 + (if v \<le> 9 then 8 else 16) + int n * 8 \<le> c * 8 | None \<Rightarrow> False)
      \<longleftrightarrow> int n \<le> roomFor v ecl" for v
    unfolding roomFor_def by (cases "getNumDataCodewords v ecl") (auto split: if_splits)
  then show ?thesis unfolding wFindVersion_def wGetNum_same by simp
qed

lemma wAppendBits_agrees: "appendBits v n bb = Inr bb' \<Longrightarrow> wAppendBits v n bb = bb'"
  by (auto simp: appendBits_def wAppendBits_def split: if_splits)

lemma wAppendBits_bitsOf: "wAppendBits v (int n) bb = bb @ bitsOf n v"
  by (simp add: wAppendBits_def bitsOf_def)

lemma wAppendBits_bytes: "fold (\<lambda>b. wAppendBits b 8) bytes bb = bb @ concat (map (bitsOf 8) bytes)"
  using wAppendBits_bitsOf [of _ 8] by (induction bytes arbitrary: bb) auto

lemma wPadLoop_agrees: "padLoop p c bb = Inr bb' \<Longrightarrow> wPadLoop p c bb = bb'"
proof (induction p c bb arbitrary: bb' rule: padLoop.induct)
  case (1 p c bb)
  show ?case
  proof (cases "int (length bb) < c")
    case True
    with "1.prems" obtain x where "appendBits p 8 bb = Inr x" "padLoop (p XOR (0xec XOR 0x11)) c x = Inr bb'"
      by (auto simp: padLoop.simps [of p c bb] bindR_eq_Inr_iff)
    then show ?thesis using "1.IH" [OF True] True by (simp add: wPadLoop.simps [of p c bb] wAppendBits_agrees)
  next
    case False
    then show ?thesis using "1.prems" by (simp add: padLoop.simps [of p c bb]) (simp add: wPadLoop.simps [of p c bb'])
  qed
qed

lemma wPack_bits:
  assumes "\<forall>c \<in> set cs. shr c 8 = 0"
  shows "wPack (concat (map (bitsOf 8) cs)) = cs"
  using assms
proof (induction cs)
  case (Cons c cs)
  let ?bb = "bitsOf 8 c @ concat (map (bitsOf 8) cs)"
  have "fold (\<lambda>j b. shl b 1 OR num_or_0 (arr_get ?bb (int j))) [0..<8] 0 = foldl (\<lambda>v b. shl v 1 OR b) 0 (bitsOf 8 c)"
  proof -
    have bits: "map (\<lambda>j. num_or_0 (arr_get ?bb (int j))) [0..<8] = bitsOf 8 c"
      by (rule nth_equalityI) (auto simp: nth_append arr_get_def)
    have "foldl (\<lambda>v b. shl v 1 OR b) 0 (map (\<lambda>j. num_or_0 (arr_get ?bb (int j))) [0..<8])
        = fold (\<lambda>j b. shl b 1 OR num_or_0 (arr_get ?bb (int j))) [0..<8] 0"
      by (simp only: foldl_conv_fold fold_map comp_def)
    then show ?thesis by (simp only: bits)
  qed
  also have "\<dots> = c" using valueOf_bitsOf [of 8 c] Cons.prems by simp
  finally have byte: "fold (\<lambda>j b. shl b 1 OR num_or_0 (arr_get ?bb (int j))) [0..<8] 0 = c" .
  have "?bb \<noteq> []" using length_bitsOf [of 8 c] by fastforce
  then show ?case using Cons byte by (simp add: wPack.simps [of ?bb])
qed (simp add: wPack.simps)

lemma room_bits:
  assumes "int k \<le> roomFor version ecl" and "getNumDataCodewords version ecl = Some (int n)"
  shows "4 + ccBits version + 8 * k \<le> 8 * n"
  using assms unfolding roomFor_def by (auto split: if_splits)

text \<open>The bit buffer the wallet packs is the one the dashboard's encoder makes without level boost.\<close>

lemma wallet_payload:
  assumes n: "getNumDataCodewords version ecl = Some (int n)" and v: "1 \<le> version" "version \<le> 40"
    and room: "int (length bytes) \<le> roomFor version ecl"
    and enc: "encodePayload [byteSegment bytes] ecl MIN_VERSION MAX_VERSION False = Inr (version, ecl, cw)"
  shows "(let bb = wAppendBits 4 4 [];
           bb = wAppendBits (of_nat (length bytes)) (if version \<le> 9 then 8 else 16) bb;
           bb = fold (\<lambda>b. wAppendBits b 8) bytes bb;
           bb = wAppendBits 0 (min 4 (int n * 8 - int (length bb))) bb;
           bb = wAppendBits 0 (int ((8 - length bb mod 8) mod 8)) bb
       in wPack (wPadLoop 0xEC (int n * 8) bb)) = cw"
proof -
  define hdr where "hdr = bitsOf 4 4 @ bitsOf (ccBits version) (of_nat (length bytes)) @ concat (map (bitsOf 8) bytes)"
  have "int (length bytes) < 2 ^ ccBits version"
  proof -
    have "version \<in> set all_versions" using v by (simp add: all_versions_def)
    then have "roomFor version ecl < (if version \<le> 9 then 256 else 65536)"
      using room_table in_all_levels [of ecl] by (auto simp: list_all_iff)
    then show ?thesis using room by (auto split: if_splits)
  qed
  then have seg: "forR (segmentBits version) [byteSegment bytes] [] = Inr hdr"
    using segmentBits_byteSegment [OF v(2), of bytes "[]"] by (simp add: hdr_def)
  have "length hdr \<le> 8 * n" using room_bits [OF room n] by (simp add: hdr_def)
  from terminatorAndPadding_ok [OF this] obtain pad where
    pad: "terminatorAndPadding (Some (int n * 8)) hdr = Inr (hdr @ pad)" "length (hdr @ pad) = 8 * n" "\<forall>b \<in> set pad. is_bit b"
    by blast
  have cw: "cw = packBits (hdr @ pad)"
  proof -
    obtain used where "findVersion [byteSegment bytes] ecl MIN_VERSION MAX_VERSION = Inr (version, used)"
      using enc by (auto simp: encodePayload_def bindR_eq_Inr_iff Let_def)
    then show ?thesis
      using enc seg pad(1) n by (simp add: encodePayload_def boostLevel_def Let_def)
  qed
  have bits: "\<forall>b \<in> set (hdr @ pad). is_bit b" using pad(3) bitsOf_is_bit by (fastforce simp: hdr_def)
  have pack: "wPack (hdr @ pad) = cw"
  proof -
    have "concat (map (bitsOf 8) cw) = hdr @ pad" unfolding cw using bits pad(2) by (intro unpack_packBits) auto
    moreover have "\<forall>c \<in> set cw. shr c 8 = 0" unfolding cw using packBits_byte [OF bits] by blast
    ultimately show ?thesis using wPack_bits [of cw] by simp
  qed
  obtain b1 b2 where b: "appendBits 0 (min 4 (int n * 8 - int (length hdr))) hdr = Inr b1"
    "appendBits 0 (int ((8 - length b1 mod 8) mod 8)) b1 = Inr b2" "padLoop 0xec (int n * 8) b2 = Inr (hdr @ pad)"
    using pad(1) by (auto simp: terminatorAndPadding_def bindR_eq_Inr_iff)
  have "wAppendBits 4 4 [] = bitsOf 4 4" using wAppendBits_bitsOf [of 4 4 "[]"] by simp
  moreover have "wAppendBits x (if version \<le> 9 then 8 else 16) bb = bb @ bitsOf (ccBits version) x" for x bb
    using wAppendBits_bitsOf [of x 8 bb] wAppendBits_bitsOf [of x 16 bb] by simp
  ultimately have "fold (\<lambda>b. wAppendBits b 8) bytes
      (wAppendBits (of_nat (length bytes)) (if version \<le> 9 then 8 else 16) (wAppendBits 4 4 [])) = hdr"
    by (simp only: wAppendBits_bytes hdr_def append_assoc)
  then show ?thesis
    by (simp only: Let_def wAppendBits_agrees [OF b(1)] wAppendBits_agrees [OF b(2)] wPadLoop_agrees [OF b(3)] pack)
qed

lemma wNewQrCode_given:
  assumes v: "1 \<le> version" "version \<le> 40" and cs: "addEccAndInterleave version ecl data = Inr cs"
    and m: "0 \<le> m" "m \<le> 7"
  shows "wNewQrCode version ecl data m = newQrCode version ecl data m"
proof -
  have "wNewQrCode version ecl data m = Inr (finished version ecl cs m)"
    unfolding wNewQrCode_def Let_def wStart
    using wDrawFunctionPatterns_same [of "blank version ecl"] drawFunctionPatterns_painted [OF wf_blank, of version ecl] v
      wAddEcc_agrees [OF v cs] drawCodewords_placed [OF wf_patterns [OF v], of cs ecl]
      finish_mask [OF v m, of "qr_modules (unmasked version ecl cs)" ecl cs] m wf_qrD(1) [OF reservedD(1) [OF reserved_unmasked [OF v, of ecl cs]]]
    by (simp add: wDrawCodewords_same unmasked_def [symmetric] wApplyMask_same [OF m] wDrawFormatBits_same [OF m] agree_def)
  then show ?thesis using newQrCode_given [OF v cs m] by simp
qed

lemma wEncodeText_ok:
  assumes "codePoints text = Some cps" and "\<forall>c \<in> set text. c < 65536"
    and "int (length (utf8Bytes cps)) \<le> byteCapacity ecl"
  obtains version data cs m where "wEncodeText text (Some ecl) = Inr (finished version ecl cs m)"
    "encodePayload [byteSegment (utf8Bytes cps)] ecl MIN_VERSION MAX_VERSION False = Inr (version, ecl, data)"
    "1 \<le> version" "version \<le> 40" "0 \<le> m" "m \<le> 7"
    "addEccAndInterleave version ecl data = Inr cs" "\<forall>b \<in> set data. is_byte b"
    "getNumDataCodewords version ecl = Some (int (length data))"
    "readPayload version data = Some (utf8Bytes cps)"
    "int (length (utf8Bytes cps)) \<le> roomFor version ecl"
    "\<forall>v. 1 \<le> v \<longrightarrow> v < version \<longrightarrow> roomFor v ecl < int (length (utf8Bytes cps))"
proof -
  let ?bytes = "utf8Bytes cps"
  have bytes: "\<forall>b \<in> set ?bytes. shr b 8 = 0" using utf8Bytes_bytes [OF assms(1,2)] by (simp only: is_byte_def)
  from encodePayload_ok [OF bytes assms(3), of False] obtain version ecl' data where
    e: "encodePayload [byteSegment ?bytes] ecl MIN_VERSION MAX_VERSION False = Inr (version, ecl', data)"
    and v: "1 \<le> version" "version \<le> 40" and room: "int (length ?bytes) \<le> roomFor version ecl"
    "\<forall>v. 1 \<le> v \<longrightarrow> v < version \<longrightarrow> roomFor v ecl < int (length ?bytes)"
    and n': "getNumDataCodewords version ecl' = Some (int (length data))" and b: "\<forall>c \<in> set data. shr c 8 = 0"
    and rd: "readPayload version data = Some ?bytes"
    by blast
  have "ecl' = ecl" using e by (auto simp: encodePayload_def bindR_eq_Inr_iff boostLevel_def Let_def)
  note e = e [unfolded this] and n = n' [unfolded this]
  have db: "\<forall>b \<in> set data. is_byte b" using b by (simp add: is_byte_def)
  obtain cs where cs: "addEccAndInterleave version ecl data = Inr cs"
    using addEccAndInterleave_ok [OF v db n] by metis
  obtain m where m: "wNewQrCode version ecl data (- 1) = Inr (finished version ecl cs m)" "0 \<le> m" "m \<le> 7"
    using wNewQrCode_auto [OF v cs] by metis
  have "find (\<lambda>v. int (length ?bytes) \<le> roomFor v ecl) [1..<41] = Some version"
    using v room by (auto simp: find_Some_iff not_le intro!: exI [of _ "version - 1"])
  then have find: "wFindVersion (length ?bytes) ecl = Some (version, int (length data) * 8)"
    using n by (simp add: wFindVersion_room)
  obtain s where s: "encodeURIComponent text = Inr s" "map (\<lambda>c. (of_nat c :: u32) AND 0xFF) (unescapeJs s) = ?bytes"
    using wallet_bytes [OF assms(1,2)] by blast
  have "wEncodeText text (Some ecl) = wNewQrCode version ecl data (- 1)"
    unfolding wEncodeText_def s(1) option.case bindR.simps Let_def s(2) find prod.case
    using wallet_payload [OF n v room(1) e] unfolding Let_def by simp
  then show thesis using that [of version cs m data] m e v cs db n rd room by simp
qed

section \<open>Properties\<close>

text \<open>\<^bold>\<open>C12.\<close> The wallet's encoder, end to end: every text without lone surrogates that fits at the
  requested level is encoded in the smallest version that has room, at exactly that level, and
  reading the modules of the symbol gives back its UTF-8 bytes.\<close>

theorem wEncodeText_roundtrip:
  assumes "codePoints text = Some cps" and "\<forall>c \<in> set text. c < 65536"
    and "int (length (utf8Bytes cps)) \<le> byteCapacity ecl"
  shows "\<exists>q m. wEncodeText text (Some ecl) = Inr q \<and> readSymbol (qr_modules q) = Some (utf8Bytes cps)
    \<and> qr_ecl q = ecl \<and> qr_mask q = Some m \<and> 0 \<le> m \<and> m \<le> 7
    \<and> int (length (utf8Bytes cps)) \<le> roomFor (qr_version q) ecl
    \<and> (\<forall>v. 1 \<le> v \<longrightarrow> v < qr_version q \<longrightarrow> roomFor v ecl < int (length (utf8Bytes cps)))"
proof -
  from wEncodeText_ok [OF assms] obtain version data cs m where
    e: "wEncodeText text (Some ecl) = Inr (finished version ecl cs m)" and v: "1 \<le> version" "version \<le> 40"
    and m: "0 \<le> m" "m \<le> 7" and cs: "addEccAndInterleave version ecl data = Inr cs" and b: "\<forall>b \<in> set data. is_byte b"
    and len: "getNumDataCodewords version ecl = Some (int (length data))"
    and p: "readPayload version data = Some (utf8Bytes cps)"
    and room: "int (length (utf8Bytes cps)) \<le> roomFor version ecl"
      "\<forall>v. 1 \<le> v \<longrightarrow> v < version \<longrightarrow> roomFor v ecl < int (length (utf8Bytes cps))"
    by metis
  then show ?thesis
    using readSymbol_finished [OF v m b len cs]
    by (intro exI [of _ "finished version ecl cs m"] exI [of _ m]) (simp add: finished_def)
qed

theorem wEncodeText_roundtrip_witness:
  "\<exists>q m. wEncodeText [111, 98, 120, 8364] (Some MEDIUM) = Inr q
    \<and> readSymbol (qr_modules q) = Some [111, 98, 120, 0xE2, 0x82, 0xAC] \<and> qr_mask q = Some m"
  using wEncodeText_roundtrip [of "[111, 98, 120, 8364]" "[111, 98, 120, 8364]" MEDIUM]
  by (auto simp: is_high_def is_low_def utf8_def byteCapacity_def)

text \<open>The two ways the wallet's encoder refuses a text: the \<^verbatim>\<open>URIError\<close> of
  \<^verbatim>\<open>encodeURIComponent\<close> for a lone surrogate, its own error when no version has room. A missing
  level is level L.\<close>

theorem wEncodeText_errors:
  assumes "\<forall>c \<in> set text. c < 65536"
  shows "(codePoints text = None \<longrightarrow> wEncodeText text (Some ecl) = Inl (URIError ''URI malformed''))
    \<and> (codePoints text = Some cps \<longrightarrow> byteCapacity ecl < int (length (utf8Bytes cps)) \<longrightarrow>
      wEncodeText text (Some ecl) = Inl (Error ''Data too long for QR''))
    \<and> wEncodeText text None = wEncodeText text (Some LOW)"
proof (intro conjI impI)
  assume "codePoints text = None"
  then show "wEncodeText text (Some ecl) = Inl (URIError ''URI malformed'')"
    using walletReader.read_encodeWith [OF keeps_plain_URI(2) assms] by (simp add: wEncodeText_def encodeURIComponent_def)
next
  assume cps: "codePoints text = Some cps" and long: "byteCapacity ecl < int (length (utf8Bytes cps))"
  have "find (\<lambda>v. int (length (utf8Bytes cps)) \<le> roomFor v ecl) [1..<41] = None"
    using long roomFor_le_40 [of _ ecl] roomFor_40 [of ecl] unfolding find_None_iff by fastforce
  then have "wFindVersion (length (utf8Bytes cps)) ecl = None"
    by (simp only: wFindVersion_room option.case)
  moreover obtain s where "encodeURIComponent text = Inr s" "map (\<lambda>c. (of_nat c :: u32) AND 0xFF) (unescapeJs s) = utf8Bytes cps"
    using wallet_bytes [OF cps assms] by blast
  ultimately show "wEncodeText text (Some ecl) = Inl (Error ''Data too long for QR'')"
    by (simp only: wEncodeText_def option.case bindR.simps Let_def)
next
  show "wEncodeText text None = wEncodeText text (Some LOW)" by (simp add: wEncodeText_def)
qed

text \<open>\<^bold>\<open>C6.\<close> The two encoders build the same symbol: for every version, level, mask and payload of
  the right length, the wallet's constructor returns the record the dashboard's constructor returns.\<close>

theorem wallet_symbol_is_dashboard_symbol:
  assumes "1 \<le> version" and "version \<le> 40" and "0 \<le> m" and "m \<le> 7" and "\<forall>b \<in> set data. is_byte b"
    and "getNumDataCodewords version ecl = Some (int (length data))"
  shows "wNewQrCode version ecl data m = newQrCode version ecl data m
    \<and> (\<exists>q. wNewQrCode version ecl data m = Inr q)"
proof -
  obtain cs where "addEccAndInterleave version ecl data = Inr cs"
    using addEccAndInterleave_ok [OF assms(1,2,5,6)] by metis
  then show ?thesis using wNewQrCode_given newQrCode_given assms(1-4) by metis
qed

theorem wallet_symbol_is_dashboard_symbol_witness:
  "wNewQrCode 1 HIGH (replicate 9 7) 3 = newQrCode 1 HIGH (replicate 9 7) 3"
proof -
  have "getNumDataCodewords 1 HIGH = Some 9" by code_simp
  then show ?thesis
    using wallet_symbol_is_dashboard_symbol [of 1 3 "replicate 9 7" HIGH] by (simp add: is_byte_def shr_def)
qed

end
