(* ===== verification/Js_String.thy ===== *)
theory Js_String
  imports Js_Text
begin

text \<open>
  String literals, digits and decimal texts, shared by the proxy and the dashboard's formatting.
\<close>

text \<open>A string literal as UTF-16 units.\<close>

definition js :: "string \<Rightarrow> jstr" where
  "js s = map of_char s"

definition isDigit :: "nat \<Rightarrow> bool" where
  "isDigit c \<longleftrightarrow> 48 \<le> c \<and> c \<le> 57"

definition isHexDigit :: "nat \<Rightarrow> bool" where
  "isHexDigit c \<longleftrightarrow> isDigit c \<or> 97 \<le> c \<and> c \<le> 102 \<or> 65 \<le> c \<and> c \<le> 70"

fun decimalRev :: "nat \<Rightarrow> jstr" where
  "decimalRev n = (48 + n mod 10) # (if n < 10 then [] else decimalRev (n div 10))"

declare decimalRev.simps [simp del]

definition decimal :: "nat \<Rightarrow> jstr" where
  "decimal n = rev (decimalRev n)"

text \<open>\<^verbatim>\<open>parseInt(s, 10)\<close> on a string of digits; \<open>None\<close> is \<^verbatim>\<open>NaN\<close>.\<close>

definition parseDigits :: "jstr \<Rightarrow> nat option" where
  "parseDigits s = (if s = [] then None else Some (foldl (\<lambda>v c. 10 * v + (c - 48)) 0 s))"

fun joinWith :: "jstr \<Rightarrow> jstr list \<Rightarrow> jstr" where
  "joinWith sep [] = []"
| "joinWith sep [s] = s"
| "joinWith sep (s # t # ss) = s @ sep @ joinWith sep (t # ss)"

section \<open>Digits and decimal texts\<close>

lemma js_inj: "js s = js t \<longleftrightarrow> s = t"
  by (simp add: js_def inj_map_eq_map [OF inj_of_char])

lemma js_Nil [simp]: "js [] = []" "js s = [] \<longleftrightarrow> s = []"
  by (simp_all add: js_def)

lemma decimal_digits: "\<forall>c \<in> set (decimal n). isDigit c"
proof -
  have "\<forall>c \<in> set (decimalRev n). isDigit c"
  proof (induction n rule: decimalRev.induct)
    case (1 n)
    have "n mod 10 < 10" by simp
    with 1 show ?case by (cases "n < 10") (simp_all add: decimalRev.simps [of n] isDigit_def)
  qed
  then show ?thesis by (simp add: decimal_def)
qed

lemma set_joinWith: "set (joinWith sep ss) \<subseteq> set sep \<union> (\<Union>s \<in> set ss. set s)"
  by (induction sep ss rule: joinWith.induct) auto

end
