(* ===== verification/Proxy.thy ===== *)
theory Proxy
  imports Js_String
begin

text \<open>
  The serverless proxy \<^verbatim>\<open>website/api/explorer.js\<close> between the browser and the node's RPC
  port. A request is the record \<open>Request\<close>; the handler either answers at once or makes one
  upstream request and answers with what comes back. The upstream \<^verbatim>\<open>fetch\<close> is a parameter, as is
  the text of the members every object inherits (their source form is up to the engine).
\<close>

section \<open>JSON values\<close>

text \<open>\<^verbatim>\<open>[A-Za-z0-9/_.\-]\<close>\<close>

definition isParamChar :: "nat \<Rightarrow> bool" where
  "isParamChar c \<longleftrightarrow> is_alnum c \<or> c \<in> {47, 95, 46, 45}"

datatype json =
    JNull
  | JBool bool
  | JNum jstr \<comment> \<open>the decimal text of the number\<close>
  | JStr jstr
  | JArr "json list"
  | JObj "(jstr \<times> json) list"

definition hex4 :: "nat \<Rightarrow> jstr" where
  "hex4 c = map (\<lambda>d. if d < 10 then 48 + d else 87 + d) [c div 4096 mod 16, c div 256 mod 16, c div 16 mod 16, c mod 16]"

definition quoteUnit :: "nat \<Rightarrow> jstr" where
  "quoteUnit c =
     (if c = 34 then [92, 34] else if c = 92 then [92, 92] else if c = 8 then [92, 98]
      else if c = 12 then [92, 102] else if c = 10 then [92, 110] else if c = 13 then [92, 114]
      else if c = 9 then [92, 116] else if c < 32 then [92, 117] @ hex4 c else [c])"

text \<open>Surrogates are copied in pairs and escaped when they stand alone.\<close>

fun quoteUnits :: "jstr \<Rightarrow> jstr" where
  "quoteUnits [] = []"
| "quoteUnits [c] = (if is_high c \<or> is_low c then [92, 117] @ hex4 c else quoteUnit c)"
| "quoteUnits (c # d # s) =
     (if is_high c \<and> is_low d then [c, d] @ quoteUnits s
      else if is_high c \<or> is_low c then [92, 117] @ hex4 c @ quoteUnits (d # s)
      else quoteUnit c @ quoteUnits (d # s))"

definition quoteJson :: "jstr \<Rightarrow> jstr" where
  "quoteJson s = [34] @ quoteUnits s @ [34]"

fun stringify :: "json \<Rightarrow> jstr" where
  "stringify JNull = js ''null''"
| "stringify (JBool b) = (if b then js ''true'' else js ''false'')"
| "stringify (JNum t) = t"
| "stringify (JStr s) = quoteJson s"
| "stringify (JArr xs) = [91] @ joinWith [44] (map stringify xs) @ [93]"
| "stringify (JObj kvs) = [123] @ joinWith [44] (map (\<lambda>(k, v). quoteJson k @ [58] @ stringify v) kvs) @ [125]"

definition falsyJson :: "json option \<Rightarrow> bool" where
  "falsyJson b \<longleftrightarrow> b \<in> {None, Some JNull, Some (JBool False), Some (JNum (js ''0'')), Some (JStr [])}"

section \<open>Requests and responses\<close>

datatype qval = QStr jstr | QArr "jstr list"

record Request =
  req_query :: "jstr \<Rightarrow> qval option"
  req_method :: jstr
  req_body :: "json option"
  req_headers :: "(jstr \<times> jstr) list"

record Upstream =
  up_url :: jstr
  up_method :: jstr
  up_headers :: "(jstr \<times> jstr) list"
  up_body :: "jstr option"
  up_timeout :: nat

datatype payload = Json "(jstr \<times> jstr) list" | Text jstr

record Response =
  res_status :: nat
  res_headers :: "(jstr \<times> jstr) list"
  res_payload :: payload

text \<open>\<^verbatim>\<open>String(v)\<close>, and \<^verbatim>\<open>String(req.query[k] || d)\<close>: an empty string is falsy, an array never is.\<close>

fun qstring :: "qval \<Rightarrow> jstr" where
  "qstring (QStr s) = s"
| "qstring (QArr ss) = joinWith [44] ss"

definition queryOr :: "Request \<Rightarrow> string \<Rightarrow> string \<Rightarrow> jstr" where
  "queryOr req k d = (case req_query req (js k) of
     None \<Rightarrow> js d | Some (QStr s) \<Rightarrow> if s = [] then js d else s | Some v \<Rightarrow> qstring v)"

section \<open>The tables\<close>

definition getTable :: "(string \<times> string) list" where
  "getTable =
     [(''summary'', ''/explorer/summary''), (''mempool'', ''/explorer/mempool''), (''vaults'', ''/explorer/vaults''),
      (''height'', ''/height''), (''feerate'', ''/feerate''), (''offers'', ''/offers''), (''offersjson'', ''/offers/json''),
      (''pricehistory'', ''/explorer/pricehistory''), (''swaps'', ''/explorer/swaps''), (''liquidity'', ''/liquidity''),
      (''swapsactive'', ''/swaps/active''), (''autoliquidity'', ''/auto-liquidity'')]"

definition getQTable :: "(string \<times> string) list" where
  "getQTable = [(''trades'', ''/trades''), (''candles'', ''/candles''), (''stats'', ''/stats''), (''orders'', ''/orders'')]"

definition postTable :: "(string \<times> string) list" where
  "postTable = [(''submittx'', ''/submittx''), (''offer'', ''/offer''), (''swapstake'', ''/swaps/take'')]"

text \<open>\<^verbatim>\<open>table[path]\<close>: own entries first, then what the object inherits, whose text is \<open>native\<close>.\<close>

definition tableLookup :: "(jstr \<Rightarrow> jstr) \<Rightarrow> (string \<times> string) list \<Rightarrow> jstr \<Rightarrow> jstr option" where
  "tableLookup native table path =
     (case map_of (map (\<lambda>(k, v). (js k, js v)) table) path of
        Some v \<Rightarrow> Some v
      | None \<Rightarrow> if path \<in> set (map js inheritedNames) then Some (native path) else None)"

section \<open>The handler\<close>

text \<open>\<^verbatim>\<open>base.replace(/\/$/, "")\<close>\<close>

definition stripSlash :: "jstr \<Rightarrow> jstr" where
  "stripSlash s = (if s \<noteq> [] \<and> last s = 47 then butlast s else s)"

definition digitsOf :: "Request \<Rightarrow> string \<Rightarrow> jstr" where
  "digitsOf req k = filter isDigit (queryOr req k ''0'')"

definition countOf :: "Request \<Rightarrow> nat" where
  "countOf req =
     (let count = (case parseDigits (filter isDigit (queryOr req ''count'' ''256'')) of
                     None \<Rightarrow> 256 | Some n \<Rightarrow> if n = 0 then 256 else n)
      in if count > 256 then 256 else count)"

text \<open>\<^verbatim>\<open>URLSearchParams.toString\<close>: form encoding of the pairs in insertion order.\<close>

definition formEncodeUnit :: "nat \<Rightarrow> jstr" where
  "formEncodeUnit c =
     (if is_alnum c \<or> c \<in> {42, 45, 46, 95} then [c] else if c = 32 then [43] else percentEncode c)"

definition formEncode :: "jstr \<Rightarrow> jstr" where
  "formEncode s = concat (map formEncodeUnit s)"

definition searchParams :: "(jstr \<times> jstr) list \<Rightarrow> jstr" where
  "searchParams kvs = joinWith [38] (map (\<lambda>(k, v). formEncode k @ [61] @ formEncode v) kvs)"

definition forwardedParams :: "Request \<Rightarrow> (jstr \<times> jstr) list" where
  "forwardedParams req =
     concat (map (\<lambda>k. case req_query req (js k) of None \<Rightarrow> []
        | Some v \<Rightarrow> [(js k, filter isParamChar (take 64 (qstring v)))])
       [''pair'', ''limit'', ''interval'', ''maker''])"

definition bodyText :: "json option \<Rightarrow> jstr" where
  "bodyText b = (case b of Some (JStr s) \<Rightarrow> s | _ \<Rightarrow> stringify (if falsyJson b then JObj [] else the b))"

datatype route = Answer nat string | Forward jstr jstr "jstr option"

definition routeOf :: "(jstr \<Rightarrow> jstr) \<Rightarrow> jstr \<Rightarrow> Request \<Rightarrow> route" where
  "routeOf native root' req =
     (let path = queryOr req ''path'' ''''
      in if path = js ''block''
         then Forward (root' @ js ''/explorer/block?height='' @ digitsOf req ''height'') (js ''GET'') None
         else if path = js ''rawblock''
         then Forward (root' @ js ''/block?height='' @ digitsOf req ''height'') (js ''GET'') None
         else if path = js ''rawblocks''
         then Forward (root' @ js ''/blocks?from='' @ digitsOf req ''from'' @ js ''&count='' @ decimal (countOf req)) (js ''GET'') None
         else case tableLookup native getTable path of
           Some p \<Rightarrow> Forward (root' @ p) (js ''GET'') None
         | None \<Rightarrow>
         (case tableLookup native getQTable path of
           Some p \<Rightarrow> (let qs = searchParams (forwardedParams req)
                      in Forward (root' @ p @ (if qs \<noteq> [] then [63] @ qs else [])) (js ''GET'') None)
         | None \<Rightarrow>
         if path = js ''order''
         then Forward (root' @ js ''/order/'' @ take 64 (filter isHexDigit (queryOr req ''id'' ''''))) (js ''GET'') None
         else case tableLookup native postTable path of
           Some p \<Rightarrow>
             if req_method req \<noteq> js ''POST'' then Answer 405 ''POST required''
             else Forward (root' @ p) (js ''POST'')
                    (Some (bodyText (req_body req)))
         | None \<Rightarrow> Answer 400 ''unknown path''))"

definition errorResponse :: "nat \<Rightarrow> (jstr \<times> jstr) list \<Rightarrow> Response" where
  "errorResponse status kvs = \<lparr>res_status = status, res_headers = [], res_payload = Json kvs\<rparr>"

definition upstreamOf :: "jstr \<Rightarrow> jstr \<Rightarrow> jstr option \<Rightarrow> Upstream" where
  "upstreamOf url method body =
     \<lparr>up_url = url, up_method = method,
      up_headers = (if method = js ''POST'' then [(js ''Content-Type'', js ''application/json'')] else []),
      up_body = (if method = js ''POST'' then body else None), up_timeout = 8000\<rparr>"

text \<open>\<open>fetch\<close> gives the status and text of the node's answer, or the text of the exception.\<close>

definition handler :: "(Upstream \<Rightarrow> jstr + (nat \<times> jstr)) \<Rightarrow> (jstr \<Rightarrow> jstr) \<Rightarrow> jstr option \<Rightarrow> Request \<Rightarrow> Upstream option \<times> Response" where
  "handler fetch native NODE_RPC req =
     (if NODE_RPC \<in> {None, Some []}
      then (None, errorResponse 500 [(js ''error'', js ''NODE_RPC env not configured'')])
      else case routeOf native (stripSlash (the NODE_RPC)) req of
        Answer status msg \<Rightarrow> (None, errorResponse status [(js ''error'', js msg)])
      | Forward url method body \<Rightarrow>
          (let up = upstreamOf url method body
           in (Some up,
               case fetch up of
                 Inl e \<Rightarrow> errorResponse 502 [(js ''error'', js ''node unreachable''), (js ''detail'', e)]
               | Inr (status, text) \<Rightarrow>
                   \<lparr>res_status = status,
                    res_headers = [(js ''Content-Type'', js ''application/json'')]
                      @ (if method = js ''GET'' then [(js ''Cache-Control'', js ''public, max-age=2, s-maxage=2'')] else []),
                    res_payload = Text text\<rparr>)))"

section \<open>What may reach the node\<close>

text \<open>The whitelist as a relation: a method and the part of the URL after the configured root.\<close>

inductive allowedTarget :: "jstr \<Rightarrow> jstr \<Rightarrow> bool" where
  fixed: "(k, t) \<in> set getTable \<Longrightarrow> allowedTarget (js ''GET'') (js t)"
| explorerBlock: "\<forall>c \<in> set h. isDigit c \<Longrightarrow> allowedTarget (js ''GET'') (js ''/explorer/block?height='' @ h)"
| block: "\<forall>c \<in> set h. isDigit c \<Longrightarrow> allowedTarget (js ''GET'') (js ''/block?height='' @ h)"
| blocks: "\<forall>c \<in> set h. isDigit c \<Longrightarrow> 1 \<le> n \<Longrightarrow> n \<le> 256 \<Longrightarrow>
    allowedTarget (js ''GET'') (js ''/blocks?from='' @ h @ js ''&count='' @ decimal n)"
| market: "(k, t) \<in> set getQTable \<Longrightarrow> allowedTarget (js ''GET'') (js t)"
| marketQuery: "(k, t) \<in> set getQTable \<Longrightarrow> kvs \<noteq> [] \<Longrightarrow>
    \<forall>(k, v) \<in> set kvs. k \<in> js ` {''pair'', ''limit'', ''interval'', ''maker''} \<and> length v \<le> 64 \<and> (\<forall>c \<in> set v. isParamChar c) \<Longrightarrow>
    allowedTarget (js ''GET'') (js t @ [63] @ searchParams kvs)"
| order: "length h \<le> 64 \<Longrightarrow> \<forall>c \<in> set h. isHexDigit c \<Longrightarrow> allowedTarget (js ''GET'') (js ''/order/'' @ h)"
| writing: "(k, t) \<in> set postTable \<Longrightarrow> allowedTarget (js ''POST'') (js t)"

text \<open>The characters such a target can have: nothing that ends the path or query or starts a
  new one.\<close>

definition targetUnit :: "nat \<Rightarrow> bool" where
  "targetUnit c \<longleftrightarrow> is_alnum c \<or> c \<in> {47, 95, 46, 45, 63, 61, 38, 37}"

lemma digit_targetUnit: "isDigit c \<Longrightarrow> targetUnit c"
  by (auto simp: isDigit_def targetUnit_def is_alnum_def)

lemma hex_targetUnit: "isHexDigit c \<Longrightarrow> targetUnit c"
  by (auto simp: isHexDigit_def isDigit_def targetUnit_def is_alnum_def)

lemma formEncode_param:
  assumes "\<forall>c \<in> set v. isParamChar c" and "x \<in> set (formEncode v)"
  shows "targetUnit x"
proof -
  obtain c where c: "isParamChar c" "x \<in> set (formEncodeUnit c)" using assms by (auto simp: formEncode_def)
  show ?thesis
  proof (cases "c = 47")
    case True
    have "formEncodeUnit 47 = [37, 50, 70]" by code_simp
    then show ?thesis using c(2) True by (auto simp: targetUnit_def is_alnum_def)
  next
    case False
    then have "formEncodeUnit c = [c]" using c(1) by (auto simp: isParamChar_def formEncodeUnit_def)
    then show ?thesis using c by (auto simp: isParamChar_def targetUnit_def)
  qed
qed

lemma literal_targets:
  "list_all (\<lambda>(k, t). list_all targetUnit (js t)) (getTable @ getQTable @ postTable)"
  "list_all (\<lambda>t. list_all targetUnit (js t)) [''/explorer/block?height='', ''/block?height='', ''/blocks?from='', ''&count='', ''/order/'']"
  "list_all (\<lambda>t. list_all isParamChar (js t)) [''pair'', ''limit'', ''interval'', ''maker'']"
  by code_simp+

lemma searchParams_units:
  assumes "\<forall>(k, v) \<in> set kvs. (\<forall>c \<in> set k. isParamChar c) \<and> (\<forall>c \<in> set v. isParamChar c)"
  shows "\<forall>c \<in> set (searchParams kvs). targetUnit c"
proof
  fix c assume "c \<in> set (searchParams kvs)"
  then consider "c = 38" | k v where "(k, v) \<in> set kvs" "c \<in> set (formEncode k) \<union> {61} \<union> set (formEncode v)"
    using set_joinWith [of "[38]" "map (\<lambda>(k, v). formEncode k @ [61] @ formEncode v) kvs"]
    by (fastforce simp: searchParams_def)
  then show "targetUnit c"
  proof cases
    case 2
    then have "\<forall>c \<in> set k. isParamChar c" "\<forall>c \<in> set v. isParamChar c" using assms by auto
    then show ?thesis using 2(2) formEncode_param [of k c] formEncode_param [of v c] by (auto simp: targetUnit_def)
  qed (simp add: targetUnit_def)
qed

lemma table_units:
  "(k, t) \<in> set getTable \<Longrightarrow> c \<in> set (js t) \<Longrightarrow> targetUnit c"
  "(k, t) \<in> set getQTable \<Longrightarrow> c \<in> set (js t) \<Longrightarrow> targetUnit c"
  "(k, t) \<in> set postTable \<Longrightarrow> c \<in> set (js t) \<Longrightarrow> targetUnit c"
  using literal_targets(1) unfolding list_all_append by (fastforce simp: list_all_iff)+

lemma allowedTarget_units: "allowedTarget m t \<Longrightarrow> \<forall>c \<in> set t. targetUnit c"
proof (induction rule: allowedTarget.induct)
  case (marketQuery k t kvs)
  have "\<forall>(k, v) \<in> set kvs. (\<forall>c \<in> set k. isParamChar c) \<and> (\<forall>c \<in> set v. isParamChar c)"
    using marketQuery(3) literal_targets(3) by (auto simp: list_all_iff)
  from searchParams_units [OF this] table_units(2) [OF marketQuery(1)] show ?case
    by (auto simp: targetUnit_def [of 63])
qed (use table_units literal_targets(2) digit_targetUnit hex_targetUnit decimal_digits in \<open>auto simp: list_all_iff\<close>)+

section \<open>Routing\<close>

lemma inherited_not_listed:
  "list_all (\<lambda>n. map_of (map (\<lambda>(k, v). (js k, js v)) getTable) (js n) = None
     \<and> js n \<notin> {js ''block'', js ''rawblock'', js ''rawblocks''}) inheritedNames"
  by code_simp

lemma tableLookup_Some:
  assumes "tableLookup native table path = Some p" and "path \<notin> set (map js inheritedNames)"
  shows "\<exists>k t. (k, t) \<in> set table \<and> path = js k \<and> p = js t"
  using assms by (fastforce simp: tableLookup_def dest: map_of_SomeD split: option.splits if_splits)

lemma countOf_bounds: "1 \<le> countOf req" "countOf req \<le> 256"
  by (auto simp: countOf_def Let_def split: option.splits)

lemma digitsOf_digits: "\<forall>c \<in> set (digitsOf req k). isDigit c"
  by (simp add: digitsOf_def)

lemma forwardedParams_ok:
  "\<forall>(k, v) \<in> set (forwardedParams req). k \<in> js ` {''pair'', ''limit'', ''interval'', ''maker''}
     \<and> length v \<le> 64 \<and> (\<forall>c \<in> set v. isParamChar c)"
proof -
  have "length (filter isParamChar (take 64 s)) \<le> 64" for s
    using length_filter_le [of isParamChar "take 64 s"] by simp
  then show ?thesis by (auto simp: forwardedParams_def split: option.splits)
qed

lemma searchParams_Nil: "searchParams kvs = [] \<longleftrightarrow> kvs = []"
proof (cases kvs)
  case (Cons kv rest)
  then show ?thesis by (cases rest) (auto simp: searchParams_def split: prod.splits)
qed (simp add: searchParams_def)

lemma routeOf_allowed:
  assumes "routeOf native root' req = Forward url method body" and "queryOr req ''path'' '''' \<notin> set (map js inheritedNames)"
  shows "\<exists>t. url = root' @ t \<and> allowedTarget method t \<and> (body \<noteq> None \<longleftrightarrow> method = js ''POST'')
    \<and> (method = js ''POST'' \<longrightarrow> req_method req = js ''POST'')"
proof -
  let ?path = "queryOr req ''path'' ''''"
  have post: "js ''GET'' \<noteq> js ''POST''" by (simp add: js_inj)
  have "length (take 64 (filter isHexDigit s)) \<le> 64" "\<forall>c \<in> set (take 64 (filter isHexDigit s)). isHexDigit c" for s
    by (auto dest: in_set_takeD)
  note order = allowedTarget.order [OF this]
  note intros = allowedTarget.explorerBlock [OF digitsOf_digits] allowedTarget.block [OF digitsOf_digits]
    allowedTarget.blocks [OF digitsOf_digits countOf_bounds] order
  show ?thesis
  proof (cases "?path \<in> js ` {''block'', ''rawblock'', ''rawblocks''}")
    case True
    then show ?thesis using assms(1) intros post by (auto simp: routeOf_def js_inj)
  next
    case no1: False
    show ?thesis
    proof (cases "tableLookup native getTable ?path")
      case (Some p)
      with tableLookup_Some [OF Some assms(2)] show ?thesis
        using assms(1) no1 post allowedTarget.fixed by (auto simp: routeOf_def)
    next
      case no2: None
      show ?thesis
      proof (cases "tableLookup native getQTable ?path")
        case (Some p)
        then obtain k t where kt: "(k, t) \<in> set getQTable" "p = js t" using tableLookup_Some [OF Some assms(2)] by auto
        show ?thesis
          using assms(1) no1 no2 Some kt post allowedTarget.market [OF kt(1)]
            allowedTarget.marketQuery [OF kt(1) _ forwardedParams_ok, of req]
          by (auto simp: routeOf_def Let_def searchParams_Nil split: if_splits)
      next
        case no3: None
        show ?thesis
        proof (cases "?path = js ''order''")
          case True
          then show ?thesis using assms(1) no1 no2 no3 intros post by (auto simp: routeOf_def)
        next
          case False
          then obtain p where p: "tableLookup native postTable ?path = Some p"
            using assms(1) no1 no2 no3 by (auto simp: routeOf_def split: option.splits)
          from tableLookup_Some [OF p assms(2)] show ?thesis
            using assms(1) no1 no2 no3 False p allowedTarget.writing
            by (auto simp: routeOf_def split: if_splits)
        qed
      qed
    qed
  qed
qed

section \<open>Properties\<close>

text \<open>\<^bold>\<open>C2.\<close> The whitelist: when the proxy forwards a request whose path is not the name of an
  inherited object member, the URL is the configured root followed by one of the whitelisted targets,
  with digits, at most 256 blocks, hexadecimal ids of at most 64 digits and query values of at most 64
  plain characters, made of characters that cannot leave the path or query; a write is forwarded only
  for a POST request, and the request carries no header but its own content type.\<close>

theorem proxy_whitelist:
  assumes "fst (handler fetch native (Some base) req) = Some up"
    and "queryOr req ''path'' '''' \<notin> set (map js inheritedNames)"
  shows "\<exists>t. up_url up = stripSlash base @ t \<and> allowedTarget (up_method up) t \<and> (\<forall>c \<in> set t. targetUnit c)
    \<and> (up_method up = js ''POST'' \<longrightarrow> req_method req = js ''POST'')
    \<and> up_headers up = (if up_method up = js ''POST'' then [(js ''Content-Type'', js ''application/json'')] else [])
    \<and> up_timeout up = 8000"
proof -
  obtain url verb body where r: "routeOf native (stripSlash base) req = Forward url verb body"
    and up: "up = upstreamOf url verb body"
    using assms(1) by (auto simp: handler_def Let_def split: if_splits route.splits)
  from routeOf_allowed [OF r assms(2)] show ?thesis
    using allowedTarget_units by (auto simp: up upstreamOf_def)
qed

theorem proxy_whitelist_witness:
  "\<exists>t. up_url (the (fst (handler (\<lambda>_. Inr (200, [])) id (Some (js ''http://10.0.0.1:18081/''))
      \<lparr>req_query = [js ''path'' \<mapsto> QStr (js ''trades''), js ''pair'' \<mapsto> QStr (js ''OBX/XNO&x'')],
       req_method = js ''GET'', req_body = None, req_headers = []\<rparr>)))
    = js ''http://10.0.0.1:18081'' @ t \<and> allowedTarget (js ''GET'') t"
proof -
  let ?req = "\<lparr>req_query = [js ''path'' \<mapsto> QStr (js ''trades''), js ''pair'' \<mapsto> QStr (js ''OBX/XNO&x'')],
       req_method = js ''GET'', req_body = None, req_headers = []\<rparr>"
  let ?h = "handler (\<lambda>_. Inr (200, [])) id (Some (js ''http://10.0.0.1:18081/'')) ?req"
  have path: "queryOr ?req ''path'' '''' = js ''trades''" by (simp add: queryOr_def js_inj)
  have out: "queryOr ?req ''path'' '''' \<notin> set (map js inheritedNames)"
    unfolding path by (simp add: js_inj inheritedNames_def)
  have route: "\<exists>u. routeOf id r ?req = Forward u (js ''GET'') None" for r
    unfolding routeOf_def path
    by (simp add: js_inj tableLookup_def getTable_def getQTable_def inheritedNames_def Let_def)
  obtain u where u: "routeOf id (stripSlash (js ''http://10.0.0.1:18081/'')) ?req = Forward u (js ''GET'') None"
    using route by blast
  then have h: "fst ?h = Some (upstreamOf u (js ''GET'') None)" by (simp add: handler_def js_def)
  have strip: "stripSlash (js ''http://10.0.0.1:18081/'') = js ''http://10.0.0.1:18081''" by code_simp
  from proxy_whitelist [OF h out] show ?thesis
    unfolding h strip by (auto simp: upstreamOf_def js_inj)
qed

text \<open>\<^bold>\<open>C29.\<close> The whitelist tables are object literals looked up with \<^verbatim>\<open>table[path]\<close>, so a path
  that names a member every object inherits (for example \<^verbatim>\<open>constructor\<close>) is not refused: the
  proxy sends a GET request to the root followed by the text of that member.\<close>

theorem proxy_inherited_path:
  assumes "name \<in> set inheritedNames" and "queryOr req ''path'' '''' = js name" and "base \<noteq> []"
  shows "fst (handler fetch native (Some base) req) =
    Some \<lparr>up_url = stripSlash base @ native (js name), up_method = js ''GET'', up_headers = [], up_body = None, up_timeout = 8000\<rparr>"
proof -
  have special: "js name \<noteq> js ''block''" "js name \<noteq> js ''rawblock''" "js name \<noteq> js ''rawblocks''"
    and "map_of (map (\<lambda>(k, v). (js k, js v)) getTable) (js name) = None"
    using assms(1) inherited_not_listed by (auto simp: list_all_iff)
  then have "tableLookup native getTable (js name) = Some (native (js name))"
    using assms(1) by (simp add: tableLookup_def)
  then show ?thesis
    using assms(2,3) special by (simp add: handler_def routeOf_def upstreamOf_def js_inj Let_def)
qed

theorem proxy_inherited_path_witness:
  "fst (handler (\<lambda>_. Inr (200, [])) (\<lambda>_. js ''function Object() { [native code] }'') (Some (js ''http://node''))
     \<lparr>req_query = [js ''path'' \<mapsto> QStr (js ''constructor'')], req_method = js ''GET'', req_body = None, req_headers = []\<rparr>)
   = Some \<lparr>up_url = js ''http://nodefunction Object() { [native code] }'', up_method = js ''GET'', up_headers = [],
       up_body = None, up_timeout = 8000\<rparr>"
proof -
  let ?req = "\<lparr>req_query = [js ''path'' \<mapsto> QStr (js ''constructor'')], req_method = js ''GET'', req_body = None, req_headers = []\<rparr>"
  have "queryOr ?req ''path'' '''' = js ''constructor''" by (simp add: queryOr_def js_inj)
  moreover have "''constructor'' \<in> set inheritedNames" by (simp add: inheritedNames_def)
  moreover have "js ''http://node'' \<noteq> []" by (simp add: js_def)
  moreover have "stripSlash (js ''http://node'') @ js ''function Object() { [native code] }''
      = js ''http://nodefunction Object() { [native code] }''" by code_simp
  ultimately show ?thesis
    using proxy_inherited_path [of "''constructor''" ?req "js ''http://node''" "\<lambda>_. Inr (200, [])"
        "\<lambda>_. js ''function Object() { [native code] }''"] by simp
qed

section \<open>Which requests get which answer\<close>

text \<open>The paths the interface has: those that read, and those that write and want a POST request.\<close>

definition readPaths :: "string list" where
  "readPaths = [''summary'', ''mempool'', ''vaults'', ''height'', ''feerate'', ''offers'', ''offersjson'', ''pricehistory'', ''swaps'',
     ''liquidity'', ''swapsactive'', ''autoliquidity'', ''trades'', ''candles'', ''stats'', ''orders'', ''order'', ''block'', ''rawblock'', ''rawblocks'']"

definition writePaths :: "string list" where
  "writePaths = [''submittx'', ''offer'', ''swapstake'']"

lemma tableLookup_None:
  "tableLookup native table path = None \<longleftrightarrow> path \<notin> js ` fst ` set table \<and> path \<notin> js ` set inheritedNames"
proof -
  have keys: "fst ` set (map (\<lambda>(k, v). (js k, js v)) table) = js ` fst ` set table" by (force simp: image_image)
  have "map_of (map (\<lambda>(k, v). (js k, js v)) table) path = None \<longleftrightarrow> path \<notin> js ` fst ` set table"
    unfolding map_of_eq_None_iff keys ..
  then show ?thesis by (auto simp: tableLookup_def split: option.splits)
qed

lemma path_lists:
  "set readPaths = fst ` set getTable \<union> fst ` set getQTable \<union> {''order'', ''block'', ''rawblock'', ''rawblocks''}"
  "set writePaths = fst ` set postTable"
  by (auto simp: readPaths_def writePaths_def getTable_def getQTable_def postTable_def)

lemma paths_disjoint: "list_all (\<lambda>w. w \<notin> set readPaths \<and> w \<notin> set inheritedNames) writePaths"
  by code_simp

lemma js_mem: "js n \<in> js ` S \<longleftrightarrow> n \<in> S"
  by (auto simp: js_inj)

lemma routeOf_unknown:
  assumes "queryOr req ''path'' '''' \<notin> js ` set (readPaths @ writePaths @ inheritedNames)"
  shows "routeOf native r req = Answer 400 ''unknown path''"
proof -
  let ?p = "queryOr req ''path'' ''''"
  have "?p \<noteq> js ''block''" "?p \<noteq> js ''rawblock''" "?p \<noteq> js ''rawblocks''" "?p \<noteq> js ''order''"
    "tableLookup native getTable ?p = None" "tableLookup native getQTable ?p = None" "tableLookup native postTable ?p = None"
    using assms unfolding tableLookup_None by (auto simp: path_lists image_Un)
  then show ?thesis by (simp add: routeOf_def)
qed

lemma routeOf_write:
  assumes "queryOr req ''path'' '''' = js n" and "n \<in> set writePaths"
  shows "\<exists>u b. routeOf native r req = (if req_method req = js ''POST'' then Forward u (js ''POST'') (Some b) else Answer 405 ''POST required'')"
proof -
  have d: "n \<notin> set readPaths" "n \<notin> set inheritedNames" using assms(2) paths_disjoint by (auto simp: list_all_iff)
  have "js n \<noteq> js ''block''" "js n \<noteq> js ''rawblock''" "js n \<noteq> js ''rawblocks''" "js n \<noteq> js ''order''"
    "tableLookup native getTable (js n) = None" "tableLookup native getQTable (js n) = None"
    using d unfolding tableLookup_None js_mem by (auto simp: path_lists js_inj)
  moreover have "tableLookup native postTable (js n) \<noteq> None" using assms(2) unfolding tableLookup_None js_mem path_lists by simp
  ultimately show ?thesis using assms(1) by (auto simp: routeOf_def)
qed

lemma routeOf_read:
  assumes "queryOr req ''path'' '''' = js n" and "n \<in> set (readPaths @ inheritedNames)"
  shows "\<exists>u. routeOf native r req = Forward u (js ''GET'') None"
proof (cases "n \<in> {''order'', ''block'', ''rawblock'', ''rawblocks''}")
  case True
  moreover have "js ''order'' \<notin> js ` fst ` set getTable" "js ''order'' \<notin> js ` fst ` set getQTable" "js ''order'' \<notin> js ` set inheritedNames"
    unfolding js_mem by (simp_all add: getTable_def getQTable_def inheritedNames_def)
  then have "tableLookup native getTable (js ''order'') = None" "tableLookup native getQTable (js ''order'') = None"
    unfolding tableLookup_None by blast+
  ultimately show ?thesis using assms(1) by (auto simp: routeOf_def js_inj)
next
  case False
  then have special: "js n \<noteq> js ''block''" "js n \<noteq> js ''rawblock''" "js n \<noteq> js ''rawblocks''" by (auto simp: js_inj)
  have "n \<in> fst ` set getTable \<or> n \<in> fst ` set getQTable \<or> n \<in> set inheritedNames" using False assms(2) by (auto simp: path_lists)
  then have "tableLookup native getTable (js n) \<noteq> None \<or> tableLookup native getQTable (js n) \<noteq> None"
    unfolding tableLookup_None js_mem by blast
  then show ?thesis using assms(1) special by (auto simp: routeOf_def Let_def split: option.splits)
qed

text \<open>\<^bold>\<open>C30.\<close> Which request gets which answer. Without a configured node every request is answered 500. With one: a path that is
  none of the twenty that read, the three that write and the names every object inherits is answered 400; a path that writes, with
  a method other than POST, is answered 405; and in these cases nothing is sent upstream. All other
  requests, and no others, are sent upstream, a POST for the paths that write and a GET otherwise. If that fails the answer is 502 with the text of
  the exception; if not it is the node's status and text as JSON, to be cached for two seconds unless it answers a write. Neither what
  is sent nor the answer depends on the headers of the client's request.\<close>

theorem proxy_answers:
  assumes path: "path = queryOr req ''path'' ''''"
  shows "(NODE_RPC \<in> {None, Some []} \<longrightarrow>
      handler fetch native NODE_RPC req =
        (None, \<lparr>res_status = 500, res_headers = [], res_payload = Json [(js ''error'', js ''NODE_RPC env not configured'')]\<rparr>))
    \<and> (NODE_RPC \<notin> {None, Some []} \<longrightarrow>
        (path \<notin> js ` set (readPaths @ writePaths @ inheritedNames) \<longrightarrow>
          handler fetch native NODE_RPC req = (None, \<lparr>res_status = 400, res_headers = [], res_payload = Json [(js ''error'', js ''unknown path'')]\<rparr>))
      \<and> (path \<in> js ` set writePaths \<and> req_method req \<noteq> js ''POST'' \<longrightarrow>
          handler fetch native NODE_RPC req = (None, \<lparr>res_status = 405, res_headers = [], res_payload = Json [(js ''error'', js ''POST required'')]\<rparr>))
      \<and> (path \<in> js ` set (readPaths @ inheritedNames) \<or> path \<in> js ` set writePaths \<and> req_method req = js ''POST'' \<longrightarrow>
          (\<exists>up. up_method up = (if path \<in> js ` set writePaths then js ''POST'' else js ''GET'')
            \<and> handler fetch native NODE_RPC req = (Some up,
                case fetch up of
                  Inl e \<Rightarrow> \<lparr>res_status = 502, res_headers = [], res_payload = Json [(js ''error'', js ''node unreachable''), (js ''detail'', e)]\<rparr>
                | Inr (status, text) \<Rightarrow> \<lparr>res_status = status,
                    res_headers = (js ''Content-Type'', js ''application/json'')
                      # (if path \<in> js ` set writePaths then [] else [(js ''Cache-Control'', js ''public, max-age=2, s-maxage=2'')]),
                    res_payload = Text text\<rparr>))))
    \<and> handler fetch native NODE_RPC (req\<lparr>req_headers := hs\<rparr>) = handler fetch native NODE_RPC req"
proof (intro conjI impI)
  assume "NODE_RPC \<in> {None, Some []}"
  then show "handler fetch native NODE_RPC req =
      (None, \<lparr>res_status = 500, res_headers = [], res_payload = Json [(js ''error'', js ''NODE_RPC env not configured'')]\<rparr>)"
    by (simp add: handler_def errorResponse_def)
next
  assume on: "NODE_RPC \<notin> {None, Some []}" and "path \<notin> js ` set (readPaths @ writePaths @ inheritedNames)"
  then show "handler fetch native NODE_RPC req = (None, \<lparr>res_status = 400, res_headers = [], res_payload = Json [(js ''error'', js ''unknown path'')]\<rparr>)"
    using routeOf_unknown [of req] unfolding path handler_def errorResponse_def by simp
next
  assume on: "NODE_RPC \<notin> {None, Some []}" and writing: "path \<in> js ` set writePaths \<and> req_method req \<noteq> js ''POST''"
  then obtain n where n: "queryOr req ''path'' '''' = js n" "n \<in> set writePaths" unfolding path by auto
  then show "handler fetch native NODE_RPC req = (None, \<lparr>res_status = 405, res_headers = [], res_payload = Json [(js ''error'', js ''POST required'')]\<rparr>)"
    using on writing routeOf_write [OF n, of native "stripSlash (the NODE_RPC)"] unfolding handler_def errorResponse_def by auto
next
  assume on: "NODE_RPC \<notin> {None, Some []}"
    and sent: "path \<in> js ` set (readPaths @ inheritedNames) \<or> path \<in> js ` set writePaths \<and> req_method req = js ''POST''"
  define w where "w \<longleftrightarrow> path \<in> js ` set writePaths"
  let ?verb = "if w then js ''POST'' else js ''GET''"
  have "\<exists>u b. routeOf native (stripSlash (the NODE_RPC)) req = Forward u ?verb b"
  proof (cases w)
    case True
    then obtain n where n: "path = js n" "n \<in> set writePaths" by (auto simp: w_def)
    then have "n \<notin> set (readPaths @ inheritedNames)" using paths_disjoint by (auto simp: list_all_iff)
    then have "req_method req = js ''POST''" using sent unfolding n(1) js_mem by blast
    then show ?thesis using True routeOf_write [OF n(1) [unfolded path] n(2), of native "stripSlash (the NODE_RPC)"] by auto
  next
    case False
    then obtain n where n: "path = js n" "n \<in> set (readPaths @ inheritedNames)" using sent unfolding w_def by blast
    show ?thesis using False routeOf_read [OF n(1) [unfolded path] n(2), of native "stripSlash (the NODE_RPC)"] by auto
  qed
  then obtain u b where r: "routeOf native (stripSlash (the NODE_RPC)) req = Forward u ?verb b" by blast
  have "js ''POST'' \<noteq> js ''GET''" by (simp add: js_inj)
  then show "\<exists>up. up_method up = (if path \<in> js ` set writePaths then js ''POST'' else js ''GET'')
      \<and> handler fetch native NODE_RPC req = (Some up,
          case fetch up of
            Inl e \<Rightarrow> \<lparr>res_status = 502, res_headers = [], res_payload = Json [(js ''error'', js ''node unreachable''), (js ''detail'', e)]\<rparr>
          | Inr (status, text) \<Rightarrow> \<lparr>res_status = status,
              res_headers = (js ''Content-Type'', js ''application/json'')
                # (if path \<in> js ` set writePaths then [] else [(js ''Cache-Control'', js ''public, max-age=2, s-maxage=2'')]),
              res_payload = Text text\<rparr>)"
    unfolding w_def [symmetric] handler_def errorResponse_def if_not_P [OF on] r route.case Let_def
    by (intro exI [of _ "upstreamOf u ?verb b"]) (cases w; simp add: upstreamOf_def split: sum.splits prod.splits)
next
  have same: "req_query (req\<lparr>req_headers := hs\<rparr>) = req_query req" "req_body (req\<lparr>req_headers := hs\<rparr>) = req_body req"
    "req_method (req\<lparr>req_headers := hs\<rparr>) = req_method req" by simp_all
  have "routeOf native r (req\<lparr>req_headers := hs\<rparr>) = routeOf native r req" for r
    unfolding routeOf_def digitsOf_def countOf_def forwardedParams_def queryOr_def same ..
  then show "handler fetch native NODE_RPC (req\<lparr>req_headers := hs\<rparr>) = handler fetch native NODE_RPC req" by (simp add: handler_def)
qed

definition plainRequest :: "string \<Rightarrow> string \<Rightarrow> Request" where
  "plainRequest path verb = \<lparr>req_query = [js ''path'' \<mapsto> QStr (js path)], req_method = js verb, req_body = None, req_headers = []\<rparr>"

theorem proxy_answers_witness:
  "res_status (snd (handler (\<lambda>_. Inr (200, [])) id None (plainRequest ''height'' ''GET''))) = 500
   \<and> handler (\<lambda>_. Inr (200, [])) id (Some (js ''http://node'')) (plainRequest ''wallet'' ''GET'')
      = (None, \<lparr>res_status = 400, res_headers = [], res_payload = Json [(js ''error'', js ''unknown path'')]\<rparr>)
   \<and> handler (\<lambda>_. Inr (200, [])) id (Some (js ''http://node'')) (plainRequest ''offer'' ''GET'')
      = (None, \<lparr>res_status = 405, res_headers = [], res_payload = Json [(js ''error'', js ''POST required'')]\<rparr>)
   \<and> res_status (snd (handler (\<lambda>_. Inl []) id (Some (js ''http://node'')) (plainRequest ''offer'' ''POST''))) = 502
   \<and> res_status (snd (handler (\<lambda>_. Inr (418, [])) id (Some (js ''http://node'')) (plainRequest ''height'' ''GET''))) = 418"
proof -
  have q: "queryOr (plainRequest p v) ''path'' '''' = js p" "req_method (plainRequest p v) = js v" if "p \<noteq> []" for p v
    using that by (simp_all add: plainRequest_def queryOr_def js_def)
  have n: "js ''http://node'' \<noteq> []" by (simp add: js_def)
  have m: "''wallet'' \<notin> set (readPaths @ writePaths @ inheritedNames)" "''offer'' \<in> set writePaths" "''height'' \<in> set (readPaths @ inheritedNames)"
    "''height'' \<notin> set writePaths"
    by (simp_all add: readPaths_def writePaths_def inheritedNames_def)
  let ?n = "Some (js ''http://node'')"
  have "handler (\<lambda>_. Inr (200, [])) id None (plainRequest ''height'' ''GET'')
      = (None, \<lparr>res_status = 500, res_headers = [], res_payload = Json [(js ''error'', js ''NODE_RPC env not configured'')]\<rparr>)"
    by (rule proxy_answers [OF refl, THEN conjunct1, rule_format]) simp
  moreover have "handler (\<lambda>_. Inr (200, [])) id ?n (plainRequest ''wallet'' ''GET'')
      = (None, \<lparr>res_status = 400, res_headers = [], res_payload = Json [(js ''error'', js ''unknown path'')]\<rparr>)"
    by (rule proxy_answers [OF q(1) [symmetric], THEN conjunct2, THEN conjunct1, THEN mp, THEN conjunct1, THEN mp]) (use n m(1) in \<open>simp_all only: js_mem\<close>, simp_all)
  moreover have "handler (\<lambda>_. Inr (200, [])) id ?n (plainRequest ''offer'' ''GET'')
      = (None, \<lparr>res_status = 405, res_headers = [], res_payload = Json [(js ''error'', js ''POST required'')]\<rparr>)"
    by (rule proxy_answers [OF q(1) [symmetric], THEN conjunct2, THEN conjunct1, THEN mp, THEN conjunct2, THEN conjunct1, THEN mp])
      (use n m(2) in \<open>simp_all only: js_mem\<close>, simp_all add: q js_inj)
  moreover have "\<exists>up. handler (\<lambda>_. Inl []) id ?n (plainRequest ''offer'' ''POST'')
      = (Some up, \<lparr>res_status = 502, res_headers = [], res_payload = Json [(js ''error'', js ''node unreachable''), (js ''detail'', [])]\<rparr>)"
    using proxy_answers [OF q(1) [symmetric, of "''offer''" "''POST''"], of ?n "\<lambda>_. Inl []" id, THEN conjunct2, THEN conjunct1, THEN mp, THEN conjunct2, THEN conjunct2, THEN mp]
      n m(2) q(2) [of "''offer''" "''POST''"] by (auto simp: js_mem)
  moreover have "\<exists>up hs. handler (\<lambda>_. Inr (418, [])) id ?n (plainRequest ''height'' ''GET'')
      = (Some up, \<lparr>res_status = 418, res_headers = hs, res_payload = Text []\<rparr>)"
    using proxy_answers [OF q(1) [symmetric, of "''height''" "''GET''"], of ?n "\<lambda>_. Inr (418, [])" id, THEN conjunct2, THEN conjunct1, THEN mp, THEN conjunct2, THEN conjunct2, THEN mp]
      n m(3) by (auto simp: js_mem)
  ultimately show ?thesis by (metis Response.select_convs(1) snd_conv)
qed

end
