(* ===== verification/Js_Number.thy ===== *)
theory Js_Number
  imports Complex_Main Js_String "HOL-Library.Log_Nat"
begin

text \<open>
  JavaScript numbers as the sources use them: IEEE 754 doubles with rounding to nearest even, their
  arithmetic, the conversions \<^verbatim>\<open>Number(v)\<close>, \<^verbatim>\<open>String(v)\<close>, \<^verbatim>\<open>toFixed\<close> and \<^verbatim>\<open>toLocaleString("en-US")\<close>.

  A finite double is the rational number it stands for, \<open>Fin x\<close>; \<open>doubleOf\<close> rounds a rational to the
  nearest double. The sign of zero is not kept. The lemmas give the error of one rounding, that
  values with at most 53 significant bits are exact, and that rounding never crosses a double.
\<close>

section \<open>Rounding\<close>

definition floorLog2 :: "rat \<Rightarrow> int" where
  "floorLog2 x =
     (let (p, q) = quotient_of x; k = bitlen p - bitlen q in if x < 2 powi k then k - 1 else k)"

definition roundEven :: "rat \<Rightarrow> int" where
  "roundEven y =
     (let f = \<lfloor>y\<rfloor>; d = y - of_int f
      in if d < 1 / 2 then f else if d > 1 / 2 then f + 1 else if even f then f else f + 1)"

definition ulp :: "rat \<Rightarrow> rat" where
  "ulp x = 2 powi (max (- 1074) (floorLog2 \<bar>x\<bar> - 52))"

definition doubleOf :: "rat \<Rightarrow> rat" where
  "doubleOf x = (if x = 0 then 0 else of_int (roundEven (x / ulp x)) * ulp x)"

section \<open>Numbers and values\<close>

datatype jsnum = NaN | Infinite bool \<comment> \<open>negative?\<close> | Fin rat

definition toDouble :: "rat \<Rightarrow> jsnum" where
  "toDouble x = (let d = doubleOf x in if 2 ^ 1024 \<le> \<bar>d\<bar> then Infinite (x < 0) else Fin d)"

datatype jsval = Undef | Null | Boolean bool | Number jsnum | Str jstr | Arr "jsval list" | Obj "(jstr \<times> jsval) list"

text \<open>White space and line terminators, as \<^verbatim>\<open>trim\<close> removes them.\<close>

definition isSpace :: "nat \<Rightarrow> bool" where
  "isSpace c \<longleftrightarrow> c \<in> {9, 10, 11, 12, 13, 32, 160, 0x1680, 0x2028, 0x2029, 0x202F, 0x205F, 0x3000, 0xFEFF}
     \<or> 0x2000 \<le> c \<and> c \<le> 0x200A"

definition trim :: "jstr \<Rightarrow> jstr" where
  "trim s = rev (dropWhile isSpace (rev (dropWhile isSpace s)))"

section \<open>From text to number\<close>

definition digitsValue :: "jstr \<Rightarrow> nat" where
  "digitsValue s = foldl (\<lambda>v c. 10 * v + (c - 48)) 0 s"

definition exponentPart :: "jstr \<Rightarrow> int option" where
  "exponentPart s =
     (let ds = (if s \<noteq> [] \<and> hd s \<in> {43, 45} then tl s else s)
      in if ds = [] \<or> \<not> list_all isDigit ds then None
         else Some (if hd s = 45 then - int (digitsValue ds) else int (digitsValue ds)))"

definition unsignedDecimal :: "jstr \<Rightarrow> rat option" where
  "unsignedDecimal s =
     (let w = takeWhile isDigit s; r = dropWhile isDigit s;
          f = (if r \<noteq> [] \<and> hd r = 46 then takeWhile isDigit (tl r) else []);
          r = (if r \<noteq> [] \<and> hd r = 46 then dropWhile isDigit (tl r) else r);
          v = of_nat (digitsValue (w @ f)) / 10 ^ length f
      in if w = [] \<and> f = [] then None
         else if r = [] then Some v
         else if hd r \<in> {69, 101} then map_option (\<lambda>e. v * 10 powi e) (exponentPart (tl r))
         else None)"

definition radixValue :: "nat \<Rightarrow> jstr \<Rightarrow> nat option" where
  "radixValue b s =
     (if s = [] \<or> list_ex (\<lambda>c. case hexValue c of None \<Rightarrow> True | Some d \<Rightarrow> b \<le> d) s then None
      else Some (foldl (\<lambda>v c. b * v + the (hexValue c)) 0 s))"

definition stringToNumber :: "jstr \<Rightarrow> jsnum" where
  "stringToNumber s =
     (let t = trim s;
          radix = (\<lambda>b. case radixValue b (drop 2 t) of None \<Rightarrow> NaN | Some v \<Rightarrow> toDouble (of_nat v));
          neg = (t \<noteq> [] \<and> hd t = 45);
          u = (if t \<noteq> [] \<and> hd t \<in> {43, 45} then tl t else t)
      in if t = [] then Fin 0
         else if take 2 t \<in> {js ''0x'', js ''0X''} then radix 16
         else if take 2 t \<in> {js ''0o'', js ''0O''} then radix 8
         else if take 2 t \<in> {js ''0b'', js ''0B''} then radix 2
         else if u = js ''Infinity'' then Infinite neg
         else case unsignedDecimal u of None \<Rightarrow> NaN | Some v \<Rightarrow> toDouble (if neg then - v else v))"

section \<open>From number to text\<close>

text \<open>The shortest decimal that reads back as the number: among the decimals with \<open>k\<close> significant
  digits the one nearest to \<open>x\<close>, for the least \<open>k\<close> that works (17 always do). The result is a
  significand and a power of ten.\<close>

definition floorLog10 :: "rat \<Rightarrow> int" where
  "floorLog10 x =
     (let (p, q) = quotient_of x; k = int (length (decimal (nat p))) - int (length (decimal (nat q)))
      in if x < 10 powi k then k - 1 else k)"

fun shortestFrom :: "nat \<Rightarrow> int \<Rightarrow> rat \<Rightarrow> int \<times> int" where
  "shortestFrom fuel e x =
     (let m = \<lfloor>x / 10 powi e + 1 / 2\<rfloor>
      in if fuel = 0 \<or> doubleOf (of_int m * 10 powi e) = x then (m, e) else shortestFrom (fuel - 1) (e - 1) x)"

declare shortestFrom.simps [simp del]

fun stripZeros :: "nat \<Rightarrow> nat \<times> int \<Rightarrow> nat \<times> int" where
  "stripZeros fuel (m, e) =
     (if fuel = 0 \<or> m = 0 \<or> m mod 10 \<noteq> 0 then (m, e) else stripZeros (fuel - 1) (m div 10, e + 1))"

declare stripZeros.simps [simp del]

definition positiveToString :: "rat \<Rightarrow> jstr" where
  "positiveToString x =
     (let (m, e) = shortestFrom 16 (floorLog10 x) x; (m, e) = stripZeros 17 (nat m, e);
          ds = decimal m; k = int (length ds); n = k + e
      in if k \<le> n \<and> n \<le> 21 then ds @ replicate (nat (n - k)) 48
         else if 0 < n \<and> n \<le> 21 then take (nat n) ds @ [46] @ drop (nat n) ds
         else if - 6 < n \<and> n \<le> 0 then [48, 46] @ replicate (nat (- n)) 48 @ ds
         else take 1 ds @ (if k = 1 then [] else [46] @ drop 1 ds) @ [101]
              @ (if n - 1 < 0 then [45] else [43]) @ decimal (nat \<bar>n - 1\<bar>))"

fun numberToString :: "jsnum \<Rightarrow> jstr" where
  "numberToString NaN = js ''NaN''"
| "numberToString (Infinite neg) = (if neg then js ''-Infinity'' else js ''Infinity'')"
| "numberToString (Fin x) =
     (if x = 0 then [48] else if x < 0 then 45 # positiveToString (- x) else positiveToString x)"

fun toStr :: "jsval \<Rightarrow> jstr" where
  "toStr Undef = js ''undefined''"
| "toStr Null = js ''null''"
| "toStr (Boolean b) = (if b then js ''true'' else js ''false'')"
| "toStr (Number n) = numberToString n"
| "toStr (Str s) = s"
| "toStr (Arr vs) = joinWith [44] (map (\<lambda>v. case v of Undef \<Rightarrow> [] | Null \<Rightarrow> [] | _ \<Rightarrow> toStr v) vs)"
| "toStr (Obj kvs) = js ''[object Object]''"

definition toNumber :: "jsval \<Rightarrow> jsnum" where
  "toNumber v =
     (case v of Undef \<Rightarrow> NaN | Null \<Rightarrow> Fin 0 | Boolean b \<Rightarrow> Fin (if b then 1 else 0) | Number n \<Rightarrow> n
      | _ \<Rightarrow> stringToNumber (toStr v))"

fun truthy :: "jsval \<Rightarrow> bool" where
  "truthy Undef \<longleftrightarrow> False"
| "truthy Null \<longleftrightarrow> False"
| "truthy (Boolean b) \<longleftrightarrow> b"
| "truthy (Number n) \<longleftrightarrow> n \<noteq> NaN \<and> n \<noteq> Fin 0"
| "truthy (Str s) \<longleftrightarrow> s \<noteq> []"
| "truthy (Arr vs) \<longleftrightarrow> True"
| "truthy (Obj kvs) \<longleftrightarrow> True"

text \<open>\<^verbatim>\<open>x.toFixed(d)\<close> below \<open>10\<^sup>2\<^sup>1\<close>: the integer nearest to \<open>x \<cdot> 10\<^sup>d\<close>, the larger of two, with a point.\<close>

definition pointed :: "nat \<Rightarrow> nat \<Rightarrow> jstr" where
  "pointed d n =
     (let m = decimal n; m = replicate (d + 1 - length m) 48 @ m
      in if d = 0 then m else take (length m - d) m @ [46] @ drop (length m - d) m)"

definition toFixed :: "nat \<Rightarrow> rat \<Rightarrow> jstr" where
  "toFixed d x =
     (let n = nat \<lfloor>\<bar>x\<bar> * 10 ^ d + 1 / 2\<rfloor> in (if x < 0 then [45] else []) @ pointed d n)"

text \<open>\<^verbatim>\<open>x.toLocaleString("en-US")\<close>: at most three decimals, groups of three digits.\<close>

fun groupRev :: "jstr \<Rightarrow> jstr" where
  "groupRev (a # b # c # d # s) = a # b # c # 44 # groupRev (d # s)"
| "groupRev s = s"

definition groupDigits :: "jstr \<Rightarrow> jstr" where
  "groupDigits s = rev (groupRev (rev s))"

definition localeDecimal :: "rat \<Rightarrow> jstr" where
  "localeDecimal x =
     (let n = nat \<lfloor>x * 1000 + 1 / 2\<rfloor>;
          f = rev (dropWhile ((=) 48) (rev (drop 1 (decimal (1000 + n mod 1000)))))
      in groupDigits (decimal (n div 1000)) @ (if f = [] then [] else [46] @ f))"

fun toLocaleString :: "jsnum \<Rightarrow> jstr" where
  "toLocaleString NaN = js ''NaN''"
| "toLocaleString (Infinite neg) = (if neg then [45, 0x221E] else [0x221E])"
| "toLocaleString (Fin x) = (if x < 0 then 45 # localeDecimal (- x) else localeDecimal x)"

section \<open>One rounding\<close>

lemma floorLog2_bounds:
  assumes "0 < x"
  shows "2 powi floorLog2 x \<le> x" and "x < 2 powi (floorLog2 x + 1)"
proof -
  obtain p q where pq: "quotient_of x = (p, q)" by (cases "quotient_of x")
  have q: "0 < q" using quotient_of_denom_pos [OF pq] .
  have x: "x = of_int p / of_int q" using quotient_of_div [OF pq] .
  then have p: "0 < p" using assms q by (simp add: zero_less_divide_iff)
  define k where "k = bitlen p - bitlen q"
  have bl: "1 \<le> bitlen p" "1 \<le> bitlen q" using p q by (simp_all add: bitlen_alt_def)
  have P: "(2::rat) powi (bitlen p - 1) \<le> of_int p" "(of_int p :: rat) < 2 powi (bitlen p)" if "0 < p" for p
  proof -
    have "1 \<le> bitlen p" using that by (simp add: bitlen_alt_def)
    then have e: "(2::rat) powi (bitlen p - 1) = of_int (2 ^ nat (bitlen p - 1))" "(2::rat) powi (bitlen p) = of_int (2 ^ nat (bitlen p))"
      by (simp_all add: power_int_def)
    show "(2::rat) powi (bitlen p - 1) \<le> of_int p" "(of_int p :: rat) < 2 powi (bitlen p)"
      unfolding e of_int_le_iff of_int_less_iff using bitlen_bounds [OF that] by simp_all
  qed
  have lo: "2 powi (k - 1) \<le> x"
  proof -
    have "(2::rat) powi (k - 1) * of_int q \<le> 2 powi (k - 1) * 2 powi (bitlen q)"
      using P(2) [OF q] by (intro mult_left_mono) auto
    also have "\<dots> = 2 powi (bitlen p - 1)" by (simp add: k_def flip: power_int_add)
    also have "\<dots> \<le> of_int p" by (rule P(1) [OF p])
    finally show ?thesis using q by (simp add: x pos_le_divide_eq)
  qed
  have hi: "x < 2 powi (k + 1)"
  proof -
    have "(of_int p :: rat) < 2 powi (bitlen p)" by (rule P(2) [OF p])
    also have "\<dots> = 2 powi (k + 1) * 2 powi (bitlen q - 1)" by (simp add: k_def flip: power_int_add)
    also have "\<dots> \<le> 2 powi (k + 1) * of_int q" using P(1) [OF q] by (intro mult_left_mono) auto
    finally show ?thesis using q by (simp add: x pos_divide_less_eq)
  qed
  show "2 powi floorLog2 x \<le> x" "x < 2 powi (floorLog2 x + 1)"
    using lo hi by (auto simp: floorLog2_def pq k_def [symmetric] Let_def)
qed

lemma powi_lessD: "(2::rat) powi a < 2 powi b \<Longrightarrow> a < b"
  using power_int_increasing [of b a "2::rat"] by (force simp: not_less [symmetric])

lemma floorLog2_less:
  assumes "0 < x" and "x < 2 powi k"
  shows "floorLog2 x < k"
  using floorLog2_bounds(1) [OF assms(1)] assms(2) by (intro powi_lessD) simp

lemma roundEven_error: "\<bar>of_int (roundEven y) - y\<bar> \<le> 1 / 2"
  using floor_correct [of y] unfolding roundEven_def Let_def by (auto split: if_splits simp: abs_le_iff algebra_simps)

lemma roundEven_of_int [simp]: "roundEven (of_int n) = n"
  by (simp add: roundEven_def)

lemma roundEven_le: "y \<le> of_int n \<Longrightarrow> roundEven y \<le> n"
proof -
  assume y: "y \<le> of_int n"
  show ?thesis
  proof (cases "\<lfloor>y\<rfloor> = n")
    case True
    then have "y = of_int n" using y floor_correct [of y] by simp
    then show ?thesis by simp
  next
    case False
    have "\<lfloor>y\<rfloor> \<le> n" using y by (simp add: floor_le_iff)
    then have "\<lfloor>y\<rfloor> + 1 \<le> n" using False by simp
    then show ?thesis by (auto simp: roundEven_def Let_def)
  qed
qed

lemma roundEven_ge: "of_int n \<le> y \<Longrightarrow> n \<le> roundEven y"
proof -
  assume "of_int n \<le> y"
  then have "n \<le> \<lfloor>y\<rfloor>" by (simp add: le_floor_iff)
  then show ?thesis by (auto simp: roundEven_def Let_def)
qed

lemma ulp_pos [simp]: "0 < ulp x" "ulp x \<noteq> 0"
  by (simp_all add: ulp_def)

lemma doubleOf_error: "\<bar>doubleOf x - x\<bar> \<le> ulp x / 2"
proof (cases "x = 0")
  case False
  have "\<bar>of_int (roundEven (x / ulp x)) - x / ulp x\<bar> * ulp x \<le> 1 / 2 * ulp x"
    by (rule mult_right_mono [OF roundEven_error]) (simp add: less_imp_le)
  moreover have "\<bar>of_int (roundEven (x / ulp x)) - x / ulp x\<bar> * ulp x
      = \<bar>of_int (roundEven (x / ulp x)) * ulp x - x\<bar>"
    by (subst abs_mult_pos) (simp_all add: left_diff_distrib less_imp_le)
  ultimately show ?thesis using False by (simp add: doubleOf_def)
qed (simp add: doubleOf_def less_imp_le)

text \<open>The doubles: 53 significant bits, exponents from -1074.\<close>

definition isDouble :: "rat \<Rightarrow> bool" where
  "isDouble x \<longleftrightarrow> (\<exists>m e. \<bar>m\<bar> < 2 ^ 53 \<and> - 1074 \<le> e \<and> x = of_int m * 2 powi e)"

lemma powi_diff_int: "a \<le> b \<Longrightarrow> (2::rat) powi b = of_int (2 ^ nat (b - a)) * 2 powi a"
proof -
  assume "a \<le> b"
  then have "(2::rat) powi b = 2 powi (b - a) * 2 powi a" by (simp flip: power_int_add)
  also have "(2::rat) powi (b - a) = of_int (2 ^ nat (b - a))" using \<open>a \<le> b\<close> by (simp add: power_int_def)
  finally show ?thesis .
qed

text \<open>A double that is not below the binade of \<open>x\<close> is a multiple of the spacing around \<open>x\<close>.\<close>

lemma double_multiple:
  assumes y: "\<bar>m\<bar> < 2 ^ 53" "- 1074 \<le> e" and x: "x \<noteq> 0" and le: "(2::rat) powi floorLog2 \<bar>x\<bar> \<le> \<bar>of_int m * 2 powi e\<bar> \<or> floorLog2 \<bar>x\<bar> < - 1022"
  shows "\<exists>n. of_int m * 2 powi e = of_int n * ulp x"
proof -
  let ?f = "floorLog2 \<bar>x\<bar>"
  have "max (- 1074) (?f - 52) \<le> e"
  proof (cases "?f < - 1022")
    case False
    with le have "(2::rat) powi ?f \<le> of_int \<bar>m\<bar> * 2 powi e" by (simp add: abs_mult)
    also have "\<dots> < 2 powi 53 * 2 powi e" using y(1) by (intro mult_strict_right_mono) (simp_all add: power_int_def flip: of_int_abs)
    also have "\<dots> = 2 powi (53 + e)" by (rule power_int_add [symmetric]) simp
    finally have "?f < 53 + e" by (rule powi_lessD)
    then show ?thesis using y(2) by simp
  qed (use y(2) in simp)
  from powi_diff_int [OF this] obtain c where "(2::rat) powi e = of_int c * ulp x" by (simp only: ulp_def)
  then show ?thesis by (intro exI [of _ "m * c"]) (simp only: of_int_mult mult.assoc)
qed

lemma doubleOf_multiple: "x = of_int n * ulp x \<Longrightarrow> doubleOf x = x"
proof (cases "x = 0")
  case False
  assume x: "x = of_int n * ulp x"
  then have "x / ulp x = of_int n" by (metis nonzero_mult_div_cancel_right ulp_pos(2))
  then show ?thesis using x False by (simp add: doubleOf_def)
qed (simp add: doubleOf_def)

lemma doubleOf_exact: "isDouble x \<Longrightarrow> doubleOf x = x"
proof (cases "x = 0")
  case False
  assume "isDouble x"
  then obtain m e where me: "\<bar>m\<bar> < 2 ^ 53" "- 1074 \<le> e" "x = of_int m * 2 powi e" by (auto simp: isDouble_def)
  have "(2::rat) powi floorLog2 \<bar>x\<bar> \<le> \<bar>of_int m * 2 powi e\<bar>"
    using floorLog2_bounds(1) [of "\<bar>x\<bar>"] False me(3) by simp
  then obtain n where "x = of_int n * ulp x" using double_multiple [OF me(1,2) False] me(3) by metis
  then show ?thesis by (rule doubleOf_multiple)
qed (simp add: doubleOf_def)

lemma isDouble_minus: "isDouble x \<Longrightarrow> isDouble (- x)"
proof -
  assume "isDouble x"
  then obtain m e where "\<bar>m\<bar> < 2 ^ 53" "- 1074 \<le> e" "x = of_int m * 2 powi e" by (auto simp: isDouble_def)
  then show ?thesis unfolding isDouble_def by (intro exI [of _ "- m"] exI [of _ e]) simp
qed

lemma isDouble_of_int: "\<bar>n\<bar> \<le> 2 ^ 53 \<Longrightarrow> isDouble (of_int n)"
proof -
  assume n: "\<bar>n\<bar> \<le> 2 ^ 53"
  show ?thesis
  proof (cases "\<bar>n\<bar> < 2 ^ 53")
    case True
    then show ?thesis unfolding isDouble_def by (intro exI [of _ n] exI [of _ 0]) simp
  next
    case False
    then have "n = sgn n * 2 ^ 53" using n by (auto simp: sgn_if)
    then have "rat_of_int n = of_int (sgn n) * 2 powi 53"
      by (metis of_int_mult of_int_numeral of_int_power power_int_numeral)
    then show ?thesis unfolding isDouble_def by (intro exI [of _ "sgn n"] exI [of _ 53]) (auto simp: sgn_if)
  qed
qed

lemma doubleOf_of_int [simp]: "\<bar>n\<bar> \<le> 2 ^ 53 \<Longrightarrow> doubleOf (of_int n) = of_int n"
  by (intro doubleOf_exact isDouble_of_int)

lemma toDouble_of_int [simp]:
  assumes "\<bar>n\<bar> \<le> 2 ^ 53"
  shows "toDouble (of_int n) = Fin (of_int n)"
proof -
  have "\<bar>rat_of_int n\<bar> \<le> of_int (2 ^ 53)" using assms by (simp only: of_int_abs [symmetric] of_int_le_iff)
  also have "\<dots> < (2 ^ 1024 :: rat)" by simp
  finally show ?thesis using assms by (simp add: toDouble_def Let_def)
qed

text \<open>Rounding is monotone against doubles.\<close>

lemma doubleOf_le:
  assumes "isDouble y" and "x \<le> y" and "0 \<le> x"
  shows "doubleOf x \<le> y"
proof (cases "x = 0")
  case False
  then have x: "0 < x" using assms(3) by simp
  from assms(1) obtain m e where me: "\<bar>m\<bar> < 2 ^ 53" "- 1074 \<le> e" "y = of_int m * 2 powi e" by (auto simp: isDouble_def)
  have "(2::rat) powi floorLog2 \<bar>x\<bar> \<le> \<bar>y\<bar>" using floorLog2_bounds(1) [OF x] assms(2) x by simp
  then obtain n where n: "y = of_int n * ulp x" using double_multiple [OF me(1,2) False] me(3) by metis
  then have "x / ulp x \<le> of_int n" using assms(2) by (simp add: pos_divide_le_eq)
  then have "of_int (roundEven (x / ulp x)) * ulp x \<le> of_int n * ulp x"
    by (intro mult_right_mono) (auto dest: roundEven_le simp: less_imp_le)
  then show ?thesis using False n by (simp add: doubleOf_def)
qed (use assms in \<open>simp add: doubleOf_def\<close>)

lemma doubleOf_nonneg: "0 \<le> x \<Longrightarrow> 0 \<le> doubleOf x"
  using roundEven_ge [of 0 "x / ulp x"] by (auto simp: doubleOf_def less_imp_le intro!: mult_nonneg_nonneg)

text \<open>The error in absolute terms.\<close>

lemma doubleOf_close:
  assumes "\<bar>x\<bar> < 2 powi k" and "- 1021 \<le> k"
  shows "\<bar>doubleOf x - x\<bar> \<le> 2 powi (k - 54)"
proof (cases "x = 0")
  case False
  then have "floorLog2 \<bar>x\<bar> < k" using assms(1) by (intro floorLog2_less) auto
  then have "ulp x \<le> 2 powi (k - 53)" unfolding ulp_def using assms(2) by (intro power_int_increasing) auto
  then have "ulp x / 2 \<le> 2 powi (k - 53) / 2" by simp
  also have "(2::rat) powi (k - 53) / 2 = 2 powi (k - 54)" using power_int_diff [of "2::rat" "k - 53" 1] by simp
  finally show ?thesis using doubleOf_error [of x] by linarith
qed (simp add: doubleOf_def)

lemma doubleOf_ge:
  assumes "isDouble y" and "y \<le> x" and "0 \<le> y"
  shows "y \<le> doubleOf x"
proof (cases "x = 0")
  case False
  then have x: "0 < x" using assms(2,3) by simp
  have step: "of_int n * ulp x \<le> doubleOf x" if "of_int n * ulp x \<le> x" for n
  proof -
    have "n \<le> roundEven (x / ulp x)" using that by (intro roundEven_ge) (simp add: pos_le_divide_eq)
    then show ?thesis using False by (simp add: doubleOf_def less_imp_le mult_right_mono)
  qed
  from assms(1) obtain m e where me: "\<bar>m\<bar> < 2 ^ 53" "- 1074 \<le> e" "y = of_int m * 2 powi e" by (auto simp: isDouble_def)
  show ?thesis
  proof (cases "(2::rat) powi floorLog2 \<bar>x\<bar> \<le> \<bar>y\<bar> \<or> floorLog2 \<bar>x\<bar> < - 1022")
    case True
    then obtain n where "y = of_int n * ulp x" using double_multiple [OF me(1,2) False] me(3) by metis
    then show ?thesis using step assms(2) by simp
  next
    case False
    let ?f = "floorLog2 \<bar>x\<bar>"
    have "y \<le> 2 powi ?f" using False assms(3) by (simp add: not_le)
    moreover have eq: "(2::rat) powi ?f = of_int (2 ^ nat (?f - (max (- 1074) (?f - 52)))) * ulp x"
      unfolding ulp_def using False by (intro powi_diff_int) simp
    moreover have "\<dots> \<le> doubleOf x"
      by (rule step) (use floorLog2_bounds(1) [OF x] x in \<open>unfold eq [symmetric], simp\<close>)
    ultimately show ?thesis by linarith
  qed
qed (use assms in \<open>simp add: doubleOf_def\<close>)

lemma floorLog2_unique: "2 powi k \<le> x \<Longrightarrow> x < 2 powi (k + 1) \<Longrightarrow> floorLog2 x = k"
proof -
  assume a: "2 powi k \<le> x" "x < 2 powi (k + 1)"
  then have "0 < x" using zero_less_power_int [of "2::rat" k] by linarith
  then have "floorLog2 x < k + 1" "k < floorLog2 x + 1"
    using a floorLog2_bounds [of x] floorLog2_less [of x "k + 1"] powi_lessD [of k "floorLog2 x + 1"] by auto
  then show ?thesis by simp
qed

section \<open>Decimal texts\<close>

lemma decimal_step: "0 < a \<Longrightarrow> b < 10 \<Longrightarrow> decimal (10 * a + b) = decimal a @ [48 + b]"
  by (simp add: decimal_def decimalRev.simps [of "10 * a + b"])

lemma decimal_small: "n < 10 \<Longrightarrow> decimal n = [48 + n]"
  by (simp add: decimal_def decimalRev.simps [of n])

lemma decimal_div: "10 \<le> n \<Longrightarrow> decimal n = decimal (n div 10) @ [48 + n mod 10]"
  using decimal_step [of "n div 10" "n mod 10"] by simp

lemma decimal_not_Nil [simp]: "decimal n \<noteq> []"
  by (simp add: decimal_def decimalRev.simps [of n])

lemma list_all_decimal: "list_all isDigit (decimal n)"
  using decimal_digits [of n] by (simp add: list_all_iff)

lemma digitsValue_append: "digitsValue (s @ [c]) = 10 * digitsValue s + (c - 48)"
  by (simp add: digitsValue_def)

lemma digitsValue_decimal [simp]: "digitsValue (decimal n) = n"
proof (induction n rule: less_induct)
  case (less n)
  show ?case
  proof (cases "n < 10")
    case True
    then show ?thesis by (simp add: decimal_small digitsValue_def)
  next
    case False
    then have "digitsValue (decimal (n div 10)) = n div 10" by (intro less) auto
    then show ?thesis using False by (simp add: decimal_div digitsValue_append)
  qed
qed

lemma decimal_length: "10 ^ (length (decimal n) - 1) \<le> n \<or> n = 0" "n < 10 ^ length (decimal n)"
proof (induction n rule: less_induct)
  case (less n)
  {
    case 1
    show ?case
    proof (cases "n < 10")
      case False
      then have "10 ^ (length (decimal (n div 10)) - 1) \<le> n div 10" using less(1) [of "n div 10"] by auto
      moreover have "length (decimal n) - 1 = Suc (length (decimal (n div 10)) - 1)"
        using False by (simp add: decimal_div Suc_diff_le Suc_le_eq)
      ultimately have "10 ^ (length (decimal n) - 1) \<le> 10 * (n div 10)" by (simp only: power_Suc mult_le_mono2)
      then show ?thesis by linarith
    qed (auto simp: decimal_small)
  next
    case 2
    show ?case
    proof (cases "n < 10")
      case False
      then have "n div 10 < 10 ^ length (decimal (n div 10))" using less(2) [of "n div 10"] by auto
      then show ?thesis using False by (simp add: decimal_div)
    qed (auto simp: decimal_small)
  }
qed

text \<open>The last \<open>d\<close> digits, and the split of a decimal text at the point.\<close>

definition fixedDigits :: "nat \<Rightarrow> nat \<Rightarrow> jstr" where
  "fixedDigits d m = drop 1 (decimal (10 ^ d + m))"

lemma fixedDigits_Suc:
  assumes "m < 10 ^ Suc d"
  shows "fixedDigits (Suc d) m = fixedDigits d (m div 10) @ [48 + m mod 10]"
proof -
  have "10 ^ Suc d + m = 10 * (10 ^ d + m div 10) + m mod 10" by simp
  then have "decimal (10 ^ Suc d + m) = decimal (10 ^ d + m div 10) @ [48 + m mod 10]"
    by (simp only: decimal_step add_gr_0 zero_less_power zero_less_numeral mod_less_divisor simp_thms)
  then show ?thesis by (simp add: fixedDigits_def Suc_le_eq)
qed

lemma fixedDigits_0 [simp]: "fixedDigits 0 0 = []"
  by (simp add: fixedDigits_def decimal_small)

lemma length_fixedDigits: "m < 10 ^ d \<Longrightarrow> length (fixedDigits d m) = d"
proof (induction d arbitrary: m)
  case (Suc d)
  have "m div 10 < 10 ^ d" using Suc.prems by simp
  with Suc show ?case by (simp add: fixedDigits_Suc)
qed simp

lemma list_all_fixedDigits: "list_all isDigit (fixedDigits d m)"
  using decimal_digits [of "10 ^ d + m"] by (auto simp: fixedDigits_def list_all_iff dest: in_set_dropD)

text \<open>Zeros in front of a decimal text up to \<open>d + 1\<close> digits: whole part and \<open>d\<close> decimals.\<close>

lemma padded_decimal: "replicate (Suc d - length (decimal n)) 48 @ decimal n = decimal (n div 10 ^ d) @ fixedDigits d (n mod 10 ^ d)"
proof (induction d arbitrary: n)
  case 0
  then show ?case by (simp add: Suc_le_eq)
next
  case (Suc d)
  have m: "n mod 10 ^ Suc d < 10 ^ Suc d" by simp
  have "n mod 10 ^ Suc d = 10 * (n div 10 mod 10 ^ d) + n mod 10"
    using mod_mult2_eq [of n 10 "10 ^ d"] by simp
  then have fx: "fixedDigits (Suc d) (n mod 10 ^ Suc d) = fixedDigits d (n div 10 mod 10 ^ d) @ [48 + n mod 10]"
    using fixedDigits_Suc [OF m] by simp
  have dv: "n div 10 ^ Suc d = n div 10 div 10 ^ d" using div_mult2_eq [of n 10 "10 ^ d"] by simp
  show ?case
  proof (cases "n < 10")
    case True
    have "replicate (Suc d) (48::nat) = replicate d 48 @ [48]" by (simp add: replicate_append_same)
    then show ?thesis using Suc [of 0] True unfolding fx dv by (simp add: decimal_small)
  next
    case False
    have "replicate (Suc (Suc d) - length (decimal n)) 48 @ decimal n
        = (replicate (Suc d - length (decimal (n div 10))) 48 @ decimal (n div 10)) @ [48 + n mod 10]"
      using False by (simp add: decimal_div)
    then show ?thesis unfolding fx dv by (simp only: Suc append_assoc)
  qed
qed

lemma pointed_eq:
  assumes "0 < d"
  shows "pointed d n = decimal (n div 10 ^ d) @ [46] @ fixedDigits d (n mod 10 ^ d)"
proof -
  have len: "length (fixedDigits d (n mod 10 ^ d)) = d" by (simp add: length_fixedDigits)
  show ?thesis
    unfolding pointed_def Let_def using assms len padded_decimal [of d n] by (simp only: Suc_eq_plus1) simp
qed

section \<open>Integers below \<open>2\<^sup>5\<^sup>3\<close> as text\<close>

lemma floorLog10_of_nat: "0 < n \<Longrightarrow> floorLog10 (of_nat n) = int (length (decimal n)) - 1"
proof -
  assume n: "0 < n"
  have k: "int (length (decimal n)) - int (length (decimal 1)) = int (length (decimal n) - 1)"
    using decimal_not_Nil [of n] by (simp add: decimal_small of_nat_diff Suc_le_eq del: decimal_not_Nil)
  have "\<not> rat_of_nat n < 10 powi int (length (decimal n) - 1)"
  proof -
    have "10 ^ (length (decimal n) - 1) \<le> n" using decimal_length(1) [of n] n by simp
    then have "rat_of_nat (10 ^ (length (decimal n) - 1)) \<le> rat_of_nat n" by (simp only: of_nat_le_iff)
    then show ?thesis by (simp add: power_int_def)
  qed
  then show ?thesis unfolding floorLog10_def quotient_of_rat_of_nat Let_def prod.case nat_int nat_one_as_int [symmetric]
    using k decimal_not_Nil [of n] by (simp add: of_nat_diff Suc_le_eq del: decimal_not_Nil)
qed

lemma shortestFrom_int:
  assumes n: "0 < n" "n < 2 ^ 53" and e: "e \<le> fuel"
  obtains m e' where "shortestFrom fuel (int e) (of_nat n) = (int m, int e')" "m * 10 ^ e' = n" "e' \<le> e"
  using e
proof (induction e arbitrary: fuel thesis)
  case 0
  have "\<lfloor>rat_of_nat n + 1 / 2\<rfloor> = int n"
    by (rule floor_unique) auto
  moreover have "doubleOf (rat_of_nat n) = rat_of_nat n" using doubleOf_of_int [of "int n"] n by simp
  ultimately have "shortestFrom fuel 0 (of_nat n) = (int n, 0)"
    by (simp add: shortestFrom.simps [of fuel 0] Let_def)
  then show ?case using 0(1) [of n 0] by simp
next
  case (Suc e)
  define m where "m = \<lfloor>rat_of_nat n / 10 powi int (Suc e) + 1 / 2\<rfloor>"
  have m0: "0 \<le> m" using n by (simp add: m_def le_floor_iff)
  have val: "(of_int m * 10 powi int (Suc e) :: rat) = of_nat (nat m * 10 ^ Suc e)"
    using m0 by (simp add: power_int_def nat_add_distrib)
  have exact: "nat m * 10 ^ Suc e = n" if d: "doubleOf (of_int m * 10 powi int (Suc e)) = of_nat n"
  proof -
    define v where "v = nat m * 10 ^ Suc e"
    have dv: "doubleOf (of_nat v) = of_nat n" using d unfolding val v_def .
    show ?thesis
    proof (cases "v \<le> 2 ^ 53")
      case True
      then have "doubleOf (of_nat v) = rat_of_nat v" using doubleOf_of_int [of "int v"] by simp
      then have "rat_of_nat v = rat_of_nat n" using dv by simp
      then show ?thesis by (simp only: of_nat_eq_iff v_def)
    next
      case False
      then have "rat_of_nat (2 ^ 53) \<le> rat_of_nat v" by (simp only: of_nat_le_iff)
      then have "rat_of_int (2 ^ 53) \<le> doubleOf (of_nat v)"
        by (intro doubleOf_ge isDouble_of_int) simp_all
      then have "rat_of_nat (2 ^ 53) \<le> rat_of_nat n" using dv by simp
      then have "2 ^ 53 \<le> n" by (simp only: of_nat_le_iff)
      then show ?thesis using n by simp
    qed
  qed
  show ?case
  proof (cases "doubleOf (of_int m * 10 powi int (Suc e)) = of_nat n")
    case True
    then have "shortestFrom fuel (int (Suc e)) (of_nat n) = (m, int (Suc e))"
      unfolding shortestFrom.simps [of fuel "int (Suc e)"] m_def [symmetric] Let_def by simp
    then show ?thesis using Suc.prems(1) [of "nat m" "Suc e"] exact [OF True] m0 by simp
  next
    case False
    then have "shortestFrom fuel (int (Suc e)) (of_nat n) = shortestFrom (fuel - 1) (int e) (of_nat n)"
      using Suc.prems(2) unfolding shortestFrom.simps [of fuel "int (Suc e)"] m_def [symmetric] Let_def by simp
    moreover have "e \<le> fuel - 1" using Suc.prems(2) by simp
    then obtain m' e' where "shortestFrom (fuel - 1) (int e) (of_nat n) = (int m', int e')" "m' * 10 ^ e' = n" "e' \<le> e"
      using Suc.IH by blast
    ultimately show ?thesis using Suc.prems(1) [of m' e'] by simp
  qed
qed

lemma stripZeros_int:
  assumes "0 < m" and "m < 10 ^ fuel"
  obtains m' z where "stripZeros fuel (m, int e) = (m', int (e + z))" "m' * 10 ^ z = m" "m' mod 10 \<noteq> 0"
  using assms
proof (induction fuel arbitrary: m e thesis)
  case (Suc fuel)
  show ?case
  proof (cases "m mod 10 = 0")
    case True
    have "0 < m div 10" "m div 10 < 10 ^ fuel" using Suc.prems(2,3) True by auto
    from Suc.IH [OF _ this, of "Suc e"] obtain m' z where
      s: "stripZeros fuel (m div 10, int (Suc e)) = (m', int (Suc e + z))" "m' * 10 ^ z = m div 10" "m' mod 10 \<noteq> 0" by blast
    have "stripZeros (Suc fuel) (m, int e) = (m', int (e + Suc z))"
      using s(1) True Suc.prems(2) by (simp add: stripZeros.simps [of "Suc fuel"] ac_simps)
    moreover have "m' * 10 ^ Suc z = m" using s(2) True by (simp add: mult.left_commute mult.commute) auto
    ultimately show ?thesis using Suc.prems(1) s(3) by blast
  next
    case False
    then show ?thesis using Suc.prems(1) [of m 0] by (simp add: stripZeros.simps [of "Suc fuel"])
  qed
qed simp

lemma decimal_times_power: "0 < m \<Longrightarrow> decimal (m * 10 ^ z) = decimal m @ replicate z 48"
proof (induction z)
  case (Suc z)
  have "decimal (m * 10 ^ Suc z) = decimal (m * 10 ^ z) @ [48]"
    using decimal_step [of "m * 10 ^ z" 0] Suc.prems by (simp add: ac_simps)
  then show ?case using Suc by (simp add: replicate_append_same)
qed simp

lemma positiveToString_of_nat:
  assumes n: "0 < n" "n < 2 ^ 53"
  shows "positiveToString (of_nat n) = decimal n"
proof -
  let ?l = "length (decimal n) - 1"
  have "10 ^ ?l \<le> n" using decimal_length(1) [of n] n by simp
  then have "(10::nat) ^ ?l < 10 ^ 16" using n(2) by simp
  then have l: "?l < 16" by (simp only: power_strict_increasing_iff one_less_numeral_iff num.distinct semiring_norm)
  have log: "floorLog10 (of_nat n) = int ?l"
    using floorLog10_of_nat [OF n(1)] decimal_not_Nil [of n] by (simp add: of_nat_diff Suc_le_eq del: decimal_not_Nil)
  obtain m e where s: "shortestFrom 16 (int ?l) (of_nat n) = (int m, int e)" "m * 10 ^ e = n" "e \<le> ?l"
    using shortestFrom_int [OF n, of ?l 16] l by auto
  have m: "0 < m" "m < 10 ^ 17"
    using s(2) n order_less_le_trans [OF n(2), of "10 ^ 17"] mult_le_mono2 [of 1 "10 ^ e" m] by auto
  obtain m' z where z: "stripZeros 17 (m, int e) = (m', int (e + z))" "m' * 10 ^ z = m" "m' mod 10 \<noteq> 0"
    using stripZeros_int [OF m] by blast
  have m': "0 < m'" using z(3) by (cases m') auto
  have nn: "n = m' * 10 ^ (z + e)" using s(2) [symmetric] z(2) by (simp add: power_add ac_simps)
  have dn: "decimal n = decimal m' @ replicate (z + e) 48" unfolding nn by (rule decimal_times_power [OF m'])
  then have "length (decimal m') + (z + e) \<le> 16" using l by simp
  then show ?thesis unfolding positiveToString_def log s(1) Let_def prod.case nat_int z(1)
    using dn by (simp add: nat_int_add ac_simps)
qed

lemma toStr_of_nat [simp]: "n < 2 ^ 53 \<Longrightarrow> toStr (Number (Fin (of_nat n))) = decimal n"
  using positiveToString_of_nat [of n] by (cases "n = 0") (auto simp: decimal_small)

section \<open>Arithmetic on doubles\<close>

fun numAdd :: "jsnum \<Rightarrow> jsnum \<Rightarrow> jsnum" where
  "numAdd (Fin x) (Fin y) = toDouble (x + y)"
| "numAdd (Infinite a) (Infinite b) = (if a = b then Infinite a else NaN)"
| "numAdd (Infinite a) (Fin y) = Infinite a"
| "numAdd (Fin x) (Infinite b) = Infinite b"
| "numAdd _ _ = NaN"

fun numNeg :: "jsnum \<Rightarrow> jsnum" where
  "numNeg (Fin x) = Fin (- x)"
| "numNeg (Infinite a) = Infinite (\<not> a)"
| "numNeg NaN = NaN"

definition numSub :: "jsnum \<Rightarrow> jsnum \<Rightarrow> jsnum" where
  "numSub x y = numAdd x (numNeg y)"

fun numMul :: "jsnum \<Rightarrow> jsnum \<Rightarrow> jsnum" where
  "numMul (Fin x) (Fin y) = toDouble (x * y)"
| "numMul (Infinite a) (Infinite b) = Infinite (a \<noteq> b)"
| "numMul (Infinite a) (Fin y) = (if y = 0 then NaN else Infinite (a \<noteq> (y < 0)))"
| "numMul (Fin x) (Infinite b) = (if x = 0 then NaN else Infinite (b \<noteq> (x < 0)))"
| "numMul _ _ = NaN"

fun numDiv :: "jsnum \<Rightarrow> jsnum \<Rightarrow> jsnum" where
  "numDiv (Fin x) (Fin y) = (if y = 0 then if x = 0 then NaN else Infinite (x < 0) else toDouble (x / y))"
| "numDiv (Infinite a) (Fin y) = Infinite (a \<noteq> (y < 0))"
| "numDiv (Fin x) (Infinite b) = Fin 0"
| "numDiv _ _ = NaN"

fun numLess :: "jsnum \<Rightarrow> jsnum \<Rightarrow> bool" where
  "numLess (Fin x) (Fin y) \<longleftrightarrow> x < y"
| "numLess (Infinite a) (Infinite b) \<longleftrightarrow> a \<and> \<not> b"
| "numLess (Infinite a) (Fin y) \<longleftrightarrow> a"
| "numLess (Fin x) (Infinite b) \<longleftrightarrow> \<not> b"
| "numLess _ _ \<longleftrightarrow> False"

definition numMin :: "jsnum \<Rightarrow> jsnum \<Rightarrow> jsnum" where
  "numMin x y = (if x = NaN \<or> y = NaN then NaN else if numLess y x then y else x)"

definition numMax :: "jsnum \<Rightarrow> jsnum \<Rightarrow> jsnum" where
  "numMax x y = (if x = NaN \<or> y = NaN then NaN else if numLess x y then y else x)"

lemma numSub_int:
  assumes "\<bar>x - y\<bar> \<le> 2 ^ 53"
  shows "numSub (Fin (of_int x)) (Fin (of_int y)) = Fin (of_int (x - y))"
  using toDouble_of_int [OF assms] by (simp add: numSub_def)

definition numFloor :: "jsnum \<Rightarrow> jsnum" where
  "numFloor x = (case x of Fin q \<Rightarrow> Fin (of_int \<lfloor>q\<rfloor>) | _ \<Rightarrow> x)"

definition numTrunc :: "rat \<Rightarrow> int" where
  "numTrunc q = (if q < 0 then - \<lfloor>- q\<rfloor> else \<lfloor>q\<rfloor>)"

definition numMod :: "jsnum \<Rightarrow> jsnum \<Rightarrow> jsnum" where
  "numMod x y =
     (case (x, y) of
        (Fin p, Fin q) \<Rightarrow> if q = 0 then NaN else Fin (p - q * of_int (numTrunc (p / q)))
      | (Fin p, Infinite _) \<Rightarrow> Fin p
      | _ \<Rightarrow> NaN)"

definition numCeil :: "jsnum \<Rightarrow> jsnum" where
  "numCeil x = (case x of Fin q \<Rightarrow> Fin (of_int \<lceil>q\<rceil>) | _ \<Rightarrow> x)"

text \<open>\<^verbatim>\<open>Math.round\<close> rounds halves up.\<close>

definition numRound :: "jsnum \<Rightarrow> jsnum" where
  "numRound x = (case x of Fin q \<Rightarrow> Fin (of_int \<lfloor>q + 1 / 2\<rfloor>) | _ \<Rightarrow> x)"

lemma numTrunc_of_int [simp]: "numTrunc (of_int z) = z"
  by (simp add: numTrunc_def)

text \<open>A rounded number is a double.\<close>

lemma isDouble_doubleOf: "isDouble (doubleOf x)"
proof (cases "x = 0")
  case True
  then show ?thesis using isDouble_of_int [of 0] by (simp add: doubleOf_def)
next
  case False
  let ?e = "max (- 1074) (floorLog2 \<bar>x\<bar> - 52)" and ?n = "roundEven (x / ulp x)"
  have p: "0 < \<bar>x\<bar>" using False by simp
  have "\<bar>x\<bar> < 2 powi (floorLog2 \<bar>x\<bar> + 1)" by (rule floorLog2_bounds(2) [OF p])
  also have "(2::rat) powi (floorLog2 \<bar>x\<bar> + 1) \<le> 2 powi (53 + ?e)" by (intro power_int_increasing) auto
  also have "(2::rat) powi (53 + ?e) = 2 ^ 53 * ulp x" by (simp add: ulp_def power_int_add)
  finally have a: "\<bar>x\<bar> < 2 ^ 53 * ulp x" .
  then have "x / ulp x \<le> of_int (2 ^ 53)" by (simp add: pos_divide_le_eq abs_less_iff)
  moreover have "of_int (- (2 ^ 53)) \<le> x / ulp x" using a by (simp add: pos_le_divide_eq abs_less_iff)
  ultimately have n: "\<bar>?n\<bar> \<le> 2 ^ 53" using roundEven_le roundEven_ge by (metis abs_le_iff minus_le_iff)
  obtain m e where me: "\<bar>m\<bar> < 2 ^ 53" "0 \<le> e" "?n = m * 2 ^ nat e"
  proof (cases "\<bar>?n\<bar> < 2 ^ 53")
    case True
    then show thesis using that [of ?n 0] by simp
  next
    case False
    then have "?n = 2 ^ 53 \<or> ?n = - (2 ^ 53)" using n by linarith
    then show thesis using that [of 1 53] that [of "- 1" 53] by auto
  qed
  have "rat_of_int ?n = of_int m * 2 powi e" using me(2,3) by (simp add: power_int_def)
  then have "doubleOf x = of_int m * 2 powi e * 2 powi ?e" using False by (simp add: doubleOf_def ulp_def)
  then have "doubleOf x = of_int m * 2 powi (e + ?e)" by (simp add: power_int_add)
  moreover have "- 1074 \<le> e + ?e" using me(2) by simp
  ultimately show ?thesis unfolding isDouble_def using me(1) by blast
qed

end
