(* ===== verification/Dash_Format.thy ===== *)
theory Dash_Format
  imports Js_Number
begin

text \<open>
  The dashboard's number formatting (\<^verbatim>\<open>webui/app.js\<close>): amounts, integers, truncated texts and the
  conversion of atomic units to coins. A value that came out of a JSON answer is a \<open>jsval\<close>.
\<close>

definition DECIMALS :: nat where
  "DECIMALS = 12"

definition emDash :: jstr where
  "emDash = [0x2014]"

section \<open>Amounts\<close>

text \<open>\<^verbatim>\<open>whole.replace(/\B(?=(\d{3})+(?!\d))/g, ",")\<close>: a comma goes before every character that is not the
  first, stands after a word character and starts a run of digits whose length is a multiple of three.\<close>

definition isWord :: "nat \<Rightarrow> bool" where
  "isWord c \<longleftrightarrow> is_alnum c \<or> c = 95"

definition commaAt :: "jstr \<Rightarrow> nat \<Rightarrow> bool" where
  "commaAt s i \<longleftrightarrow>
     (let run = length (takeWhile isDigit (drop i s))
      in 0 < i \<and> isWord (s ! (i - 1)) \<and> 0 < run \<and> run mod 3 = 0)"

definition groupThousands :: "jstr \<Rightarrow> jstr" where
  "groupThousands s = concat (map (\<lambda>i. if commaAt s i then [44, s ! i] else [s ! i]) [0..<length s])"

definition or_text :: "jstr \<Rightarrow> jstr \<Rightarrow> jstr" where
  "or_text s d = (if s = [] then d else s)"

definition formatOBX :: "jsval \<Rightarrow> jstr" where
  "formatOBX v =
     (if v = Undef \<or> v = Null \<or> v = Str [] then emDash
      else let s = trim (toStr v);
               neg = (take 1 s = [45]);
               s = (if neg then drop 1 s else s);
               whole = or_text (takeWhile ((\<noteq>) 46) s) [48];
               frac = takeWhile ((\<noteq>) 46) (drop 1 (dropWhile ((\<noteq>) 46) s));
               frac = take DECIMALS (frac @ replicate 12 48);
               grouped = groupThousands whole
           in (if neg then [45] else []) @ grouped @ [46] @ frac)"

definition formatInt :: "jsval \<Rightarrow> jstr" where
  "formatInt n =
     (if n = Undef \<or> n = Null \<or> n = Str [] \<or> toNumber n = NaN then emDash else toLocaleString (toNumber n))"

definition truncMiddle :: "jstr \<Rightarrow> nat \<Rightarrow> nat \<Rightarrow> jstr" where
  "truncMiddle str hd' tl' =
     (if str = [] then []
      else if length str \<le> hd' + tl' + 1 then str
      else take hd' str @ [0x2026] @ drop (length str - tl') str)"

text \<open>The loop \<^verbatim>\<open>while (s.length <= DECIMALS) s = "0" + s\<close>.\<close>

function padZeros :: "jstr \<Rightarrow> jstr" where
  "padZeros s = (if length s \<le> DECIMALS then padZeros (48 # s) else s)"
  by pat_completeness auto
termination
  by (relation "measure (\<lambda>s. DECIMALS + 1 - length s)") auto

declare padZeros.simps [simp del]

definition atomicToOBX :: "jsval \<Rightarrow> jsval" where
  "atomicToOBX atomic =
     (if atomic = Undef \<or> atomic = Null then Null
      else let s = toStr atomic
           in if 46 \<in> set s then Str s
              else let neg = (take 1 s = [45]);
                       s = padZeros (if neg then drop 1 s else s);
                       whole = take (length s - DECIMALS) s;
                       frac = drop (length s - DECIMALS) s
                   in Str ((if neg then [45] else []) @ whole @ [46] @ frac))"

section \<open>Grouping\<close>

lemma padZeros_eq: "padZeros s = replicate (13 - length s) 48 @ s"
proof (induction s rule: padZeros.induct)
  case (1 s)
  show ?case
  proof (cases "length s \<le> DECIMALS")
    case True
    then have "13 - length s = Suc (12 - length s)" by (simp add: DECIMALS_def)
    then have "replicate (13 - length s) (48::nat) = replicate (12 - length s) 48 @ [48]"
      by (simp only: replicate_Suc replicate_append_same)
    then show ?thesis using 1 [OF True] True by (simp add: padZeros.simps [of s])
  next
    case False
    then show ?thesis by (simp add: padZeros.simps [of s] DECIMALS_def)
  qed
qed

text \<open>Reading grouped digits: the commas are the only thing grouping adds.\<close>

definition ungroup :: "jstr \<Rightarrow> jstr" where
  "ungroup s = filter ((\<noteq>) 44) s"

lemma digits_no_comma: "list_all isDigit s \<Longrightarrow> filter ((\<noteq>) 44) s = s"
  by (induction s) (auto simp: isDigit_def)

lemma ungroup_groupThousands:
  assumes "list_all isDigit s"
  shows "ungroup (groupThousands s) = s"
proof -
  have "ungroup (groupThousands s) = concat (map (\<lambda>i. filter ((\<noteq>) 44) [s ! i]) [0..<length s])"
    by (auto simp: ungroup_def groupThousands_def filter_concat comp_def intro!: arg_cong [where f = concat])
  also have "\<dots> = concat (map (\<lambda>i. [s ! i]) [0..<length s])"
  proof -
    have "filter ((\<noteq>) 44) [s ! i] = [s ! i]" if "i < length s" for i
    proof -
      have "isDigit (s ! i)" using assms nth_mem [OF that] by (auto simp: list_all_iff)
      then show ?thesis by (auto simp: isDigit_def)
    qed
    then show ?thesis by (intro arg_cong [where f = concat] map_cong) auto
  qed
  also have "\<dots> = s" by (simp add: concat_map_singleton map_nth)
  finally show ?thesis .
qed

lemma commaAt_digits:
  assumes "list_all isDigit s" and "i < length s"
  shows "commaAt s i \<longleftrightarrow> 0 < i \<and> 3 dvd length s - i"
proof -
  have "takeWhile isDigit (drop i s) = drop i s"
    using assms(1) by (auto simp: takeWhile_eq_all_conv list_all_iff dest: in_set_dropD)
  then have "length (takeWhile isDigit (drop i s)) = length s - i" by (simp only: length_drop)
  moreover have "isWord (s ! (i - 1))"
    using assms by (auto simp: list_all_iff isWord_def is_alnum_def isDigit_def dest: nth_mem [of "i - 1" s])
  ultimately show ?thesis using assms(2) by (auto simp only: commaAt_def Let_def) auto
qed

text \<open>The regular expression groups digits as \<^verbatim>\<open>toLocaleString\<close> does: three by three from the right.\<close>

lemma groupRev_snoc: "list_all isDigit s \<Longrightarrow>
  groupRev (s @ [d]) = groupRev s @ (if s \<noteq> [] \<and> 3 dvd length s then [44, d] else [d])"
proof (induction s rule: groupRev.induct)
  case (1 a b c e s)
  have "3 dvd Suc (Suc (Suc (length (e # s)))) \<longleftrightarrow> 3 dvd length (e # s)" by presburger
  with 1 show ?case by simp
qed (simp_all, presburger+)

lemma groupThousands_Cons:
  assumes "list_all isDigit (d # s)"
  shows "groupThousands (d # s) = d # (if s \<noteq> [] \<and> 3 dvd length s then [44] else []) @ groupThousands s"
proof -
  have tail: "list_all isDigit s" using assms by simp
  have at: "(if commaAt (d # s) (Suc i) then [44, (d # s) ! Suc i] else [(d # s) ! Suc i])
      = (if i = 0 \<and> 3 dvd length s then [44] else []) @ (if commaAt s i then [44, s ! i] else [s ! i])"
    if "i < length s" for i
    using that commaAt_digits [OF assms, of "Suc i"] commaAt_digits [OF tail that] by auto
  have first: "\<not> commaAt (d # s) 0" by (simp add: commaAt_def)
  let ?g = "\<lambda>i. if commaAt s i then [44, s ! i] else [s ! i]"
    and ?c = "\<lambda>i. if i = 0 \<and> 3 dvd length s then [44::nat] else []"
  have whole: "groupThousands (d # s) = d # concat (map (\<lambda>i. ?c i @ ?g i) [0..<length s])"
  proof -
    have "map (\<lambda>i. if commaAt (d # s) i then [44, (d # s) ! i] else [(d # s) ! i]) [1..<length (d # s)]
        = map (\<lambda>i. if commaAt (d # s) (Suc i) then [44, (d # s) ! Suc i] else [(d # s) ! Suc i]) [0..<length s]"
      by (simp add: map_Suc_upt [symmetric] comp_def del: upt_Suc)
    also have "\<dots> = map (\<lambda>i. ?c i @ ?g i) [0..<length s]"
      by (intro map_cong refl at) simp
    finally show ?thesis unfolding groupThousands_def using first by (simp add: upt_conv_Cons del: upt_Suc)
  qed
  show ?thesis
  proof (cases "s = []")
    case True
    then show ?thesis using whole by (simp add: groupThousands_def)
  next
    case False
    have "map (\<lambda>i. ?c i @ ?g i) [1..<length s] = map ?g [1..<length s]" by (intro map_cong) auto
    moreover have "[0..<length s] = 0 # [1..<length s]" using False by (simp add: upt_conv_Cons)
    ultimately have "concat (map (\<lambda>i. ?c i @ ?g i) [0..<length s]) = ?c 0 @ concat (map ?g [0..<length s])"
      by (simp only: list.map concat.simps append_assoc refl)
    then show ?thesis using whole False by (simp only: groupThousands_def simp_thms)
  qed
qed

lemma groupThousands_groupDigits: "list_all isDigit s \<Longrightarrow> groupThousands s = groupDigits s"
proof (induction s)
  case (Cons d s)
  then show ?case
    using groupRev_snoc [of "rev s" d] by (simp add: groupThousands_Cons groupDigits_def list_all_rev)
qed (simp add: groupThousands_def groupDigits_def)

section \<open>Amounts of digits\<close>

definition sign :: "bool \<Rightarrow> jstr" where
  "sign neg = (if neg then [45] else [])"

lemma trim_id: "\<forall>c \<in> set s. \<not> isSpace c \<Longrightarrow> trim s = s"
proof -
  assume s: "\<forall>c \<in> set s. \<not> isSpace c"
  have "dropWhile isSpace t = t" if "\<forall>c \<in> set t. \<not> isSpace c" for t using that by (cases t) auto
  from this [of s] this [of "rev s"] show ?thesis using s by (simp add: trim_def)
qed

lemma digit_facts: "isDigit c \<Longrightarrow> \<not> isSpace c \<and> c \<noteq> 46 \<and> c \<noteq> 45 \<and> c \<noteq> 44 \<and> isWord c"
  by (auto simp: isDigit_def isSpace_def isWord_def is_alnum_def)

lemma takeWhile_digits: "list_all isDigit w \<Longrightarrow> takeWhile ((\<noteq>) 46) (w @ [46] @ f) = w" "list_all isDigit w \<Longrightarrow> takeWhile ((\<noteq>) 46) w = w"
  "list_all isDigit w \<Longrightarrow> dropWhile ((\<noteq>) 46) (w @ [46] @ f) = [46] @ f" "list_all isDigit w \<Longrightarrow> dropWhile ((\<noteq>) 46) w = []"
  by (induction w) (auto simp: isDigit_def)

lemma formatOBX_point:
  assumes w: "list_all isDigit w" "w \<noteq> []" and f: "list_all isDigit f"
  shows "formatOBX (Str (sign neg @ w @ [46] @ f)) = sign neg @ groupDigits w @ [46] @ take 12 (f @ replicate 12 48)"
    and "formatOBX (Str (sign neg @ w)) = sign neg @ groupDigits w @ [46] @ replicate 12 48"
proof -
  have "\<forall>c \<in> set (sign neg @ w @ [46] @ f). \<not> isSpace c" "\<forall>c \<in> set (sign neg @ w). \<not> isSpace c"
    using assms by (auto simp: sign_def list_all_iff dest: digit_facts) (auto simp: isSpace_def)
  note trims = this [THEN trim_id]
  obtain d r where dr: "w = d # r" "d \<noteq> 45" using w digit_facts by (cases w) auto
  have neg: "(take 1 (sign neg @ w @ t) = [45]) = neg" "(if neg then drop 1 (sign neg @ w @ t) else sign neg @ w @ t) = w @ t" for t
    using dr by (auto simp: sign_def)
  note eqs = Let_def toStr.simps jsval.distinct jsval.inject simp_thms if_False append_is_Nil_conv not_Cons_self2 w(2)
  show "formatOBX (Str (sign neg @ w @ [46] @ f)) = sign neg @ groupDigits w @ [46] @ take 12 (f @ replicate 12 48)"
    unfolding formatOBX_def eqs trims neg takeWhile_digits(1,3) [OF w(1)] or_text_def groupThousands_groupDigits [OF w(1)]
    using takeWhile_digits(2) [OF f] groupThousands_groupDigits [OF w(1)] w(2)
    by (simp add: takeWhile_eq_all_conv [THEN iffD2] DECIMALS_def sign_def [symmetric])
  show "formatOBX (Str (sign neg @ w)) = sign neg @ groupDigits w @ [46] @ replicate 12 48"
    unfolding formatOBX_def eqs trims neg [where t = "[]", unfolded append_Nil2] takeWhile_digits(2,4) [OF w(1)] or_text_def
      groupThousands_groupDigits [OF w(1)]
    using groupThousands_groupDigits [OF w(1)] w(2) by (simp add: DECIMALS_def sign_def [symmetric])
qed

lemma atomicToOBX_decimal:
  assumes "toStr v = sign neg @ decimal n" and "v \<noteq> Undef" "v \<noteq> Null"
  shows "atomicToOBX v = Str (sign neg @ decimal (n div 10 ^ 12) @ [46] @ fixedDigits 12 (n mod 10 ^ 12))"
proof -
  have dot: "46 \<notin> set (sign neg @ decimal n)"
    using decimal_digits [of n] digit_facts by (auto simp: sign_def)
  obtain d r where dr: "decimal n = d # r" "d \<noteq> 45" using decimal_digits [of n] digit_facts decimal_not_Nil [of n]
    by (cases "decimal n") auto
  have "(take 1 (toStr v) = [45]) = neg" "(if neg then drop 1 (toStr v) else toStr v) = decimal n"
    using dr by (auto simp: assms(1) sign_def)
  moreover have pad: "padZeros (decimal n) = decimal (n div 10 ^ 12) @ fixedDigits 12 (n mod 10 ^ 12)"
    using padded_decimal [of 12 n] by (simp add: padZeros_eq)
  moreover have "length (fixedDigits 12 (n mod 10 ^ 12)) = 12" by (rule length_fixedDigits) simp
  ultimately show ?thesis
    using dot assms unfolding atomicToOBX_def Let_def by (simp add: DECIMALS_def sign_def)
qed

lemma display_decimal:
  assumes "toStr v = sign neg @ decimal n" and "v \<noteq> Undef" "v \<noteq> Null"
  shows "formatOBX (atomicToOBX v) = sign neg @ groupDigits (decimal (n div 10 ^ 12)) @ [46] @ fixedDigits 12 (n mod 10 ^ 12)"
proof -
  have "length (fixedDigits 12 (n mod 10 ^ 12)) = 12" by (rule length_fixedDigits) simp
  then show ?thesis
    using formatOBX_point(1) [OF list_all_decimal decimal_not_Nil list_all_fixedDigits]
    by (simp add: atomicToOBX_decimal [OF assms])
qed

lemma filter_digits_group:
  assumes "list_all isDigit s"
  shows "filter isDigit (groupDigits s) = s"
proof -
  have "filter isDigit (groupThousands s) = filter isDigit (ungroup (groupThousands s))"
    unfolding ungroup_def filter_filter by (rule filter_cong) (auto simp: isDigit_def)
  then show ?thesis using ungroup_groupThousands [OF assms] groupThousands_groupDigits [OF assms] assms
    by (auto simp: list_all_iff filter_id_conv)
qed

lemma digits_of_point:
  assumes "list_all isDigit w" and "list_all isDigit f"
  shows "filter isDigit (sign neg @ groupDigits w @ [46] @ f) = w @ f"
  using filter_digits_group [OF assms(1)] assms(2) by (auto simp: sign_def isDigit_def list_all_iff filter_id_conv)

lemma digitsValue_split: "digitsValue (decimal (n div 10 ^ d) @ fixedDigits d (n mod 10 ^ d)) = n"
proof -
  have "digitsValue (replicate k 48 @ s) = digitsValue s" for k s
    by (induction k) (simp_all add: digitsValue_def)
  then show ?thesis using padded_decimal [of d n] by (metis digitsValue_decimal)
qed

lemma doubleOf_first_gap: "doubleOf 9007199254740993 = 9007199254740992"
proof -
  have "floorLog2 9007199254740993 = 53" by (rule floorLog2_unique) simp_all
  then have u: "ulp 9007199254740993 = 2" by (simp add: ulp_def)
  have "\<lfloor>9007199254740993 / 2 :: rat\<rfloor> = 4503599627370496" by (rule floor_unique) simp_all
  then show ?thesis by (simp add: doubleOf_def u roundEven_def Let_def)
qed

lemma localeDecimal_of_nat: "localeDecimal (of_nat n) = groupDigits (decimal n)"
proof -
  have "\<lfloor>rat_of_nat n * 1000 + 1 / 2\<rfloor> = int (n * 1000)" by (rule floor_unique) auto
  then have "nat \<lfloor>rat_of_nat n * 1000 + 1 / 2\<rfloor> = n * 1000" by (simp only: nat_int)
  moreover have "decimal 1000 = [49, 48, 48, 48]" by (simp add: decimal_div decimal_small)
  ultimately show ?thesis by (simp add: localeDecimal_def Let_def)
qed

text \<open>What grouping means: the digits cut into groups, the first of one to three digits, all others of
  three, joined by commas.\<close>

definition threes :: "jstr list \<Rightarrow> bool" where
  "threes gs \<longleftrightarrow> gs \<noteq> [] \<and> 1 \<le> length (hd gs) \<and> length (hd gs) \<le> 3 \<and> (\<forall>g \<in> set (tl gs). length g = 3)"

lemma threes_length: "threes gs \<Longrightarrow> \<exists>k. length (concat gs) = length (hd gs) + 3 * k"
proof (cases gs)
  case (Cons g rest)
  assume "threes gs"
  then have "\<forall>h \<in> set rest. length h = 3" by (simp add: threes_def Cons)
  then have "length (concat rest) = 3 * length rest" by (induction rest) auto
  then show ?thesis by (simp add: Cons)
qed (simp add: threes_def)

lemma joinWith_Cons: "joinWith sep ((d # g) # gs) = d # joinWith sep (g # gs)" "gs \<noteq> [] \<Longrightarrow> joinWith sep (g # gs) = g @ sep @ joinWith sep gs"
  by (cases gs, simp, simp)+

lemma groupDigits_threes:
  assumes "list_all isDigit s" and "s \<noteq> []"
  shows "\<exists>gs. threes gs \<and> concat gs = s \<and> groupDigits s = joinWith [44] gs"
  using assms
proof (induction s)
  case (Cons d s)
  show ?case
  proof (cases "s = []")
    case True
    then show ?thesis by (intro exI [of _ "[[d]]"]) (simp add: threes_def groupDigits_def)
  next
    case False
    then obtain gs where gs: "threes gs" "concat gs = s" "groupDigits s = joinWith [44] gs" using Cons by auto
    obtain g rest where g: "gs = g # rest" using gs(1) by (cases gs) (auto simp: threes_def)
    obtain k where k: "length s = length g + 3 * k" using threes_length [OF gs(1)] gs(2) g by auto
    have step: "groupDigits (d # s) = d # (if 3 dvd length s then [44] else []) @ groupDigits s"
      using groupThousands_Cons [OF Cons.prems(1)] groupThousands_groupDigits [OF Cons.prems(1)]
        groupThousands_groupDigits [of s] Cons.prems(1) False by simp
    show ?thesis
    proof (cases "3 dvd length s")
      case True
      then have "length g = 3" using k gs(1) by (auto simp: threes_def g) presburger
      then show ?thesis using gs step True
        by (intro exI [of _ "[d] # gs"]) (auto simp: threes_def g joinWith_Cons)
    next
      case False
      then have "length g \<noteq> 3" using k by auto
      then show ?thesis using gs step False
        by (intro exI [of _ "(d # g) # rest"]) (auto simp: threes_def g joinWith_Cons)
    qed
  qed
qed simp

section \<open>Properties\<close>

text \<open>\<^bold>\<open>C16.\<close> The display of an atomic amount: coins in groups of three digits, a point and the twelve
  decimals, for every amount sent as text and for every number below \<open>2\<^sup>5\<^sup>3\<close>; the digits shown are the
  digits of the amount, nothing is lost.\<close>

theorem atomic_amount_display:
  assumes "v = Str (sign neg @ decimal n) \<or> v = Number (Fin (of_nat n)) \<and> n < 2 ^ 53 \<and> \<not> neg"
  shows "formatOBX (atomicToOBX v) = sign neg @ groupDigits (decimal (n div 10 ^ 12)) @ [46] @ fixedDigits 12 (n mod 10 ^ 12)
    \<and> digitsValue (filter isDigit (formatOBX (atomicToOBX v))) = n"
proof -
  have "formatOBX (atomicToOBX v) = sign neg @ groupDigits (decimal (n div 10 ^ 12)) @ [46] @ fixedDigits 12 (n mod 10 ^ 12)"
    using assms toStr_of_nat [of n] by (intro display_decimal) (auto simp: sign_def)
  then show ?thesis
    by (simp only: digits_of_point [OF list_all_decimal list_all_fixedDigits] digitsValue_split simp_thms)
qed

theorem atomic_amount_display_witness:
  "formatOBX (atomicToOBX (Number (Fin 1050000000000))) = js ''1.050000000000''"
proof -
  have "fixedDigits 12 50000000000 = js ''050000000000''"
    by (simp add: fixedDigits_def decimal_div decimal_small js_def)
  then show ?thesis
    using atomic_amount_display [of "Number (Fin 1050000000000)" False 1050000000000]
    by (simp add: sign_def decimal_small groupDigits_def js_def)
qed

text \<open>Where the exactness of numbers ends: the node sends the incentive pool as a JSON number, and
  two pools that differ by one atomic unit above \<open>2\<^sup>5\<^sup>3\<close> (some 9007 coins) show as the same amount.\<close>

theorem pool_display_collision:
  "formatOBX (atomicToOBX (Number (toDouble 9007199254740993))) = formatOBX (atomicToOBX (Number (toDouble 9007199254740992)))
   \<and> formatOBX (atomicToOBX (Str (decimal 9007199254740993))) \<noteq> formatOBX (atomicToOBX (Str (decimal 9007199254740992)))"
proof
  have "toDouble 9007199254740993 = toDouble 9007199254740992"
    using toDouble_of_int [of 9007199254740992] by (simp add: toDouble_def doubleOf_first_gap)
  then show "formatOBX (atomicToOBX (Number (toDouble 9007199254740993)))
      = formatOBX (atomicToOBX (Number (toDouble 9007199254740992)))" by simp
  have shown: "digitsValue (filter isDigit (formatOBX (atomicToOBX (Str (decimal n))))) = n" for n
  proof -
    have "toStr (Str (decimal n)) = sign False @ decimal n" by (simp add: sign_def)
    from display_decimal [OF this] show ?thesis
      by (simp only: digits_of_point [OF list_all_decimal list_all_fixedDigits] digitsValue_split jsval.distinct simp_thms)
  qed
  show "formatOBX (atomicToOBX (Str (decimal 9007199254740993))) \<noteq> formatOBX (atomicToOBX (Str (decimal 9007199254740992)))"
    by (rule notI) (use shown [of 9007199254740993] shown [of 9007199254740992] in simp)
qed

text \<open>Integers on the page: a missing, empty or non-numeric value is a dash; an integer below
  \<open>2\<^sup>5\<^sup>3\<close> shows its sign and its decimal digits cut into groups, the first of one to three digits and all
  others of three, joined by commas.\<close>

theorem formatInt_display:
  assumes "\<bar>z\<bar> < 2 ^ 53"
  shows "(\<exists>gs. threes gs \<and> concat gs = decimal (nat \<bar>z\<bar>)
      \<and> formatInt (Number (toDouble (of_int z))) = sign (z < 0) @ joinWith [44] gs)
    \<and> formatInt Undef = emDash \<and> formatInt Null = emDash \<and> formatInt (Str []) = emDash \<and> formatInt (Number NaN) = emDash"
proof -
  have abs: "rat_of_int z = (if z < 0 then - of_nat (nat \<bar>z\<bar>) else of_nat (nat \<bar>z\<bar>))" by simp
  have "formatInt (Number (Fin (of_int z))) = sign (z < 0) @ groupDigits (decimal (nat \<bar>z\<bar>))"
    unfolding abs using localeDecimal_of_nat [of "nat \<bar>z\<bar>"] by (auto simp: formatInt_def toNumber_def sign_def)
  then show ?thesis
    using groupDigits_threes [OF list_all_decimal decimal_not_Nil, of "nat \<bar>z\<bar>"] assms
    by (auto simp: formatInt_def toNumber_def)
qed

text \<open>Truncated texts: never longer than asked for, unchanged when short enough, otherwise the
  first and the last characters around an ellipsis.\<close>

theorem truncMiddle_display:
  "length (truncMiddle s h t) \<le> h + t + 1
   \<and> (length s \<le> h + t + 1 \<longrightarrow> truncMiddle s h t = s)
   \<and> (h + t + 1 < length s \<longrightarrow> length (truncMiddle s h t) = h + t + 1 \<and> take h (truncMiddle s h t) = take h s
        \<and> drop (h + 1) (truncMiddle s h t) = drop (length s - t) s \<and> truncMiddle s h t ! h = 0x2026)"
  by (auto simp: truncMiddle_def nth_append)

end
