(* ===== verification/Dash_Page.thy ===== *)
theory Dash_Page
  imports Qr_Api Dash_Format
begin

text \<open>
  The state the dashboard (\<^verbatim>\<open>webui/app.js\<close>) works on: the page, the variables of the script, the
  requests under way and the notifications, with the helpers every part of the script uses.

  \<^item> The page maps a selector to the element it finds, as \<^verbatim>\<open>$(sel)\<close> does on \<^verbatim>\<open>index.html\<close>; the record
    \<open>Elem\<close> has the properties the script reads or writes. A selector inside an element is written
    with a space, as in \<open>''#node-refresh .spinner''\<close>. The table of blocks, the chart and the QR
    canvas are fields of their own.
  \<^item> A promise is an entry of \<open>inflight\<close>: its continuation runs when the answer arrives, as a separate
    step. \<open>requests\<close> is the log of every request sent.
  \<^item> What the browser decides is the record \<open>Env\<close>: preferences, storage, clipboard, style sheet,
    \<^verbatim>\<open>JSON.parse\<close>.
\<close>

section \<open>State\<close>

record Elem =
  el_text :: jstr
  el_hidden :: bool
  el_disabled :: bool
  el_class :: "jstr list"
  el_attr :: "string \<Rightarrow> jstr option"
  el_value :: jstr
  el_title :: jstr
  el_tabIndex :: int

record Payload =
  pay_to :: jstr
  pay_amount :: jstr
  pay_fee :: jstr

record ApiRequest =
  rq_path :: jstr
  rq_method :: string
  rq_body :: "Payload option"
  rq_timeout :: nat

text \<open>The continuations that wait for an answer: \<open>NodeStatus\<close>, one \<open>BlockAt\<close> per block of a batch (batch,
  position, height), the wallet's address and balance, a transfer with its
  payload, and the clipboard.\<close>

datatype Call = NodeStatus bool | BlockAt nat nat jsnum | WalletAddress | WalletBalance bool | SendCall Payload | ClipboardWrite

record Row =
  row_h :: jsnum
  row_size :: "nat option"
  row_block :: "jstr option"

datatype BlockTable = NoBlocks | BlockRows "(jstr \<times> jstr \<times> jstr \<times> jstr option) list"

datatype chart_op = ClearRect | MoveTo jsnum jsnum | LineTo jsnum jsnum | StrokePath string | ClosePath | FillPath string

record Toast =
  t_id :: nat
  t_class :: "jstr list"
  t_role :: string
  t_msg :: jstr
  t_timer :: "int option"

record App =
  page :: "string \<Rightarrow> Elem"
  blocksBody :: BlockTable
  chart :: "chart_op list"
  qrCanvas :: Canvas
  address :: jsval
  samples :: "(jsnum \<times> int) list"
  connection :: string
  blocksCache :: "jstr \<Rightarrow> nat option"
  pendingSend :: "Payload option"
  walletLoaded :: bool
  focused :: string
  lastFocused :: "string option"
  focusTrapHandler :: "nat option"
  listeners :: "nat list"
  toasts :: "Toast list"
  storage :: "string \<Rightarrow> jstr option"
  copyTimers :: "jstr list"
  requests :: "ApiRequest list"
  inflight :: "(nat \<times> Call) list"
  batches :: "nat \<Rightarrow> Row option list"
  fresh :: nat

record Env =
  e_reducedMotion :: bool
  e_prefersLight :: bool
  e_storageOk :: bool
  e_clipboard :: bool
  e_execCopy :: bool
  e_css :: "jstr option \<Rightarrow> string \<Rightarrow> string"
  e_host :: jstr
  e_parse :: "jstr \<Rightarrow> jsval option"
  e_toLocale :: "int \<Rightarrow> jstr option" \<comment> \<open>\<^verbatim>\<open>toLocaleString\<close> of a time, unless the host refuses the options\<close>
  e_toISO :: "int \<Rightarrow> jstr"

text \<open>A time in milliseconds as the host prints it, with its time zone; the ISO form if the host cannot.\<close>

definition fmtTimestamp :: "Env \<Rightarrow> int \<Rightarrow> jstr" where
  "fmtTimestamp env d = (case e_toLocale env d of Some s \<Rightarrow> s | None \<Rightarrow> e_toISO env d)"

section \<open>The page as loaded\<close>

definition blankElem :: Elem where
  "blankElem = \<lparr>el_text = [], el_hidden = False, el_disabled = False, el_class = [], el_attr = (\<lambda>_. None), el_value = [],
     el_title = [], el_tabIndex = 0\<rparr>"

definition hiddenIds :: "string list" where
  "hiddenIds = [''#node-offline-banner'', ''#wallet-missing-banner'', ''#panel-wallet'', ''#confirm-modal'', ''#send-to-err'',
     ''#send-amount-err'', ''#send-fee-err'', ''#node-refresh .spinner'', ''#wallet-refresh .spinner'', ''#confirm-send .spinner'']"

text \<open>What \<^verbatim>\<open>index.html\<close> has before the script runs.\<close>

definition startPage :: "string \<Rightarrow> Elem" where
  "startPage = (\<lambda>sel.
     let e = blankElem\<lparr>el_hidden := (sel \<in> set hiddenIds)\<rparr>
     in if sel = ''html'' then e\<lparr>el_attr := [''data-theme'' \<mapsto> js ''dark'']\<rparr>
        else if sel = ''#conn-indicator'' then e\<lparr>el_class := [js ''conn-indicator'', js ''conn-unknown'']\<rparr>
        else if sel = ''#conn-indicator .conn-label'' then e\<lparr>el_text := js ''Connecting'' @ [0x2026]\<rparr>
        else if sel = ''#tab-node-btn'' then e\<lparr>el_attr := [''aria-selected'' \<mapsto> js ''true'']\<rparr>
        else if sel = ''#tab-wallet-btn'' then e\<lparr>el_attr := [''aria-selected'' \<mapsto> js ''false''], el_tabIndex := - 1\<rparr>
        else if sel = ''#copy-address'' then e\<lparr>el_disabled := True\<rparr>
        else if sel = ''#copy-address .btn-label'' then e\<lparr>el_text := js ''Copy''\<rparr>
        else if sel = ''#send-fee'' then e\<lparr>el_value := js ''0.0001''\<rparr>
        else e)"

definition startApp :: "(string \<Rightarrow> jstr option) \<Rightarrow> App" where
  "startApp store =
     \<lparr>page = startPage, blocksBody = NoBlocks, chart = [], qrCanvas = \<lparr>cv_width = 200, cv_height = 200, cv_ops = []\<rparr>,
      address = Null, samples = [], connection = ''unknown'', blocksCache = (\<lambda>_. None), pendingSend = None,
      walletLoaded = False, focused = ''body'', lastFocused = None, focusTrapHandler = None, listeners = [], toasts = [],
      storage = store, copyTimers = [], requests = [], inflight = [], batches = (\<lambda>_. []), fresh = 0\<rparr>"

section \<open>Elements\<close>

definition upd :: "string \<Rightarrow> (Elem \<Rightarrow> Elem) \<Rightarrow> App \<Rightarrow> App" where
  "upd sel f a = a\<lparr>page := (page a)(sel := f (page a sel))\<rparr>"

abbreviation setText :: "string \<Rightarrow> jstr \<Rightarrow> App \<Rightarrow> App" where
  "setText sel t \<equiv> upd sel (el_text_update (\<lambda>_. t))"
abbreviation setHidden :: "string \<Rightarrow> bool \<Rightarrow> App \<Rightarrow> App" where
  "setHidden sel b \<equiv> upd sel (el_hidden_update (\<lambda>_. b))"
abbreviation setDisabled :: "string \<Rightarrow> bool \<Rightarrow> App \<Rightarrow> App" where
  "setDisabled sel b \<equiv> upd sel (el_disabled_update (\<lambda>_. b))"
abbreviation setTitle :: "string \<Rightarrow> jstr \<Rightarrow> App \<Rightarrow> App" where
  "setTitle sel t \<equiv> upd sel (el_title_update (\<lambda>_. t))"
abbreviation setValue :: "string \<Rightarrow> jstr \<Rightarrow> App \<Rightarrow> App" where
  "setValue sel t \<equiv> upd sel (el_value_update (\<lambda>_. t))"
abbreviation setTabIndex :: "string \<Rightarrow> int \<Rightarrow> App \<Rightarrow> App" where
  "setTabIndex sel i \<equiv> upd sel (el_tabIndex_update (\<lambda>_. i))"
abbreviation setClass :: "string \<Rightarrow> jstr list \<Rightarrow> App \<Rightarrow> App" where
  "setClass sel cs \<equiv> upd sel (el_class_update (\<lambda>_. cs))"
abbreviation addClass :: "string \<Rightarrow> jstr \<Rightarrow> App \<Rightarrow> App" where
  "addClass sel c \<equiv> upd sel (el_class_update (\<lambda>cs. if c \<in> set cs then cs else cs @ [c]))"
abbreviation removeClass :: "string \<Rightarrow> jstr \<Rightarrow> App \<Rightarrow> App" where
  "removeClass sel c \<equiv> upd sel (el_class_update (filter ((\<noteq>) c)))"
abbreviation setAttribute :: "string \<Rightarrow> string \<Rightarrow> jstr \<Rightarrow> App \<Rightarrow> App" where
  "setAttribute sel n v \<equiv> upd sel (el_attr_update (\<lambda>m. m(n := Some v)))"
abbreviation removeAttribute :: "string \<Rightarrow> string \<Rightarrow> App \<Rightarrow> App" where
  "removeAttribute sel n \<equiv> upd sel (el_attr_update (\<lambda>m. m(n := None)))"

definition boolText :: "bool \<Rightarrow> jstr" where
  "boolText b = (if b then js ''true'' else js ''false'')"

section \<open>Storage, notifications\<close>

definition storeItem :: "Env \<Rightarrow> string \<Rightarrow> jstr \<Rightarrow> App \<Rightarrow> App" where
  "storeItem env k v a = (if e_storageOk env then a\<lparr>storage := (storage a)(k := Some v)\<rparr> else a)"

definition storedItem :: "Env \<Rightarrow> string \<Rightarrow> App \<Rightarrow> jstr option" where
  "storedItem env k a = (if e_storageOk env then storage a k else None)"

definition toast :: "jstr \<Rightarrow> string \<Rightarrow> int option \<Rightarrow> App \<Rightarrow> App" where
  "toast message kind ttl a =
     (let kind' = (if kind = '''' then ''info'' else kind);
          ttl = (case ttl of Some t \<Rightarrow> t | None \<Rightarrow> if kind = ''error'' then 8000 else 4000)
      in a\<lparr>toasts := toasts a @ [\<lparr>t_id = fresh a, t_class = [js ''toast'', js ''toast-'' @ js kind'],
                                   t_role = (if kind = ''error'' then ''alert'' else ''status''), t_msg = message,
                                   t_timer = (if ttl > 0 then Some ttl else None)\<rparr>],
           fresh := fresh a + 1\<rparr>)"

text \<open>\<^verbatim>\<open>dismiss\<close>, run by the close button or by the timer, and the removal 200 ms later.\<close>

definition dismiss :: "Env \<Rightarrow> nat \<Rightarrow> App \<Rightarrow> App" where
  "dismiss env i a =
     (if e_reducedMotion env then a\<lparr>toasts := filter (\<lambda>t. t_id t \<noteq> i) (toasts a)\<rparr>
      else a\<lparr>toasts := map (\<lambda>t. if t_id t = i
                                then t\<lparr>t_timer := None, t_class := (if js ''toast-out'' \<in> set (t_class t) then t_class t
                                                                  else t_class t @ [js ''toast-out''])\<rparr>
                                else t) (toasts a)\<rparr>)"

definition removeToast :: "nat \<Rightarrow> App \<Rightarrow> App" where
  "removeToast i a = a\<lparr>toasts := filter (\<lambda>t. t_id t \<noteq> i) (toasts a)\<rparr>"

section \<open>Requests\<close>

datatype Outcome = Aborted | Failed | Answer bool nat jstr

record Reply =
  r_ok :: bool
  r_status :: nat
  r_data :: jsval

text \<open>What \<^verbatim>\<open>api\<close> resolves to, for each way the fetch can end.\<close>

definition apiReply :: "Env \<Rightarrow> Outcome \<Rightarrow> Reply" where
  "apiReply env out =
     (case out of
        Answer ok status txt \<Rightarrow>
          \<lparr>r_ok = ok, r_status = status,
           r_data = (if txt = [] then Obj [] else case e_parse env txt of Some d \<Rightarrow> d | None \<Rightarrow> Obj [(js ''error'', Str txt)])\<rparr>
      | Aborted \<Rightarrow> \<lparr>r_ok = False, r_status = 0, r_data = Obj [(js ''error'', Str (js ''request timed out''))]\<rparr>
      | Failed \<Rightarrow> \<lparr>r_ok = False, r_status = 0, r_data = Obj [(js ''error'', Str (js ''network error''))]\<rparr>)"

text \<open>The call itself: the request goes out, the continuation waits under a fresh number.\<close>

definition api :: "jstr \<Rightarrow> Payload option \<Rightarrow> nat \<Rightarrow> Call \<Rightarrow> App \<Rightarrow> App" where
  "api path body timeout k a =
     a\<lparr>requests := requests a @ [\<lparr>rq_path = path, rq_method = (if body = None then ''GET'' else ''POST''),
                                   rq_body = body, rq_timeout = timeout\<rparr>],
       inflight := inflight a @ [(fresh a, k)], fresh := fresh a + 1\<rparr>"

text \<open>\<^verbatim>\<open>v.name\<close>: the last member of that name, \<^verbatim>\<open>undefined\<close> on anything but an object; \<open>None\<close> is the
  \<^verbatim>\<open>TypeError\<close> on \<^verbatim>\<open>null\<close>, which ends the continuation.\<close>

definition member :: "jsval \<Rightarrow> string \<Rightarrow> jsval" where
  "member v n = (case v of Obj kvs \<Rightarrow> (case map_of (rev kvs) (js n) of Some x \<Rightarrow> x | None \<Rightarrow> Undef) | _ \<Rightarrow> Undef)"

definition isNullish :: "jsval \<Rightarrow> bool" where
  "isNullish v \<longleftrightarrow> v = Null \<or> v = Undef"

section \<open>Theme, busy buttons, connection, tabs\<close>

definition setBusy :: "string \<Rightarrow> bool \<Rightarrow> App \<Rightarrow> App" where
  "setBusy btn busy =
     setHidden (btn @ '' .spinner'') (\<not> busy) \<circ> setAttribute btn ''aria-busy'' (boolText busy) \<circ> setDisabled btn busy"

definition setConnection :: "string \<Rightarrow> string \<Rightarrow> App \<Rightarrow> App" where
  "setConnection kind label a =
     setText ''#conn-indicator .conn-label'' (js label)
       (setClass ''#conn-indicator'' [js ''conn-indicator'', js (''conn-'' @ kind)] (a\<lparr>connection := kind\<rparr>))"

text \<open>\<^verbatim>\<open>styles.getPropertyValue(name).trim() || dflt\<close>: the style sheet's value depends on the theme.\<close>

definition styleOr :: "Env \<Rightarrow> App \<Rightarrow> string \<Rightarrow> string \<Rightarrow> string" where
  "styleOr env a name dflt =
     (let v = e_css env (el_attr (page a ''html'') ''data-theme'') name in if v = '''' then dflt else v)"

definition renderQR :: "Env \<Rightarrow> jsval \<Rightarrow> App \<Rightarrow> App" where
  "renderQR env text a =
     (let dark = styleOr env a ''--qr-dark'' ''#000000'';
          light = styleOr env a ''--qr-light'' ''#ffffff''
      in case render (qrCanvas a) (toStr text)
                \<lparr>opt_level = Some ''M'', opt_quiet = Some 3, opt_size = Some 200, opt_light = Some light, opt_dark = Some dark\<rparr> of
           Inr (canvas, _) \<Rightarrow> setHidden ''#qr-empty'' True (setHidden ''#address-qr'' False (a\<lparr>qrCanvas := canvas\<rparr>))
         | Inl _ \<Rightarrow> setText ''#qr-empty'' (js ''Could not render QR code.'')
                      (setHidden ''#qr-empty'' False (setHidden ''#address-qr'' True a)))"

definition applyTheme :: "Env \<Rightarrow> jstr \<Rightarrow> App \<Rightarrow> App" where
  "applyTheme env theme a =
     (let isDark = (theme = js ''dark'');
          a = setAttribute ''html'' ''data-theme'' theme a;
          a = setAttribute ''#theme-toggle'' ''aria-pressed'' (boolText (\<not> isDark)) a;
          a = setAttribute ''#theme-toggle'' ''aria-label''
                (if isDark then js ''Switch to light theme'' else js ''Switch to dark theme'') a;
          a = setText ''#theme-toggle .theme-icon'' (if isDark then [0x263E] else [0x2600]) a;
          a = storeItem env ''obx-theme'' theme a
      in if truthy (address a) then renderQR env (address a) a else a)"

definition initTheme :: "Env \<Rightarrow> App \<Rightarrow> App" where
  "initTheme env a =
     (let saved = (case storedItem env ''obx-theme'' a of
                     Some s \<Rightarrow> if s = [] then None else Some s | None \<Rightarrow> None)
      in applyTheme env (case saved of Some s \<Rightarrow> s | None \<Rightarrow> if e_prefersLight env then js ''light'' else js ''dark'') a)"

definition toggleTheme :: "Env \<Rightarrow> App \<Rightarrow> App" where
  "toggleTheme env a =
     applyTheme env (if el_attr (page a ''html'') ''data-theme'' = Some (js ''dark'') then js ''light'' else js ''dark'') a"

text \<open>A browser for the examples: no preferences, a working storage, no clipboard, no style sheet, and
  every answer read as the number 7.\<close>

definition plainEnv :: Env where
  "plainEnv = \<lparr>e_reducedMotion = False, e_prefersLight = False, e_storageOk = True, e_clipboard = False, e_execCopy = True,
     e_css = (\<lambda>_ _. ''''), e_host = [], e_parse = (\<lambda>_. Some (Number (Fin 7))), e_toLocale = (\<lambda>_. None), e_toISO = (\<lambda>_. js ''1970-01-01T00:00:00.000Z'')\<rparr>"

end
