(* ===== verification/Dash_Node.thy ===== *)
theory Dash_Node
  imports Dash_Page
begin

text \<open>
  The node panel of the dashboard: status cards, height samples with their chart, and the table of
  recent blocks with its cache. Numbers are doubles; the arithmetic of the chart and of the block loop
  rounds after every operation.
\<close>

section \<open>Connection and cards\<close>

definition statCards :: "string list" where
  "statCards = [''#stat-height'', ''#stat-diff'', ''#stat-supply'', ''#stat-pool'', ''#stat-anon'', ''#stat-mempool'',
     ''#stat-backend'', ''#stat-status'']"

definition setNodeOffline :: "bool \<Rightarrow> App \<Rightarrow> App" where
  "setNodeOffline offline a =
     (let a = setHidden ''#node-offline-banner'' (\<not> offline) a
      in if offline
         then fold (\<lambda>v. removeAttribute v ''aria-busy'') statCards (setConnection ''offline'' ''Node offline'' a)
         else a)"

definition setStat :: "string \<Rightarrow> jstr \<Rightarrow> App \<Rightarrow> App" where
  "setStat sel val a = setText sel val (removeAttribute sel ''aria-busy'' a)"

definition renderNodeStatus :: "jsval \<Rightarrow> App \<Rightarrow> App" where
  "renderNodeStatus d a =
     (let a = setStat ''#stat-height'' (formatInt (member d ''height'')) a;
          a = setStat ''#stat-diff'' (formatInt (member d ''difficulty'')) a;
          a = setStat ''#stat-supply'' (if truthy (member d ''emitted_obx'') then formatOBX (member d ''emitted_obx'')
                                        else formatInt (member d ''emitted_atomic'')) a;
          a = setStat ''#stat-pool'' (formatOBX (atomicToOBX (member d ''incentive_pool_atomic''))) a;
          a = setStat ''#stat-anon'' (formatInt (member d ''accumulator_size'')) a;
          a = setStat ''#stat-mempool'' (formatInt (member d ''mempool_size'')) a;
          a = setStat ''#stat-backend'' (if truthy (member d ''accumulator_backend'') then toStr (member d ''accumulator_backend'')
                                         else emDash) a;
          a = removeAttribute ''#stat-status'' ''aria-busy'' a
      in if samples a \<noteq> [] \<and> numLess (fst (last (samples a))) (toNumber (member d ''height''))
         then setConnection ''syncing'' ''Syncing'' (setText ''#stat-status'' (js ''Syncing'') a)
         else setConnection ''online'' ''Online'' (setText ''#stat-status'' (js ''Online'') a))"

section \<open>Samples and chart\<close>

definition MAX_SAMPLES :: nat where
  "MAX_SAMPLES = 60"

definition foldMin :: "jsnum list \<Rightarrow> jsnum" where
  "foldMin = foldl numMin (Infinite False)"

definition foldMax :: "jsnum list \<Rightarrow> jsnum" where
  "foldMax = foldl numMax (Infinite True)"

text \<open>The canvas of \<^verbatim>\<open>index.html\<close> has 600 by 120 pixels; \<^verbatim>\<open>pad\<close> is 8.\<close>

definition chartX :: "nat \<Rightarrow> nat \<Rightarrow> jsnum" where
  "chartX n i = numAdd (Fin 8) (numMul (numDiv (Fin (of_nat i)) (Fin (of_nat (n - 1)))) (Fin 584))"

definition chartY :: "jsnum \<Rightarrow> jsnum \<Rightarrow> jsnum \<Rightarrow> jsnum" where
  "chartY mn mx v = numSub (Fin 112) (numMul (numDiv (numSub v mn) (numSub mx mn)) (Fin 104))"

definition chartLine :: "jsnum list \<Rightarrow> jsnum \<Rightarrow> jsnum \<Rightarrow> chart_op list" where
  "chartLine hs mn mx =
     map (\<lambda>i. (if i = 0 then MoveTo else LineTo) (chartX (length hs) i) (chartY mn mx (hs ! i))) [0..<length hs]"

definition drawChart :: "Env \<Rightarrow> App \<Rightarrow> App" where
  "drawChart env a =
     (if length (samples a) < 2
      then setHidden ''#height-chart'' True (setHidden ''#chart-empty'' False a)
      else let hs = map fst (samples a); n = length hs;
               mn = foldMin hs; mx0 = foldMax hs;
               mx = (if mx0 = mn \<and> mn \<noteq> NaN then numAdd mn (Fin 1) else mx0);
               ops = [ClearRect] @ chartLine hs mn mx @ [StrokePath (styleOr env a ''--accent'' ''#6ea8fe'')]
                 @ [LineTo (chartX n (n - 1)) (Fin 112), LineTo (chartX n 0) (Fin 112), ClosePath,
                    FillPath (styleOr env a ''--accent-soft'' ''rgba(110,168,254,0.15)'')]
           in setText ''#chart-sub'' (decimal n @ js '' samples '' @ [0xB7, 32] @ numberToString mn @ [0x2192] @ numberToString mx)
                (setHidden ''#height-chart'' False (setHidden ''#chart-empty'' True (a\<lparr>chart := ops\<rparr>))))"

definition pushSample :: "Env \<Rightarrow> int \<Rightarrow> jsval \<Rightarrow> App \<Rightarrow> App" where
  "pushSample env now height a =
     (let h = toNumber height
      in if h = NaN then a
         else let ss = samples a @ [(h, now)];
                  ss = (if length ss > MAX_SAMPLES then tl ss else ss)
              in drawChart env (a\<lparr>samples := ss\<rparr>))"

section \<open>Recent blocks\<close>

text \<open>\<^verbatim>\<open>for (var i = h; i > h - 8 && i >= 0; i--) wanted.push(i)\<close>. The loop need not end when \<open>i - 1\<close> rounds
  to \<open>i\<close>: \<open>None\<close> is that case.\<close>

partial_function (option) wantedFrom :: "jsnum \<Rightarrow> jsnum \<Rightarrow> jsnum list option" where
  "wantedFrom h i =
     (if numLess (numSub h (Fin 8)) i \<and> (i = Fin 0 \<or> numLess (Fin 0) i)
      then Option.bind (wantedFrom h (numSub i (Fin 1))) (\<lambda>is. Some (i # is))
      else Some [])"

definition renderRow :: "Row \<Rightarrow> jstr \<times> jstr \<times> jstr \<times> jstr option" where
  "renderRow row =
     (let hex = (case row_block row of Some b \<Rightarrow> b | None \<Rightarrow> [])
      in (formatInt (Number (row_h row)),
          (case row_size row of Some n \<Rightarrow> formatInt (Number (toDouble (of_nat n))) | None \<Rightarrow> emDash),
          (if hex \<noteq> [] then truncMiddle hex 10 8 else js ''unavailable''),
          (if hex \<noteq> [] then Some hex else None)))"

definition renderBlocks :: "Row list \<Rightarrow> App \<Rightarrow> App" where
  "renderBlocks rows a = a\<lparr>blocksBody := (if rows = [] then NoBlocks else BlockRows (map renderRow rows))\<rparr>"

text \<open>One height of the batch: from the cache, or a request.\<close>

definition wantBlock :: "nat \<Rightarrow> nat \<times> jsnum \<Rightarrow> App \<Rightarrow> App" where
  "wantBlock b slot a =
     (let (i, bh) = slot
      in case blocksCache a (numberToString bh) of
           Some sz \<Rightarrow> a\<lparr>batches := (batches a)(b := (batches a b)[i := Some \<lparr>row_h = bh, row_size = Some sz, row_block = None\<rparr>])\<rparr>
         | None \<Rightarrow> api (js ''/api/node/block?height='' @ numberToString bh) None 8000 (BlockAt b i bh) a)"

text \<open>\<^verbatim>\<open>Promise.all\<close> of the batch: once every row is there, in the order of the heights.\<close>

definition settleBatch :: "nat \<Rightarrow> App \<Rightarrow> App" where
  "settleBatch b a =
     (if list_all (\<lambda>r. r \<noteq> None) (batches a b)
      then renderBlocks (map the (batches a b)) (a\<lparr>batches := (batches a)(b := [])\<rparr>)
      else a)"

definition refreshBlocks :: "jsval \<Rightarrow> App \<Rightarrow> App option" where
  "refreshBlocks height a =
     (let h = toNumber height
      in if h = NaN then Some a
         else Option.bind (wantedFrom h h) (\<lambda>wanted.
           let b = fresh a;
               a = a\<lparr>fresh := b + 1, batches := (batches a)(b := replicate (length wanted) None)\<rparr>
           in Some (settleBatch b (fold (wantBlock b) (zip [0..<length wanted] wanted) a))))"

definition blockReply :: "nat \<Rightarrow> nat \<Rightarrow> jsnum \<Rightarrow> Reply \<Rightarrow> App \<Rightarrow> App" where
  "blockReply b i bh r a =
     (let (row, a) = (case (r_ok r, member (r_data r) ''block'') of
            (True, Str block) \<Rightarrow>
              (let sz = length block div 2
               in (\<lparr>row_h = bh, row_size = Some sz, row_block = Some block\<rparr>,
                   a\<lparr>blocksCache := (blocksCache a)(numberToString bh := Some sz)\<rparr>))
          | _ \<Rightarrow> (\<lparr>row_h = bh, row_size = None, row_block = None\<rparr>, a))
      in settleBatch b (a\<lparr>batches := (batches a)(b := (batches a b)[i := Some row])\<rparr>))"

section \<open>Refresh\<close>

definition refreshNode :: "bool \<Rightarrow> App \<Rightarrow> App" where
  "refreshNode manual a =
     api (js ''/api/node/status'') None 12000 (NodeStatus manual) (if manual then setBusy ''#node-refresh'' True a else a)"

text \<open>The continuation; \<open>None\<close> is a block loop that never ends. A \<^verbatim>\<open>null\<close> answer is a \<^verbatim>\<open>TypeError\<close> that
  nobody catches.\<close>

definition nodeReply :: "Env \<Rightarrow> int \<Rightarrow> bool \<Rightarrow> Reply \<Rightarrow> App \<Rightarrow> App option" where
  "nodeReply env now manual r a =
     (let a = (if manual then setBusy ''#node-refresh'' False a else a); d = r_data r
      in if \<not> r_ok r then Some (setNodeOffline True a)
         else if isNullish d then Some a
         else if truthy (member d ''offline'') \<or> truthy (member d ''error'') then Some (setNodeOffline True a)
         else let a = setNodeOffline False a;
                  a = renderNodeStatus d a;
                  a = pushSample env now (member d ''height'') a;
                  a = setText ''#node-updated'' (js ''Last updated: '' @ fmtTimestamp env now) a
              in refreshBlocks (member d ''height'') a)"

section \<open>The block loop\<close>

lemma wantedFrom_int:
  assumes "0 \<le> h" "h \<le> 2 ^ 53" "h - 8 \<le> i" "i \<le> h" "- 1 \<le> i"
  shows "wantedFrom (Fin (of_int h)) (Fin (of_int i)) = Some (map (Fin \<circ> of_int) (rev [max 0 (h - 7)..i]))"
  using assms(3-5)
proof (induction "nat (i + 1 - max 0 (h - 7))" arbitrary: i)
  case 0
  then have stop: "i < max 0 (h - 7)" by auto
  have "numSub (Fin (of_int h)) (Fin 8) = Fin (of_int (h - 8))" using numSub_int [of h 8] assms(1,2) by auto
  then show ?case using stop 0(2) assms by (subst wantedFrom.simps) auto
next
  case (Suc k)
  then have go: "max 0 (h - 7) \<le> i" by auto
  have sub8: "numSub (Fin (of_int h)) (Fin 8) = Fin (of_int (h - 8))" using numSub_int [of h 8] assms(1,2) by auto
  have sub1: "numSub (Fin (of_int i)) (Fin 1) = Fin (of_int (i - 1))" using numSub_int [of i 1] assms(1,2) Suc.prems by auto
  have "wantedFrom (Fin (of_int h)) (Fin (of_int (i - 1))) = Some (map (Fin \<circ> of_int) (rev [max 0 (h - 7)..i - 1]))"
    using Suc go by (intro Suc.hyps(1)) auto
  moreover have "[max 0 (h - 7)..i] = [max 0 (h - 7)..i - 1] @ [i]" using go upto_rec2 by blast
  ultimately show ?case using go sub1 by (subst wantedFrom.simps) (auto simp: sub8)
qed

text \<open>When the loop ends, it was not stuck, and the heights are finite and not negative: from infinity it would
  never come down.\<close>

lemma wantedFrom_result:
  assumes "wantedFrom h i = Some is"
  shows "\<not> (numSub i (Fin 1) = i \<and> numLess (numSub h (Fin 8)) i \<and> numLess (Fin 0) i) \<and> (\<forall>x \<in> set is. \<exists>q. x = Fin q \<and> 0 \<le> q)"
    (is "?P h i is")
proof (rule wantedFrom.raw_induct [OF _ assms, where P = ?P])
  fix f h i r
  assume ih: "\<And>h i r. f h i = Some r \<Longrightarrow> ?P h i r"
    and run: "(if numLess (numSub h (Fin 8)) i \<and> (i = Fin 0 \<or> numLess (Fin 0) i)
      then Option.bind (f h (numSub i (Fin 1))) (\<lambda>is. Some (i # is)) else Some []) = Some r"
  show "?P h i r"
  proof (cases "numLess (numSub h (Fin 8)) i \<and> (i = Fin 0 \<or> numLess (Fin 0) i)")
    case True
    then obtain r' where r: "f h (numSub i (Fin 1)) = Some r'" "r = i # r'" using run by (auto simp: bind_eq_Some_conv)
    then have "?P h (numSub i (Fin 1)) r'" using ih by blast
    moreover from this have "numSub i (Fin 1) \<noteq> i \<or> i = Fin 0" using True by metis
    moreover have "numSub (Fin 0) (Fin 1) \<noteq> Fin 0" using numSub_int [of 0 1] by simp
    moreover have "numSub (Infinite b) (Fin 1) = Infinite b" for b by (simp add: numSub_def)
    ultimately show ?thesis using True r(2) by (cases i) auto
  next
    case False
    then show ?thesis using run by auto
  qed
qed

lemmas wantedFrom_stuck = wantedFrom_result [THEN conjunct1]
  and wantedFrom_heights = wantedFrom_result [THEN conjunct2]

section \<open>The samples\<close>

lemma upd_keeps [simp]:
  "samples (upd sel f a) = samples a" "blocksCache (upd sel f a) = blocksCache a" "blocksBody (upd sel f a) = blocksBody a"
  "requests (upd sel f a) = requests a" "inflight (upd sel f a) = inflight a" "pendingSend (upd sel f a) = pendingSend a"
  "batches (upd sel f a) = batches a" "fresh (upd sel f a) = fresh a" "toasts (upd sel f a) = toasts a"
  "walletLoaded (upd sel f a) = walletLoaded a" "address (upd sel f a) = address a" "chart (upd sel f a) = chart a"
  "focusTrapHandler (upd sel f a) = focusTrapHandler a" "listeners (upd sel f a) = listeners a"
  "copyTimers (upd sel f a) = copyTimers a" "storage (upd sel f a) = storage a" "connection (upd sel f a) = connection a"
  "lastFocused (upd sel f a) = lastFocused a" "focused (upd sel f a) = focused a" "qrCanvas (upd sel f a) = qrCanvas a"
  by (simp_all add: upd_def)

lemma page_upd [simp]: "page (upd sel f a) = (page a)(sel := f (page a sel))"
  by (simp add: upd_def)

lemma drawChart_samples [simp]: "samples (drawChart env a) = samples a"
  by (simp add: drawChart_def Let_def)

lemma pushSample_samples:
  assumes "length (samples a) \<le> 60" and "toNumber v \<noteq> NaN"
  shows "samples (pushSample env now v a) = drop (length (samples a) + 1 - 60) (samples a @ [(toNumber v, now)])"
proof (cases "length (samples a) = 60")
  case True
  then have "samples a \<noteq> []" by auto
  then show ?thesis using True assms(2) by (simp add: pushSample_def MAX_SAMPLES_def Let_def drop_Suc)
next
  case False
  then show ?thesis using assms by (simp add: pushSample_def MAX_SAMPLES_def Let_def)
qed

section \<open>The chart\<close>

definition between :: "rat \<Rightarrow> rat \<Rightarrow> jsnum \<Rightarrow> bool" where
  "between lo hi v \<longleftrightarrow> (\<exists>x. v = Fin x \<and> lo \<le> x \<and> x \<le> hi)"

lemma toDouble_small:
  assumes "0 \<le> x" and "x \<le> of_int n" and "n \<le> 2 ^ 53" and "of_int m \<le> x" and "0 \<le> m"
  shows "between (of_int m) (of_int n) (toDouble x)"
proof -
  have "0 \<le> n" using assms(1,2) by (metis of_int_0_le_iff order_trans)
  moreover have "m \<le> n" using assms(2,4) by (metis of_int_le_iff order_trans)
  ultimately have d: "isDouble (of_int n)" "isDouble (of_int m)" using assms(3,5) by (auto intro!: isDouble_of_int)
  have b: "doubleOf x \<le> of_int n" "of_int m \<le> doubleOf x" "0 \<le> doubleOf x"
    using doubleOf_le [OF d(1) assms(2,1)] doubleOf_ge [OF d(2) assms(4)] assms(5) doubleOf_nonneg [OF assms(1)] by auto
  moreover have "rat_of_int n \<le> 2 ^ 53" using assms(3) of_int_le_iff [of n "2 ^ 53", where 'a = rat] by simp
  then have "\<bar>doubleOf x\<bar> < 2 ^ 1024" using b by simp
  ultimately show ?thesis by (simp add: toDouble_def Let_def between_def)
qed

lemma between_step:
  assumes "between 0 1 (Fin x)" and "0 < n" and "n \<le> 2 ^ 53"
  shows "\<exists>z. numMul (Fin x) (Fin (of_int n)) = Fin z \<and> 0 \<le> z \<and> z \<le> of_int n"
proof -
  have "0 \<le> x" "x \<le> 1" using assms(1) by (auto simp: between_def)
  then have "0 \<le> x * of_int n" "x * of_int n \<le> of_int n" using assms(2) by (simp_all add: mult_le_cancel_right1)
  from toDouble_small [OF this assms(3), of 0] this(1) show ?thesis by (auto simp: between_def)
qed

lemma ratio_between:
  assumes "0 \<le> p" "p \<le> q" "0 < q"
  shows "between 0 1 (numDiv (Fin (of_int p)) (Fin (of_int q)))"
proof -
  have "0 \<le> rat_of_int p / of_int q" "rat_of_int p / of_int q \<le> of_int 1" using assms by (simp_all add: divide_le_eq)
  from toDouble_small [OF this, of 0] this(1) show ?thesis using assms(3) by simp
qed

lemma chartX_between:
  assumes "i < n" and "2 \<le> n"
  shows "between 8 592 (chartX n i)"
proof -
  have "between 0 1 (numDiv (Fin (of_int (int i))) (Fin (of_int (int (n - 1)))))" using assms by (intro ratio_between) auto
  then obtain x where x: "numDiv (Fin (of_nat i)) (Fin (of_nat (n - 1))) = Fin x" "between 0 1 (Fin x)" by (auto simp: between_def)
  from between_step [OF x(2), of 584] obtain z where "numMul (Fin x) (Fin 584) = Fin z" "0 \<le> z" "z \<le> 584" by auto
  then show ?thesis using x(1) toDouble_small [of "8 + z" 592 8] by (simp add: chartX_def)
qed

lemma chartY_between:
  assumes "0 \<le> p" "p \<le> v" "v \<le> q" "p < q" "q \<le> 2 ^ 53"
  shows "between 8 112 (chartY (Fin (of_int p)) (Fin (of_int q)) (Fin (of_int v)))"
proof -
  have sub: "numSub (Fin (of_int v)) (Fin (of_int p)) = Fin (of_int (v - p))" "numSub (Fin (of_int q)) (Fin (of_int p)) = Fin (of_int (q - p))"
    by (rule numSub_int; use assms in simp)+
  have "between 0 1 (numDiv (Fin (of_int (v - p))) (Fin (of_int (q - p))))" using assms by (intro ratio_between) auto
  then obtain x where x: "numDiv (Fin (of_int (v - p))) (Fin (of_int (q - p))) = Fin x" "between 0 1 (Fin x)" by (auto simp: between_def)
  from between_step [OF x(2), of 104] obtain z where z: "numMul (Fin x) (Fin 104) = Fin z" "0 \<le> z" "z \<le> 104" by auto
  have "between 8 112 (toDouble (112 - z))" using toDouble_small [of "112 - z" 112 8] z by simp
  then show ?thesis unfolding chartY_def sub x(1) z(1) by (simp add: numSub_def)
qed

lemma foldl_numMin:
  "\<exists>m \<in> insert x (set zs). foldl numMin (Fin (of_int x)) (map (Fin \<circ> of_int) zs) = Fin (of_int m) \<and> (\<forall>z \<in> insert x (set zs). m \<le> z)"
proof (induction zs arbitrary: x)
  case (Cons y zs)
  have "numMin (Fin (of_int x)) (Fin (of_int y)) = Fin (of_int (min x y))" by (auto simp: numMin_def)
  with Cons [of "min x y"] show ?case by (fastforce simp: min_def split: if_splits)
qed simp

lemma foldl_numMax:
  "\<exists>m \<in> insert x (set zs). foldl numMax (Fin (of_int x)) (map (Fin \<circ> of_int) zs) = Fin (of_int m) \<and> (\<forall>z \<in> insert x (set zs). z \<le> m)"
proof (induction zs arbitrary: x)
  case (Cons y zs)
  have "numMax (Fin (of_int x)) (Fin (of_int y)) = Fin (of_int (max x y))" by (auto simp: numMax_def)
  with Cons [of "max x y"] show ?case by (fastforce simp: max_def split: if_splits)
qed simp

lemma extremes:
  assumes "zs \<noteq> []"
  obtains p q where "foldMin (map (Fin \<circ> of_int) zs) = Fin (of_int p)" "foldMax (map (Fin \<circ> of_int) zs) = Fin (of_int q)"
    "p \<in> set zs" "q \<in> set zs" "\<forall>z \<in> set zs. p \<le> z \<and> z \<le> q"
proof -
  obtain x xs where zs: "zs = x # xs" using assms by (cases zs) auto
  have "numMin (Infinite False) (Fin (of_int x)) = Fin (of_int x)" "numMax (Infinite True) (Fin (of_int x)) = Fin (of_int x)"
    by (simp_all add: numMin_def numMax_def)
  then show thesis
    using foldl_numMin [of x xs] foldl_numMax [of x xs] that by (auto simp: zs foldMin_def foldMax_def)
qed

fun opInside :: "chart_op \<Rightarrow> bool" where
  "opInside (MoveTo x y) \<longleftrightarrow> between 8 592 x \<and> between 8 112 y"
| "opInside (LineTo x y) \<longleftrightarrow> between 8 592 x \<and> between 8 112 y"
| "opInside _ \<longleftrightarrow> True"

lemma drawChart_ops:
  assumes "map fst (samples a) = map (Fin \<circ> of_int) zs" and "2 \<le> length zs" and range: "\<forall>z \<in> set zs. 0 \<le> z \<and> z < 2 ^ 53"
  shows "list_all opInside (chart (drawChart env a))"
proof -
  have n: "length (samples a) = length zs" using assms(1) by (metis length_map)
  obtain p q where pq: "foldMin (map (Fin \<circ> of_int) zs) = Fin (of_int p)" "foldMax (map (Fin \<circ> of_int) zs) = Fin (of_int q)"
    "p \<in> set zs" "q \<in> set zs" "\<forall>z \<in> set zs. p \<le> z \<and> z \<le> q"
    using extremes [of zs] assms(2) by (metis list.size(3) not_numeral_le_zero)
  define q' where "q' = (if q = p then p + 1 else q)"
  have top: "(if Fin (of_int q) = Fin (of_int p) \<and> Fin (of_int p) \<noteq> NaN then numAdd (Fin (of_int p)) (Fin 1) else Fin (of_int q))
      = Fin (of_int q')"
    using range pq(3) toDouble_of_int [of "p + 1"] by (auto simp: q'_def)
  have b: "0 \<le> p" "p < q'" "q' \<le> 2 ^ 53" "\<forall>z \<in> set zs. p \<le> z \<and> z \<le> q'"
    using range pq by (auto simp: q'_def order_le_less)
  have line: "list_all opInside (chartLine (map (Fin \<circ> of_int) zs) (Fin (of_int p)) (Fin (of_int q')))"
    using assms(2) b by (auto simp: chartLine_def list_all_iff intro!: chartX_between chartY_between)
  have ends: "between 8 592 (chartX (length zs) (length zs - 1))" "between 8 592 (chartX (length zs) 0)"
    by (rule chartX_between; use assms(2) in linarith)+
  have corner: "between 8 112 (Fin 112)" by (simp add: between_def)
  show ?thesis
    unfolding drawChart_def Let_def assms(1) pq(1,2) top
    using assms(2) n line corner ends by simp
qed

section \<open>The block cache\<close>

definition cachedRow :: "App \<Rightarrow> jsnum \<Rightarrow> Row" where
  "cachedRow a bh = \<lparr>row_h = bh, row_size = blocksCache a (numberToString bh), row_block = None\<rparr>"

lemma cachedRow_frame [simp]: "cachedRow (a\<lparr>fresh := n, batches := bs\<rparr>) = cachedRow a"
  by (rule ext) (simp add: cachedRow_def)

lemma wantBlock_cached:
  assumes "\<forall>bh \<in> set ws. blocksCache a (numberToString bh) \<noteq> None" and "length ws \<le> length (batches a b)"
  shows "fold (wantBlock b) (zip [0..<length ws] ws) a
    = a\<lparr>batches := (batches a)(b := map (Some \<circ> cachedRow a) ws @ drop (length ws) (batches a b))\<rparr>"
  using assms
proof (induction ws rule: rev_induct)
  case (snoc w ws)
  let ?rows = "map (Some \<circ> cachedRow a) ws @ drop (length ws) (batches a b)"
  have ih: "fold (wantBlock b) (zip [0..<length ws] ws) a = a\<lparr>batches := (batches a)(b := ?rows)\<rparr>"
    by (rule snoc.IH) (use snoc.prems in auto)
  obtain sz where sz: "blocksCache a (numberToString w) = Some sz" using snoc.prems(1) by auto
  have "?rows[length ws := Some (cachedRow a w)] = map (Some \<circ> cachedRow a) (ws @ [w]) @ drop (Suc (length ws)) (batches a b)"
    using snoc.prems(2) by (simp add: list_update_append Cons_nth_drop_Suc [symmetric])
  moreover have "fold (wantBlock b) (zip [0..<length (ws @ [w])] (ws @ [w])) a = wantBlock b (length ws, w) (a\<lparr>batches := (batches a)(b := ?rows)\<rparr>)"
  proof -
    have "zip [0..<length (ws @ [w])] (ws @ [w]) = zip [0..<length ws] ws @ [(length ws, w)]" by simp
    then show ?thesis by (simp only: fold_append fold_simps comp_def ih)
  qed
  moreover have "wantBlock b (length ws, w) (a\<lparr>batches := (batches a)(b := ?rows)\<rparr>)
      = a\<lparr>batches := (batches a)(b := ?rows[length ws := Some (cachedRow a w)])\<rparr>"
    by (simp add: wantBlock_def sz) (simp add: cachedRow_def sz)
  ultimately show ?case by (simp only: length_append_singleton)
qed simp

lemma refreshBlocks_cached:
  assumes w: "wantedFrom h h = Some ws" "ws \<noteq> []" and h: "toNumber v = h" "h \<noteq> NaN"
    and cached: "\<forall>bh \<in> set ws. blocksCache a (numberToString bh) \<noteq> None"
  shows "\<exists>a'. refreshBlocks v a = Some a' \<and> requests a' = requests a
    \<and> blocksBody a' = BlockRows (map (renderRow \<circ> cachedRow a) ws)"
proof -
  let ?a = "a\<lparr>fresh := fresh a + 1, batches := (batches a)(fresh a := replicate (length ws) None)\<rparr>"
  have "fold (wantBlock (fresh a)) (zip [0..<length ws] ws) ?a
      = ?a\<lparr>batches := (batches ?a)(fresh a := map (Some \<circ> cachedRow a) ws)\<rparr>"
    using wantBlock_cached [of ws ?a "fresh a"] cached by simp
  then show ?thesis
    using w h by (simp add: refreshBlocks_def Let_def settleBatch_def renderBlocks_def list_all_iff comp_def)
qed

section \<open>Properties\<close>

text \<open>The heights chart: the arithmetic rounds after every operation, and still no point of the
  line and of the filled area leaves the padded drawing area, for any samples with integer heights
  below \<open>2\<^sup>5\<^sup>3\<close>, equal heights included.\<close>

theorem chart_stays_inside:
  assumes "map fst (samples a) = map (Fin \<circ> of_int) zs" and "2 \<le> length zs" and "\<forall>z \<in> set zs. 0 \<le> z \<and> z < 2 ^ 53"
  shows "list_all opInside (chart (drawChart env a))"
  by (rule drawChart_ops [OF assms])

text \<open>\<^bold>\<open>C33.\<close> The loop over the recent heights ends for every integer height up to \<open>2\<^sup>5\<^sup>3\<close> and asks for at
  most eight blocks, the newest first and none below 0. It does not end for a height like \<open>2\<^sup>5\<^sup>4\<close>, where
  subtracting one gives the same double.\<close>

theorem block_loop:
  "(0 \<le> h \<longrightarrow> h \<le> 2 ^ 53 \<longrightarrow>
      wantedFrom (Fin (of_int h)) (Fin (of_int h)) = Some (map (Fin \<circ> of_int) (rev [max 0 (h - 7)..h]))
      \<and> length (rev [max 0 (h - 7)..h]) \<le> 8)
   \<and> wantedFrom (Fin (2 ^ 54)) (Fin (2 ^ 54)) = None"
proof (intro conjI impI)
  assume h: "0 \<le> h" "h \<le> 2 ^ 53"
  show "wantedFrom (Fin (of_int h)) (Fin (of_int h)) = Some (map (Fin \<circ> of_int) (rev [max 0 (h - 7)..h]))"
    using wantedFrom_int [OF h, of h] h by simp
  show "length (rev [max 0 (h - 7)..h]) \<le> 8" by simp
next
  have l: "floorLog2 (2 ^ 54 - 1) = 53" by (rule floorLog2_unique; simp)
  then have u: "ulp (2 ^ 54 - 1) = 2" by (simp add: ulp_def)
  have f: "\<lfloor>(2 ^ 54 - 1) / 2 :: rat\<rfloor> = 2 ^ 53 - 1" by (rule floor_unique; simp)
  have "doubleOf (2 ^ 54 - 1) = 2 ^ 54" unfolding doubleOf_def u roundEven_def f Let_def by simp
  then have sub1: "numSub (Fin (2 ^ 54)) (Fin 1) = Fin (2 ^ 54)" by (simp add: numSub_def toDouble_def)
  have "isDouble (2 ^ 54 - 8)"
    unfolding isDouble_def by (rule exI [of _ "2 ^ 51 - 1"], rule exI [of _ 3]) simp
  then have "doubleOf (2 ^ 54 - 8) = 2 ^ 54 - 8" by (rule doubleOf_exact)
  then have "numSub (Fin (2 ^ 54)) (Fin 8) = Fin (2 ^ 54 - 8)" by (simp add: numSub_def toDouble_def)
  then have "numLess (numSub (Fin (2 ^ 54)) (Fin 8)) (Fin (2 ^ 54))" by simp
  with sub1 wantedFrom_stuck [of "Fin (2 ^ 54)" "Fin (2 ^ 54)"] show "wantedFrom (Fin (2 ^ 54)) (Fin (2 ^ 54)) = None"
    by (cases "wantedFrom (Fin (2 ^ 54)) (Fin (2 ^ 54))") auto
qed

theorem block_loop_witness:
  "wantedFrom (Fin 3) (Fin 3) = Some [Fin 3, Fin 2, Fin 1, Fin 0]"
proof -
  have "rev [max 0 (3 - 7)..3 :: int] = [3, 2, 1, 0]" by code_simp
  then show ?thesis using block_loop [of 3] by simp
qed

text \<open>The samples are a window of the last sixty heights: pushing a numeric height appends it and
  drops the oldest sample beyond sixty; a value that is no number changes nothing.\<close>

theorem samples_window:
  assumes "length (samples a) \<le> 60"
  shows "length (samples (pushSample env now v a)) \<le> 60
    \<and> (toNumber v \<noteq> NaN \<longrightarrow>
        samples (pushSample env now v a) = drop (length (samples a) + 1 - 60) (samples a @ [(toNumber v, now)]))
    \<and> (toNumber v = NaN \<longrightarrow> pushSample env now v a = a)"
  using assms pushSample_samples [OF assms, of v] by (cases "toNumber v = NaN") (auto simp: pushSample_def)

text \<open>\<^bold>\<open>C34.\<close> What the block cache loses: it keeps the size of a block and not its data, so once the recent
  blocks are cached the next refresh sends no request and shows every one of them as unavailable.\<close>

theorem cached_blocks_unavailable:
  assumes "0 \<le> h" and "h \<le> 2 ^ 53"
    and "\<forall>i \<in> set (rev [max 0 (h - 7)..h]). blocksCache a (numberToString (Fin (of_int i))) \<noteq> None"
  shows "\<exists>a' rows. refreshBlocks (Number (Fin (of_int h))) a = Some a' \<and> requests a' = requests a
    \<and> blocksBody a' = BlockRows rows \<and> rows \<noteq> [] \<and> (\<forall>(height, sz, data, title) \<in> set rows. data = js ''unavailable'' \<and> title = None)"
proof -
  have "wantedFrom (Fin (of_int h)) (Fin (of_int h)) = Some (map (Fin \<circ> of_int) (rev [max 0 (h - 7)..h]))"
    using wantedFrom_int [OF assms(1,2), of h] assms(1) by simp
  moreover have "map (Fin \<circ> of_int) (rev [max 0 (h - 7)..h]) \<noteq> []" using assms(1) by simp
  ultimately obtain a' where "refreshBlocks (Number (Fin (of_int h))) a = Some a'" "requests a' = requests a"
    "blocksBody a' = BlockRows (map (renderRow \<circ> cachedRow a) (map (Fin \<circ> of_int) (rev [max 0 (h - 7)..h])))"
    using refreshBlocks_cached [of "Fin (of_int h)" _ "Number (Fin (of_int h))" a] assms(3) by (auto simp: toNumber_def)
  then show ?thesis
    using assms(1) by (intro exI [of _ a'] exI) (auto simp: renderRow_def cachedRow_def Let_def)
qed

theorem cached_blocks_unavailable_witness:
  "\<exists>a' rows. refreshBlocks (Number (Fin 2)) ((startApp (\<lambda>_. None))\<lparr>blocksCache := (\<lambda>_. Some 300)\<rparr>) = Some a'
    \<and> blocksBody a' = BlockRows rows \<and> rows \<noteq> [] \<and> (\<forall>(height, sz, data, title) \<in> set rows. data = js ''unavailable'')"
  using cached_blocks_unavailable [of 2 "(startApp (\<lambda>_. None))\<lparr>blocksCache := (\<lambda>_. Some 300)\<rparr>"] by fastforce

end
