(* ===== verification/Dash_Wallet.thy ===== *)
theory Dash_Wallet
  imports Dash_Node
begin

text \<open>
  The wallet panel of the dashboard: address with QR code, balance, copy button, the validation of a
  transfer, the confirmation dialog with its focus trap, and the transfer itself. Each function that
  continues after an answer is a separate definition whose name ends in \<open>Reply\<close>.
\<close>

section \<open>Address and balance\<close>

text \<open>\<^verbatim>\<open>truncMiddle\<close> on a JSON value, as text; \<open>None\<close> is the \<^verbatim>\<open>TypeError\<close> of a value without \<^verbatim>\<open>slice\<close>.\<close>

definition truncText :: "jsval \<Rightarrow> nat \<Rightarrow> nat \<Rightarrow> jstr option" where
  "truncText v h t =
     (case v of
        Str s \<Rightarrow> Some (truncMiddle s h t)
      | Arr vs \<Rightarrow> Some (if length vs \<le> h + t + 1 then toStr v
                        else toStr (Arr (take h vs)) @ [0x2026] @ toStr (Arr (drop (length vs - t) vs)))
      | Obj kvs \<Rightarrow> (let l = toNumber (member v ''length'')
                    in if l = Fin (of_nat (h + t + 1)) \<or> numLess l (Fin (of_nat (h + t + 1))) then Some (toStr v) else None)
      | _ \<Rightarrow> if truthy v then None else Some [])"

definition refreshWalletAddress :: "App \<Rightarrow> App" where
  "refreshWalletAddress = api (js ''/api/wallet/address'') None 15000 WalletAddress"

definition walletAddressReply :: "Env \<Rightarrow> Reply \<Rightarrow> App \<Rightarrow> App" where
  "walletAddressReply env r a =
     (let d = r_data r
      in if isNullish d then a
         else if \<not> r_ok r \<or> truthy (member d ''error'')
         then let a = (if truthy (member d ''wallet_missing'') then setHidden ''#wallet-missing-banner'' False a else a)
              in setDisabled ''#copy-address'' True (setText ''#wallet-address'' (js ''unavailable'') a)
         else let addr = member d ''address'';
                  a = (setHidden ''#wallet-missing-banner'' True a)\<lparr>address := addr\<rparr>
              in case truncText addr 12 12 of
                   None \<Rightarrow> a
                 | Some t \<Rightarrow>
                     (let a = setText ''#wallet-address'' t a;
                          a = setTitle ''#wallet-address'' (toStr addr) a;
                          a = setAttribute ''#wallet-address'' ''aria-label'' (js ''Receiving address '' @ toStr addr) a;
                          a = setDisabled ''#copy-address'' False a
                      in renderQR env addr a))"

definition refreshWalletBalance :: "bool \<Rightarrow> App \<Rightarrow> App" where
  "refreshWalletBalance manual a =
     api (js ''/api/wallet/balance'') None 30000 (WalletBalance manual) (if manual then setBusy ''#wallet-refresh'' True a else a)"

definition walletBalanceReply :: "Env \<Rightarrow> int \<Rightarrow> bool \<Rightarrow> Reply \<Rightarrow> App \<Rightarrow> App" where
  "walletBalanceReply env now manual r a =
     (let a = (if manual then setBusy ''#wallet-refresh'' False a else a);
          a = removeAttribute ''#wallet-balance'' ''aria-busy'' a;
          d = r_data r
      in if isNullish d then a
         else if \<not> r_ok r \<or> truthy (member d ''error'')
         then let a = (if truthy (member d ''wallet_missing'') then setHidden ''#wallet-missing-banner'' False a else a);
                  a = setText ''#wallet-balance'' emDash a
              in setText ''#wallet-outputs''
                   (if truthy (member d ''node_offline'') then js ''node offline '' @ emDash @ js '' balance unavailable''
                    else js ''balance unavailable'') a
         else let a = setHidden ''#wallet-missing-banner'' True a;
                  a = setText ''#wallet-balance'' (formatOBX (member d ''balance'')) a;
                  n = member d ''spendable_outputs'';
                  a = setText ''#wallet-outputs'' ((if isNullish n then emDash else formatInt n) @ js '' spendable output''
                        @ (if n = Number (Fin 1) then [] else js ''s'')) a
              in setText ''#wallet-updated'' (js ''Last updated: '' @ fmtTimestamp env now) a)"

definition refreshWallet :: "bool \<Rightarrow> App \<Rightarrow> App" where
  "refreshWallet manual = refreshWalletBalance manual \<circ> refreshWalletAddress"

section \<open>Copying the address\<close>

definition copyDone :: "App \<Rightarrow> App" where
  "copyDone a =
     (let old = el_text (page a ''#copy-address .btn-label'');
          a = setText ''#copy-address .btn-label'' (js ''Copied!'') a;
          a = addClass ''#copy-address'' (js ''copied'') a;
          a = toast (js ''Address copied to clipboard'') ''success'' (Some 2500) a
      in a\<lparr>copyTimers := copyTimers a @ [old]\<rparr>)"

text \<open>The timer of the oldest copy still waiting: all of them wait 1800 ms.\<close>

definition copyTimer :: "App \<Rightarrow> App" where
  "copyTimer a =
     (case copyTimers a of
        [] \<Rightarrow> a
      | old # rest \<Rightarrow> removeClass ''#copy-address'' (js ''copied'')
          (setText ''#copy-address .btn-label'' old (a\<lparr>copyTimers := rest\<rparr>)))"

definition fallbackCopy :: "Env \<Rightarrow> App \<Rightarrow> App" where
  "fallbackCopy env a =
     (if e_execCopy env then copyDone a
      else toast (js ''Could not copy '' @ emDash @ js '' please copy manually'') ''error'' None a)"

definition copyAddress :: "Env \<Rightarrow> App \<Rightarrow> App" where
  "copyAddress env a =
     (if \<not> truthy (address a) then a
      else if e_clipboard env then a\<lparr>inflight := inflight a @ [(fresh a, ClipboardWrite)], fresh := fresh a + 1\<rparr>
      else fallbackCopy env a)"

definition clipboardReply :: "Env \<Rightarrow> bool \<Rightarrow> App \<Rightarrow> App" where
  "clipboardReply env ok a = (if ok then copyDone a else fallbackCopy env a)"

section \<open>Validation\<close>

definition showFieldErr :: "string \<Rightarrow> string \<Rightarrow> jstr option \<Rightarrow> App \<Rightarrow> App" where
  "showFieldErr inputId errId msg a =
     (case msg of
        Some m \<Rightarrow> setHidden errId False (setText errId m (setAttribute inputId ''aria-invalid'' (js ''true'') a))
      | None \<Rightarrow> setHidden errId True (setText errId [] (removeAttribute inputId ''aria-invalid'' a)))"

text \<open>\<^verbatim>\<open>/^[0-9a-fA-F]+$/\<close> and \<^verbatim>\<open>/^[0-9]{1,12}(\.[0-9]{1,12})?$/\<close>\<close>

definition HEX_RE :: "jstr \<Rightarrow> bool" where
  "HEX_RE s \<longleftrightarrow> s \<noteq> [] \<and> list_all isHexDigit s"

definition AMT_RE :: "jstr \<Rightarrow> bool" where
  "AMT_RE s \<longleftrightarrow>
     (let w = takeWhile isDigit s; r = dropWhile isDigit s
      in 1 \<le> length w \<and> length w \<le> 12
         \<and> (r = [] \<or> hd r = 46 \<and> 1 \<le> length (tl r) \<and> length (tl r) \<le> 12 \<and> list_all isDigit (tl r)))"

definition toError :: "jstr \<Rightarrow> jstr option" where
  "toError to =
     (if to = [] then Some (js ''Enter a recipient address.'')
      else if \<not> HEX_RE to then Some (js ''Address must be hexadecimal (0-9, a-f).'')
      else if length to mod 2 \<noteq> 0 then Some (js ''Address has an odd number of hex digits.'')
      else None)"

definition notPositive :: "jsnum \<Rightarrow> bool" where
  "notPositive n \<longleftrightarrow> n = Fin 0 \<or> numLess n (Fin 0)"

definition amountError :: "jstr \<Rightarrow> jstr option" where
  "amountError amount =
     (if amount = [] then Some (js ''Enter an amount.'')
      else if \<not> AMT_RE amount then Some (js ''Amount must be a number with up to 12 decimals.'')
      else if notPositive (toNumber (Str amount)) then Some (js ''Amount must be greater than zero.'')
      else None)"

definition feeError :: "jstr \<Rightarrow> jstr option" where
  "feeError fee = (if fee \<noteq> [] \<and> \<not> AMT_RE fee then Some (js ''Fee must be a number with up to 12 decimals.'') else None)"

definition validateSend :: "bool \<Rightarrow> App \<Rightarrow> Payload option \<times> App" where
  "validateSend showErrors a =
     (let to = trim (el_value (page a ''#send-to''));
          amount = trim (el_value (page a ''#send-amount''));
          fee = or_text (trim (el_value (page a ''#send-fee''))) (js ''0.0001'');
          a = (if showErrors then showFieldErr ''#send-to'' ''#send-to-err'' (toError to) a else a);
          a = (if showErrors then showFieldErr ''#send-amount'' ''#send-amount-err'' (amountError amount) a else a);
          a = (if showErrors then showFieldErr ''#send-fee'' ''#send-fee-err'' (feeError fee) a else a);
          ok = (toError to = None \<and> amountError amount = None \<and> feeError fee = None)
      in (if ok then Some \<lparr>pay_to = to, pay_amount = amount, pay_fee = fee\<rparr> else None, a))"

section \<open>The dialog\<close>

definition numToFixed :: "nat \<Rightarrow> jsnum \<Rightarrow> jstr" where
  "numToFixed d n = (case n of Fin x \<Rightarrow> if \<bar>x\<bar> < 10 ^ 21 then toFixed d x else numberToString n | _ \<Rightarrow> numberToString n)"

definition trapFocus :: "App \<Rightarrow> App" where
  "trapFocus a = a\<lparr>focusTrapHandler := Some (fresh a), listeners := listeners a @ [fresh a], fresh := fresh a + 1\<rparr>"

definition releaseFocusTrap :: "App \<Rightarrow> App" where
  "releaseFocusTrap a =
     a\<lparr>listeners := (case focusTrapHandler a of Some h \<Rightarrow> filter ((\<noteq>) h) (listeners a) | None \<Rightarrow> listeners a),
       focusTrapHandler := None\<rparr>"

definition confirmTotal :: "Payload \<Rightarrow> jstr" where
  "confirmTotal payload = numToFixed DECIMALS (numAdd (toNumber (Str (pay_amount payload))) (toNumber (Str (pay_fee payload))))"

definition openConfirm :: "Payload \<Rightarrow> App \<Rightarrow> App" where
  "openConfirm payload a =
     (let a = setText ''#confirm-to'' (truncMiddle (pay_to payload) 14 14) a;
          a = setTitle ''#confirm-to'' (pay_to payload) a;
          a = setText ''#confirm-amount'' (formatOBX (Str (pay_amount payload))) a;
          a = setText ''#confirm-fee'' (formatOBX (Str (pay_fee payload))) a;
          a = setText ''#confirm-total'' (formatOBX (Str (confirmTotal payload))) a;
          a = a\<lparr>lastFocused := Some (focused a)\<rparr>;
          a = setHidden ''#confirm-modal'' False a;
          a = addClass ''body'' (js ''modal-open'') a;
          a = a\<lparr>focused := ''#confirm-cancel''\<rparr>;
          a = trapFocus a
      in a\<lparr>pendingSend := Some payload\<rparr>)"

definition closeConfirm :: "App \<Rightarrow> App" where
  "closeConfirm a =
     (let a = setHidden ''#confirm-modal'' True a;
          a = removeClass ''body'' (js ''modal-open'') a;
          a = releaseFocusTrap a;
          a = (case lastFocused a of Some e \<Rightarrow> a\<lparr>focused := e\<rparr> | None \<Rightarrow> a)
      in a\<lparr>pendingSend := None\<rparr>)"

text \<open>The key handler of the trap. Without it, or when it does not intervene, the browser moves the focus
  to \<open>dest\<close>.\<close>

definition focusables :: "App \<Rightarrow> string list" where
  "focusables a =
     (if el_hidden (page a ''#confirm-modal'') then []
      else filter (\<lambda>sel. \<not> el_disabled (page a sel)) [''#confirm-cancel'', ''#confirm-send''])"

definition pressTab :: "bool \<Rightarrow> string \<Rightarrow> App \<Rightarrow> App" where
  "pressTab shift dest a =
     (let fs = focusables a
      in if listeners a = [] \<or> fs = [] then a\<lparr>focused := dest\<rparr>
         else if shift \<and> focused a = hd fs then a\<lparr>focused := last fs\<rparr>
         else if \<not> shift \<and> focused a = last fs then a\<lparr>focused := hd fs\<rparr>
         else a\<lparr>focused := dest\<rparr>)"

definition pressEscape :: "App \<Rightarrow> App" where
  "pressEscape a = (if listeners a = [] then a else closeConfirm a)"

section \<open>The transfer\<close>

definition doSend :: "App \<Rightarrow> App" where
  "doSend a =
     (case pendingSend a of
        None \<Rightarrow> a
      | Some payload \<Rightarrow> api (js ''/api/wallet/send'') (Some payload) 60000 (SendCall payload) (setBusy ''#confirm-send'' True a))"

definition sendReply :: "Payload \<Rightarrow> Reply \<Rightarrow> App \<Rightarrow> App" where
  "sendReply payload r a =
     (let a = setBusy ''#confirm-send'' False a; d = r_data r
      in if isNullish d then a
         else if \<not> r_ok r \<or> truthy (member d ''error'')
         then toast (if truthy (member d ''insufficient'') then js ''Insufficient funds for this amount + fee.''
                     else if truthy (member d ''node_offline'') then js ''Node is offline '' @ emDash @ js '' cannot broadcast.''
                     else if truthy (member d ''wallet_missing'') then js ''No wallet found.''
                     else if truthy (member d ''error'') then toStr (member d ''error'') else js ''Send failed'') ''error'' None a
         else let a = closeConfirm a;
                  txid = member d ''txid'';
                  amount = (if truthy (member d ''amount'') then member d ''amount'' else Str (pay_amount payload))
              in case (if truthy txid then map_option (\<lambda>t. [32, 0xB7] @ js '' txid '' @ t) (truncText txid 8 6) else Some []) of
                   None \<Rightarrow> a
                 | Some tx \<Rightarrow>
                     (let a = toast (js ''Sent '' @ formatOBX amount @ js '' OBX'' @ tx) ''success'' (Some 7000) a;
                          a = setValue ''#send-to'' [] (setValue ''#send-amount'' [] (setValue ''#send-fee'' (js ''0.0001'') a));
                          a = setValue ''#send-fee'' (js ''0.0001'') a
                      in refreshWalletBalance False a))"

section \<open>Tabs\<close>

definition activateTab :: "Env \<Rightarrow> jstr \<Rightarrow> App \<Rightarrow> App" where
  "activateTab env which a =
     (let isNode = (which = js ''node'');
          a = setAttribute ''#tab-node-btn'' ''aria-selected'' (boolText isNode) a;
          a = setTabIndex ''#tab-node-btn'' (if isNode then 0 else -1) a;
          a = setAttribute ''#tab-wallet-btn'' ''aria-selected'' (boolText (\<not> isNode)) a;
          a = setTabIndex ''#tab-wallet-btn'' (if isNode then -1 else 0) a;
          a = setHidden ''#panel-node'' (\<not> isNode) a;
          a = setHidden ''#panel-wallet'' isNode a;
          a = storeItem env ''obx-tab'' which a
      in if \<not> isNode \<and> \<not> walletLoaded a then refreshWallet False (a\<lparr>walletLoaded := True\<rparr>) else a)"

definition tabName :: "nat \<Rightarrow> jstr" where
  "tabName i = (if i = 0 then js ''node'' else js ''wallet'')"

definition tabKey :: "Env \<Rightarrow> nat \<Rightarrow> string \<Rightarrow> App \<Rightarrow> App" where
  "tabKey env i key a =
     (let idx = (if key = ''ArrowRight'' \<or> key = ''ArrowDown'' then Some ((i + 1) mod 2)
                 else if key = ''ArrowLeft'' \<or> key = ''ArrowUp'' then Some ((i + 2 - 1) mod 2)
                 else if key = ''Home'' then Some 0 else if key = ''End'' then Some 1 else None)
      in case idx of
           None \<Rightarrow> a
         | Some j \<Rightarrow> activateTab env (tabName j) (a\<lparr>focused := (if j = 0 then ''#tab-node-btn'' else ''#tab-wallet-btn'')\<rparr>))"

definition initTabs :: "Env \<Rightarrow> App \<Rightarrow> App" where
  "initTabs env a = activateTab env (if storedItem env ''obx-tab'' a = Some (js ''wallet'') then js ''wallet'' else js ''node'') a"

section \<open>Start and form\<close>

definition submitForm :: "App \<Rightarrow> App" where
  "submitForm a =
     (let (payload, a) = validateSend True a
      in case payload of
           None \<Rightarrow>
             (let a = toast (js ''Please fix the highlighted fields.'') ''error'' (Some 4000) a
              in case find (\<lambda>sel. el_attr (page a sel) ''aria-invalid'' = Some (js ''true'')) [''#send-to'', ''#send-amount'', ''#send-fee''] of
                   Some sel \<Rightarrow> a\<lparr>focused := sel\<rparr> | None \<Rightarrow> a)
         | Some p \<Rightarrow> openConfirm p a)"

definition pollNode :: "App \<Rightarrow> App" where
  "pollNode a = (if pendingSend a = None then refreshNode False a else a)"

definition init :: "Env \<Rightarrow> App \<Rightarrow> App" where
  "init env a =
     (let a = initTabs env (initTheme env a);
          a = setText ''#footer-host'' (or_text (e_host env) (js ''this machine'')) a
      in refreshNode False a)"

section \<open>Amounts as the form accepts them\<close>

text \<open>The value of an amount text, exactly.\<close>

definition amountValue :: "jstr \<Rightarrow> rat" where
  "amountValue s = (let w = takeWhile isDigit s; f = tl (dropWhile isDigit s) in of_nat (digitsValue (w @ f)) / 10 ^ length f)"

lemma AMT_REE:
  assumes "AMT_RE s"
  obtains w where "s = w" "list_all isDigit w" "1 \<le> length w" "length w \<le> 12" "amountValue s = of_nat (digitsValue w)"
  | w f where "s = w @ [46] @ f" "list_all isDigit w" "1 \<le> length w" "length w \<le> 12" "list_all isDigit f" "1 \<le> length f" "length f \<le> 12"
    "amountValue s = of_nat (digitsValue (w @ f)) / 10 ^ length f"
proof -
  let ?w = "takeWhile isDigit s" and ?r = "dropWhile isDigit s"
  have w: "list_all isDigit ?w" "1 \<le> length ?w" "length ?w \<le> 12" using assms
    by (auto simp: AMT_RE_def Let_def list_all_iff dest: set_takeWhileD)
  have s: "s = ?w @ ?r" by simp
  show thesis
  proof (cases "?r = []")
    case True
    have "s = ?w" using s unfolding True by simp
    moreover have "amountValue s = of_nat (digitsValue ?w)" unfolding amountValue_def Let_def True by simp
    ultimately show thesis using that(1) [of ?w] w by simp
  next
    case False
    then have "hd ?r = 46" and r: "1 \<le> length (tl ?r)" "length (tl ?r) \<le> 12" "list_all isDigit (tl ?r)"
      using assms unfolding AMT_RE_def Let_def by blast+
    then have "?r = 46 # tl ?r" using list.collapse [OF False] by metis
    then have "s = ?w @ [46] @ tl ?r" using s by (metis append_Cons append_Nil)
    then show thesis using that(2) [of ?w "tl ?r"] w r by (simp add: amountValue_def Let_def)
  qed
qed

text \<open>The same texts described by the characters they may have: hexadecimal texts, and decimal numbers
  of one to twelve digits with at most twelve decimals after a point.\<close>

definition hexText :: "jstr \<Rightarrow> bool" where
  "hexText s \<longleftrightarrow> s \<noteq> [] \<and> set s \<subseteq> set (js ''0123456789abcdefABCDEF'')"

definition digitText :: "jstr \<Rightarrow> bool" where
  "digitText s \<longleftrightarrow> 1 \<le> length s \<and> length s \<le> 12 \<and> set s \<subseteq> set (js ''0123456789'')"

inductive amountText :: "jstr \<Rightarrow> bool" where
  whole: "digitText w \<Longrightarrow> amountText w"
| pointed: "digitText w \<Longrightarrow> digitText f \<Longrightarrow> amountText (w @ js ''.'' @ f)"

lemma js_ranges:
  "set (js ''0123456789'') = {48..<58}" "set (js ''0123456789abcdefABCDEF'') = {48..<58} \<union> {97..<103} \<union> {65..<71}"
  "set (js ''123456789'') = {49..<58}"
proof -
  have l: "js ''0123456789'' = [48..<58]" "js ''0123456789abcdefABCDEF'' = [48..<58] @ [97..<103] @ [65..<71]" "js ''123456789'' = [49..<58]"
    by code_simp+
  show "set (js ''0123456789'') = {48..<58}" "set (js ''0123456789abcdefABCDEF'') = {48..<58} \<union> {97..<103} \<union> {65..<71}"
    "set (js ''123456789'') = {49..<58}"
    unfolding l by (simp_all only: set_append set_upt Un_assoc)
qed

lemma isDigit_js: "isDigit c \<longleftrightarrow> c \<in> set (js ''0123456789'')"
  by (auto simp: isDigit_def js_ranges)

lemma digitText_iff: "digitText s \<longleftrightarrow> 1 \<le> length s \<and> length s \<le> 12 \<and> list_all isDigit s"
  by (auto simp: digitText_def list_all_iff isDigit_js)

lemma HEX_RE_iff: "HEX_RE s \<longleftrightarrow> hexText s"
proof -
  have "isHexDigit c \<longleftrightarrow> c \<in> set (js ''0123456789abcdefABCDEF'')" for c
    unfolding js_ranges by (auto simp: isHexDigit_def isDigit_def)
  then show ?thesis by (auto simp: HEX_RE_def hexText_def list_all_iff)
qed

lemma AMT_RE_iff: "AMT_RE s \<longleftrightarrow> amountText s"
proof
  assume "AMT_RE s"
  then show "amountText s"
  proof (cases rule: AMT_REE)
    case (1 w)
    then show ?thesis using amountText.whole [of w] by (simp add: digitText_iff)
  next
    case (2 w f)
    then show ?thesis using amountText.pointed [of w f] by (simp add: digitText_iff js_def)
  qed
next
  assume "amountText s"
  then show "AMT_RE s"
  proof cases
    case whole
    then show ?thesis by (auto simp: AMT_RE_def digitText_iff list_all_iff Let_def takeWhile_eq_all_conv [THEN iffD2] dropWhile_eq_Nil_conv)
  next
    case (pointed w f)
    have "\<not> isDigit 46" by (simp add: isDigit_def)
    then have "takeWhile isDigit s = w" "dropWhile isDigit s = [46] @ f"
      using pointed by (simp_all add: digitText_iff list_all_iff js_def takeWhile_append2 dropWhile_append2)
    then show ?thesis using pointed by (auto simp: AMT_RE_def Let_def digitText_iff)
  qed
qed

lemma digitsValue_pos: "list_all isDigit s \<Longrightarrow> 0 < digitsValue s \<longleftrightarrow> (\<exists>c \<in> set s. c \<in> set (js ''123456789''))"
proof (induction s rule: rev_induct)
  case (snoc c s)
  then have "0 < c - 48 \<longleftrightarrow> c \<in> set (js ''123456789'')" unfolding js_ranges by (auto simp: isDigit_def)
  then show ?case using snoc by (auto simp: digitsValue_append)
qed (simp add: digitsValue_def)

lemma amountValue_pos:
  assumes "AMT_RE s"
  shows "0 < amountValue s \<longleftrightarrow> (\<exists>c \<in> set s. c \<in> set (js ''123456789''))"
  using assms
proof (cases rule: AMT_REE)
  case (1 w)
  then show ?thesis using digitsValue_pos [of w] by simp
next
  case (2 w f)
  have "46 \<notin> set (js ''123456789'')" by (simp add: js_def)
  then show ?thesis using 2 digitsValue_pos [of "w @ f"] by (auto simp: zero_less_divide_iff)
qed

lemma digitsValue_less: "digitsValue s < 10 ^ length s" if "list_all isDigit s"
  using that
proof (induction s rule: rev_induct)
  case (snoc c s)
  have "c - 48 < 10" using snoc.prems by (auto simp: isDigit_def)
  then show ?case using snoc by (simp add: digitsValue_append)
qed (simp add: digitsValue_def)

lemma amountValue_units:
  assumes "AMT_RE s"
  shows "\<exists>n. amountValue s = of_nat n / 10 ^ 12 \<and> n < 10 ^ 24"
  using assms
proof (cases rule: AMT_REE)
  case (1 w)
  have "digitsValue w < 10 ^ 12" using digitsValue_less [OF 1(2)] 1(4) power_increasing [of "length w" 12 "10::nat"] by linarith
  then show ?thesis using 1(5) by (intro exI [of _ "digitsValue w * 10 ^ 12"]) simp
next
  case (2 w f)
  have "digitsValue (w @ f) < 10 ^ (length w + length f)" using digitsValue_less [of "w @ f"] 2 by simp
  then have "digitsValue (w @ f) * 10 ^ (12 - length f) < 10 ^ (length w + length f) * 10 ^ (12 - length f)" by simp
  also have "\<dots> = 10 ^ (length w + 12)" using 2(7) by (simp flip: power_add)
  also have "\<dots> \<le> 10 ^ 24" using 2(4) by (intro power_increasing) auto
  finally have b: "digitsValue (w @ f) * 10 ^ (12 - length f) < 10 ^ 24" .
  have "(10::rat) ^ 12 = 10 ^ length f * 10 ^ (12 - length f)" using 2(7) by (simp flip: power_add)
  then have "amountValue s = of_nat (digitsValue (w @ f) * 10 ^ (12 - length f)) / 10 ^ 12"
    unfolding 2(8) by (metis mult_divide_mult_cancel_right of_nat_mult of_nat_numeral of_nat_power power_not_zero zero_neq_numeral)
  then show ?thesis using b by blast
qed

lemma takeWhile_point: "list_all isDigit w \<Longrightarrow> takeWhile isDigit (w @ 46 # f) = w" "list_all isDigit w \<Longrightarrow> dropWhile isDigit (w @ 46 # f) = 46 # f"
  by (induction w) (auto simp: isDigit_def)

lemma unsignedDecimal_amount: "AMT_RE s \<Longrightarrow> unsignedDecimal s = Some (amountValue s)"
proof (erule AMT_REE)
  fix w
  assume "s = w" "list_all isDigit w" "1 \<le> length w" "length w \<le> 12" "amountValue s = of_nat (digitsValue w)"
  then show ?thesis
    by (auto simp: unsignedDecimal_def Let_def list_all_iff takeWhile_eq_all_conv [THEN iffD2] dropWhile_eq_Nil_conv [THEN iffD2])
next
  fix w f
  assume a: "s = w @ [46] @ f" "list_all isDigit w" "1 \<le> length w" "length w \<le> 12" "list_all isDigit f" "1 \<le> length f" "length f \<le> 12"
    "amountValue s = of_nat (digitsValue (w @ f)) / 10 ^ length f"
  then show ?thesis using takeWhile_point [OF a(2), of f]
    by (auto simp: unsignedDecimal_def Let_def list_all_iff takeWhile_eq_all_conv [THEN iffD2] dropWhile_eq_Nil_conv [THEN iffD2])
qed

lemma amount_chars: "AMT_RE s \<Longrightarrow> s \<noteq> [] \<and> (\<forall>c \<in> set s. isDigit c \<or> c = 46)"
  by (erule AMT_REE) (auto simp: list_all_iff)

lemma toDouble_amount:
  assumes "0 \<le> x" and "x \<le> 2 ^ 53"
  shows "toDouble x = Fin (doubleOf x)"
proof -
  have "isDouble (of_int (2 ^ 53))" by (rule isDouble_of_int) simp
  then have "doubleOf x \<le> 2 ^ 53" "0 \<le> doubleOf x" using doubleOf_le [of "of_int (2 ^ 53)" x] doubleOf_nonneg assms by auto
  then have "\<bar>doubleOf x\<bar> < 2 ^ 1024" by simp
  then show ?thesis by (simp add: toDouble_def Let_def)
qed

lemma amountValue_bounds: "AMT_RE s \<Longrightarrow> 0 \<le> amountValue s" "AMT_RE s \<Longrightarrow> amountValue s < 10 ^ 12"
  using amountValue_units [of s] by (auto simp: divide_less_eq)

lemma toNumber_amount:
  assumes "AMT_RE s"
  shows "toNumber (Str s) = Fin (doubleOf (amountValue s))"
proof -
  have cs: "s \<noteq> []" "\<forall>c \<in> set s. isDigit c \<or> c = 46" using amount_chars [OF assms] by auto
  have trim: "trim s = s"
  proof (rule trim_id, rule ballI)
    fix c
    assume "c \<in> set s"
    then have "isDigit c \<or> c = 46" using cs(2) by blast
    then show "\<not> isSpace c" using digit_facts [of c] by (auto simp: isSpace_def)
  qed
  have neq: "c \<in> set s \<Longrightarrow> c \<noteq> 43 \<and> c \<noteq> 45 \<and> c < 65" for c
    using bspec [OF cs(2), of c] by (auto simp: isDigit_def)
  have "take 2 s \<notin> {js ''0x'', js ''0X'', js ''0o'', js ''0O'', js ''0b'', js ''0B''}"
  proof
    assume "take 2 s \<in> {js ''0x'', js ''0X'', js ''0o'', js ''0O'', js ''0b'', js ''0B''}"
    then have "\<exists>c \<in> set (take 2 s). 65 \<le> c" by (auto simp: js_def)
    then show False using neq by (meson in_set_takeD not_less)
  qed
  moreover have "s \<noteq> js ''Infinity''" using neq [of 73] by (auto simp: js_def)
  moreover have "hd s \<noteq> 43" "hd s \<noteq> 45" using neq [of "hd s"] cs(1) by auto
  moreover have "amountValue s \<le> 2 ^ 53" using amountValue_bounds(2) [OF assms] by simp
  ultimately show ?thesis
    using cs(1) unsignedDecimal_amount [OF assms] toDouble_amount [OF amountValue_bounds(1) [OF assms]]
    by (simp add: toNumber_def stringToNumber_def trim Let_def)
qed

lemma doubleOf_positive:
  assumes "1 / 10 ^ 12 \<le> x"
  shows "0 < doubleOf x"
proof -
  have "isDouble (2 powi (- 40))" unfolding isDouble_def by (rule exI [of _ 1], rule exI [of _ "- 40"]) simp
  moreover have "(2::rat) powi (- 40) \<le> x" using assms by (simp add: power_int_minus)
  ultimately have "2 powi (- 40) \<le> doubleOf x" by (intro doubleOf_ge) auto
  moreover have "(0::rat) < 2 powi (- 40)" by simp
  ultimately show ?thesis by linarith
qed

lemma notPositive_amount: "AMT_RE s \<Longrightarrow> notPositive (toNumber (Str s)) \<longleftrightarrow> amountValue s = 0"
proof -
  assume s: "AMT_RE s"
  obtain n where n: "amountValue s = of_nat n / 10 ^ 12" using amountValue_units [OF s] by blast
  have "0 < doubleOf (amountValue s)" if "n \<noteq> 0"
    using that n by (intro doubleOf_positive) (simp add: divide_right_mono Suc_le_eq)
  moreover have "amountValue s = 0 \<longleftrightarrow> n = 0" unfolding n by simp
  ultimately show ?thesis using toNumber_amount [OF s] by (auto simp: notPositive_def doubleOf_def)
qed

section \<open>The total\<close>

lemma nearest_unit:
  assumes "\<bar>x - of_nat n / 10 ^ 12\<bar> < 1 / (2 * 10 ^ 12)" and "0 \<le> x"
  shows "toFixed 12 x = decimal (n div 10 ^ 12) @ [46] @ fixedDigits 12 (n mod 10 ^ 12)"
proof -
  have "x - of_nat n / 1000000000000 < 1 / 2000000000000" "of_nat n / 1000000000000 - x < 1 / 2000000000000"
    using assms(1) unfolding abs_less_iff by simp_all
  then have "of_nat n - 1 / 2 < x * 1000000000000" "x * 1000000000000 < of_nat n + 1 / 2" by linarith+
  then have "\<lfloor>\<bar>x\<bar> * 10 ^ 12 + 1 / 2\<rfloor> = int n" using assms(2) by (intro floor_unique) simp_all
  then have "nat \<lfloor>\<bar>x\<bar> * 10 ^ 12 + 1 / 2\<rfloor> = n" by (simp only: nat_int)
  then show ?thesis
    using assms(2) pointed_eq [of 12 n] unfolding toFixed_def Let_def by simp
qed

text \<open>Three roundings of values below 2048 or 4096 stay within half a unit of the twelfth decimal.\<close>

lemma sum_error:
  assumes "0 \<le> x" "x < 2 ^ 11" "0 \<le> y" "y < 2 ^ 11"
  shows "numAdd (Fin (doubleOf x)) (Fin (doubleOf y)) = Fin (doubleOf (doubleOf x + doubleOf y))"
    and "\<bar>doubleOf (doubleOf x + doubleOf y) - (x + y)\<bar> < 1 / (2 * 10 ^ 12)"
    and "0 \<le> doubleOf (doubleOf x + doubleOf y)"
proof -
  have close: "\<bar>doubleOf z - z\<bar> \<le> 1 / 2 ^ 43" if "0 \<le> z" "z < 2 ^ 11" for z
    using doubleOf_close [of z 11] that by (simp add: power_int_minus inverse_eq_divide)
  have bound: "doubleOf z \<le> 2 ^ 11 \<and> 0 \<le> doubleOf z" if "0 \<le> z" "z < 2 ^ 11" for z
    using doubleOf_le [OF isDouble_of_int, of "2 ^ 11" z] doubleOf_nonneg that by simp
  let ?s = "doubleOf x + doubleOf y"
  have s: "0 \<le> ?s" "?s \<le> 2 ^ 12" using bound [of x] bound [of y] assms by auto
  show "numAdd (Fin (doubleOf x)) (Fin (doubleOf y)) = Fin (doubleOf ?s)" using s toDouble_amount [of ?s] by simp
  show "0 \<le> doubleOf ?s" by (rule doubleOf_nonneg [OF s(1)])
  have "\<bar>doubleOf ?s - ?s\<bar> \<le> 1 / 2 ^ 42"
  proof (cases "?s < 2 ^ 12")
    case True
    then show ?thesis using doubleOf_close [of ?s 12] s(1) by (simp add: power_int_minus inverse_eq_divide)
  next
    case False
    then have "?s = of_int (2 ^ 12)" using s by simp
    then show ?thesis using doubleOf_of_int [of "2 ^ 12"] by simp
  qed
  then have "\<bar>doubleOf ?s - (x + y)\<bar> \<le> 1 / 2 ^ 42 + 1 / 2 ^ 43 + 1 / 2 ^ 43"
    using close [of x] close [of y] assms by linarith
  also have "\<dots> < (1 / (2 * 10 ^ 12) :: rat)" by simp
  finally show "\<bar>doubleOf ?s - (x + y)\<bar> < 1 / (2 * 10 ^ 12)" .
qed

lemma confirmTotal_exact:
  assumes "AMT_RE (pay_amount p)" "AMT_RE (pay_fee p)" "amountValue (pay_amount p) < 2 ^ 11" "amountValue (pay_fee p) < 2 ^ 11"
    and n: "amountValue (pay_amount p) + amountValue (pay_fee p) = of_nat n / 10 ^ 12"
  shows "confirmTotal p = decimal (n div 10 ^ 12) @ [46] @ fixedDigits 12 (n mod 10 ^ 12)"
proof -
  note b = amountValue_bounds(1) [OF assms(1)] amountValue_bounds(1) [OF assms(2)]
  let ?s = "doubleOf (doubleOf (amountValue (pay_amount p)) + doubleOf (amountValue (pay_fee p)))"
  note e = sum_error [OF b(1) assms(3) b(2) assms(4)]
  have "?s - (amountValue (pay_amount p) + amountValue (pay_fee p)) < 1 / (2 * 10 ^ 12)" using e(2) by linarith
  moreover have "(1 / (2 * 10 ^ 12) :: rat) < 1" by simp
  ultimately have "?s < 10 ^ 21" using assms(3,4) by simp
  then show ?thesis
    using e nearest_unit [of ?s n] n toNumber_amount [OF assms(1)] toNumber_amount [OF assms(2)]
    by (simp add: confirmTotal_def numToFixed_def DECIMALS_def del: numAdd.simps)
qed

lemma doubleOf_large:
  assumes "0 \<le> e" and "e < 1 / 2 ^ 17"
  shows "doubleOf (10 ^ 11 + e) = 10 ^ 11"
proof -
  let ?x = "10 ^ 11 + e"
  have e1: "e < 1" using assms(2) by simp
  have "floorLog2 ?x = 36" by (rule floorLog2_unique) (use assms(1) e1 in simp_all)
  then have u: "ulp ?x = 1 / 2 ^ 16" using assms(1) by (simp add: ulp_def power_int_minus inverse_eq_divide)
  have x: "?x / (1 / 2 ^ 16) = 10 ^ 11 * 2 ^ 16 + e * 2 ^ 16" by (simp add: distrib_right)
  have e2: "0 \<le> e * 2 ^ 16" "e * 2 ^ 16 < 1 / 2" using assms by simp_all
  have f: "\<lfloor>10 ^ 11 * 2 ^ 16 + e * 2 ^ 16\<rfloor> = 10 ^ 11 * 2 ^ 16" by (rule floor_unique) (use e2 in simp_all)
  have "?x \<noteq> 0" using assms(1) by simp
  then show ?thesis unfolding doubleOf_def u x roundEven_def f Let_def using e2 by simp
qed

lemma validateSend_iff:
  "fst (validateSend showErrors a) = Some p \<longleftrightarrow>
     pay_to p = trim (el_value (page a ''#send-to'')) \<and> pay_amount p = trim (el_value (page a ''#send-amount''))
     \<and> pay_fee p = or_text (trim (el_value (page a ''#send-fee''))) (js ''0.0001'')
     \<and> HEX_RE (pay_to p) \<and> even (length (pay_to p))
     \<and> AMT_RE (pay_amount p) \<and> 0 < amountValue (pay_amount p) \<and> AMT_RE (pay_fee p)"
proof -
  have to: "toError t = None \<longleftrightarrow> HEX_RE t \<and> even (length t)" for t
    by (auto simp: toError_def HEX_RE_def)
  have amount: "amountError t = None \<longleftrightarrow> AMT_RE t \<and> 0 < amountValue t" for t
    using notPositive_amount [of t] amountValue_bounds(1) [of t] amount_chars [of t] by (auto simp: amountError_def)
  have fee: "feeError f = None \<longleftrightarrow> AMT_RE f" if "f = or_text g (js ''0.0001'')" for f g
    using that by (auto simp: feeError_def or_text_def split: if_splits)
  show ?thesis unfolding validateSend_def Let_def fst_conv to amount fee [OF refl] by (auto intro: Payload.equality)
qed

section \<open>Properties\<close>

text \<open>\<^bold>\<open>C15.\<close> What the form lets through: a payload comes out exactly when the trimmed recipient is
  not empty, has only characters of 0 to 9, a to f and A to F and an even number of them; the amount is one
  to twelve digits, or those, a point and one to twelve more, with some digit that is not 0 (the code
  compares doubles, but no positive amount rounds to 0); and the fee, 0.0001 when left empty, has that form
  too, where it may be 0. The payload is the trimmed texts. There is no upper bound on the recipient here: the
  page's input element stops typing at 256 characters and the server refuses more than 256 digits, so
  a longer text, set by a script, passes the form and is refused only by the server.\<close>

theorem validateSend_spec:
  "fst (validateSend showErrors a) = Some p \<longleftrightarrow>
     pay_to p = trim (el_value (page a ''#send-to'')) \<and> pay_amount p = trim (el_value (page a ''#send-amount''))
     \<and> pay_fee p = (let fee = trim (el_value (page a ''#send-fee'')) in if fee = [] then js ''0.0001'' else fee)
     \<and> hexText (pay_to p) \<and> even (length (pay_to p))
     \<and> amountText (pay_amount p) \<and> (\<exists>c \<in> set (pay_amount p). c \<in> set (js ''123456789'')) \<and> amountText (pay_fee p)"
  unfolding validateSend_iff HEX_RE_iff Let_def or_text_def using amountValue_pos [of "pay_amount p"]
  by (auto simp: AMT_RE_iff)

text \<open>For large amounts the total is wrong: a transfer that the form accepts, whose dialog shows a total
  smaller than the amount shown above it.\<close>

lemma confirm_total_rounds:
  "let p = \<lparr>pay_to = js ''ab'', pay_amount = js ''100000000000.000000000001'', pay_fee = js ''0.000000000001''\<rparr>
   in toError (pay_to p) = None \<and> amountError (pay_amount p) = None \<and> feeError (pay_fee p) = None
      \<and> formatOBX (Str (pay_amount p)) = js ''100,000,000,000.000000000001''
      \<and> formatOBX (Str (confirmTotal p)) = js ''100,000,000,000.000000000000''"
proof -
  let ?a = "js ''100000000000.000000000001''" and ?f = "js ''0.000000000001''"
  let ?p = "\<lparr>pay_to = js ''ab'', pay_amount = ?a, pay_fee = ?f\<rparr>"
  have re: "AMT_RE ?a" "AMT_RE ?f" by (simp_all add: AMT_RE_def js_def isDigit_def)
  have v: "amountValue ?a = 10 ^ 11 + 1 / 10 ^ 12" "amountValue ?f = 1 / 10 ^ 12"
    by (simp_all add: amountValue_def js_def isDigit_def digitsValue_def)
  have a: "doubleOf (10 ^ 11 + 1 / 10 ^ 12) = 10 ^ 11" by (rule doubleOf_large) simp_all
  have "isDouble (2 powi (- 39))" unfolding isDouble_def by (rule exI [of _ 1], rule exI [of _ "- 39"]) simp
  moreover have "(1 / 10 ^ 12 :: rat) \<le> 2 powi (- 39)" by (simp add: power_int_minus inverse_eq_divide)
  ultimately have "doubleOf (1 / 10 ^ 12) \<le> 2 powi (- 39)" by (intro doubleOf_le) simp_all
  also have "(2::rat) powi (- 39) < 1 / 2 ^ 17" by (simp add: power_int_minus inverse_eq_divide)
  finally have f: "doubleOf (1 / 10 ^ 12) < 1 / 2 ^ 17" .
  have f0: "0 \<le> doubleOf (1 / 10 ^ 12)" by (rule doubleOf_nonneg) simp
  have s: "doubleOf (10 ^ 11 + doubleOf (1 / 10 ^ 12)) = 10 ^ 11" by (rule doubleOf_large [OF f0 f])
  have "10 ^ 11 + doubleOf (1 / 10 ^ 12) \<le> 2 ^ 53" using f by simp
  then have "numAdd (Fin (10 ^ 11)) (Fin (doubleOf (1 / 10 ^ 12))) = Fin (10 ^ 11)"
    using toDouble_amount [of "10 ^ 11 + doubleOf (1 / 10 ^ 12)"] f0 s by simp
  moreover have "toNumber (Str ?a) = Fin (10 ^ 11)" "toNumber (Str ?f) = Fin (doubleOf (1 / 10 ^ 12))"
    using toNumber_amount [OF re(1)] toNumber_amount [OF re(2)] unfolding v a by simp_all
  ultimately have sum: "numAdd (toNumber (Str ?a)) (toNumber (Str ?f)) = Fin (10 ^ 11)" by simp
  have total: "confirmTotal ?p = js ''100000000000.000000000000''"
    using nearest_unit [of "10 ^ 11" "10 ^ 23"] unfolding confirmTotal_def Payload.simps sum numToFixed_def
    by (simp add: DECIMALS_def js_def fixedDigits_def decimal_div decimal_small)
  have g: "groupDigits (js ''100000000000'') = js ''100,000,000,000''" by (simp add: groupDigits_def js_def)
  have d: "list_all isDigit (js ''100000000000'')" "list_all isDigit (js ''000000000001'')" "list_all isDigit (js ''000000000000'')"
    by (simp_all add: js_def isDigit_def)
  have shown: "formatOBX (Str ?a) = js ''100,000,000,000.000000000001''"
    "formatOBX (Str (js ''100000000000.000000000000'')) = js ''100,000,000,000.000000000000''"
    using formatOBX_point(1) [OF d(1) _ d(2), of False] formatOBX_point(1) [OF d(1) _ d(3), of False] g
    by (simp_all add: sign_def js_def)
  have "amountError ?a = None" "feeError ?f = None" "toError (js ''ab'') = None"
    using re notPositive_amount [OF re(1)] v by (simp_all add: amountError_def feeError_def toError_def HEX_RE_def js_def isHexDigit_def)
  then show ?thesis using shown total by (simp only: Let_def Payload.simps simp_thms)
qed

text \<open>\<^bold>\<open>C32.\<close> The total of the confirmation dialog is computed in floating point and shown with twelve
  decimals. For every valid amount and fee below 2048 coins three roundings do no harm: the digits
  shown are exactly those of amount plus fee. Not so for large amounts: there is a transfer that the form accepts, whose
  dialog shows a total smaller than the amount shown above it.\<close>

theorem confirm_total_exact:
  assumes "AMT_RE (pay_amount p)" and "AMT_RE (pay_fee p)" and "amountValue (pay_amount p) < 2048" and "amountValue (pay_fee p) < 2048"
  shows "of_nat (digitsValue (filter isDigit (formatOBX (Str (confirmTotal p))))) / 10 ^ 12
    = amountValue (pay_amount p) + amountValue (pay_fee p)
    \<and> (let p = \<lparr>pay_to = js ''ab'', pay_amount = js ''100000000000.000000000001'', pay_fee = js ''0.000000000001''\<rparr>
       in toError (pay_to p) = None \<and> amountError (pay_amount p) = None \<and> feeError (pay_fee p) = None
          \<and> formatOBX (Str (pay_amount p)) = js ''100,000,000,000.000000000001''
          \<and> formatOBX (Str (confirmTotal p)) = js ''100,000,000,000.000000000000'')"
proof (rule conjI [OF _ confirm_total_rounds])
  obtain m k where mk: "amountValue (pay_amount p) = of_nat m / 10 ^ 12" "amountValue (pay_fee p) = of_nat k / 10 ^ 12"
    using amountValue_units [OF assms(1)] amountValue_units [OF assms(2)] by blast
  let ?n = "m + k"
  have sum: "amountValue (pay_amount p) + amountValue (pay_fee p) = of_nat ?n / 10 ^ 12"
    unfolding mk by (simp add: add_divide_distrib)
  have total: "confirmTotal p = decimal (?n div 10 ^ 12) @ [46] @ fixedDigits 12 (?n mod 10 ^ 12)"
    using assms by (intro confirmTotal_exact sum) simp_all
  have len: "length (fixedDigits 12 (?n mod 10 ^ 12)) = 12" by (rule length_fixedDigits) simp
  then have "take 12 (fixedDigits 12 (?n mod 10 ^ 12) @ replicate 12 48) = fixedDigits 12 (?n mod 10 ^ 12)" by simp
  then have "formatOBX (Str (confirmTotal p)) = sign False @ groupDigits (decimal (?n div 10 ^ 12)) @ [46] @ fixedDigits 12 (?n mod 10 ^ 12)"
    using formatOBX_point(1) [OF list_all_decimal decimal_not_Nil list_all_fixedDigits, of False] unfolding total
    by (simp only: sign_def if_False append_Nil)
  then show "of_nat (digitsValue (filter isDigit (formatOBX (Str (confirmTotal p))))) / 10 ^ 12
    = amountValue (pay_amount p) + amountValue (pay_fee p)"
    by (simp only: digits_of_point [OF list_all_decimal list_all_fixedDigits] digitsValue_split sum)
qed

theorem confirm_total_exact_witness:
  "of_nat (digitsValue (filter isDigit (formatOBX (Str (confirmTotal
     \<lparr>pay_to = [], pay_amount = js ''0.1'', pay_fee = js ''0.2''\<rparr>))))) / 10 ^ 12 = (3 / 10 :: rat)"
proof -
  let ?p = "\<lparr>pay_to = [], pay_amount = js ''0.1'', pay_fee = js ''0.2''\<rparr>"
  have "AMT_RE (pay_amount ?p)" "AMT_RE (pay_fee ?p)" by (simp_all add: AMT_RE_def js_def isDigit_def)
  moreover have "amountValue (pay_amount ?p) = 1 / 10" "amountValue (pay_fee ?p) = 2 / 10"
    by (simp_all add: amountValue_def js_def isDigit_def digitsValue_def)
  ultimately show ?thesis using confirm_total_exact [of ?p, THEN conjunct1] by simp
qed

text \<open>The copy button: one copy shows \<^verbatim>\<open>Copied!\<close> until its timer restores the label. A second copy
  before that saves \<^verbatim>\<open>Copied!\<close> as the label to restore, and after both timers the button keeps it.\<close>

theorem copy_label:
  assumes "copyTimers a = []"
  shows "el_text (page (copyTimer (copyDone a)) ''#copy-address .btn-label'') = el_text (page a ''#copy-address .btn-label'')
    \<and> copyTimers (copyTimer (copyDone a)) = []
    \<and> el_text (page (copyTimer (copyTimer (copyDone (copyDone a)))) ''#copy-address .btn-label'') = js ''Copied!''
    \<and> copyTimers (copyTimer (copyTimer (copyDone (copyDone a)))) = []"
  using assms by (simp add: copyTimer_def copyDone_def toast_def Let_def)

end
