(* ===== verification/Event_System.thy ===== *)
theory Event_System
  imports Main
begin

text \<open>
  Systems that change state by events, each of which may be refused, and the two facts every component of
  that kind needs: an invariant kept by every event holds after any run, and a step-by-step correspondence
  with an abstract system carries over to runs.
\<close>

fun runEvents :: "('e \<Rightarrow> 's \<Rightarrow> 's option) \<Rightarrow> 'e list \<Rightarrow> 's \<Rightarrow> 's option" where
  "runEvents step [] s = Some s"
| "runEvents step (e # es) s = Option.bind (step e s) (runEvents step es)"

lemma runEvents_append:
  "runEvents step (es @ fs) s = Option.bind (runEvents step es s) (runEvents step fs)"
  by (induction es arbitrary: s) (auto split: bind_splits)

locale simulation =
  fixes step :: "'e \<Rightarrow> 's \<Rightarrow> 's option"
    and rel :: "'s \<Rightarrow> 'a \<Rightarrow> bool"
    and spec :: "'a \<Rightarrow> 'a \<Rightarrow> bool"
  assumes simulates: "rel s x \<Longrightarrow> step e s = Some s' \<Longrightarrow> \<exists>y. spec x y \<and> rel s' y"
begin

lemma run_simulates:
  assumes "rel s x" and "runEvents step es s = Some s'"
  shows "\<exists>y. spec\<^sup>*\<^sup>* x y \<and> rel s' y"
  using assms
proof (induction es arbitrary: s x)
  case Nil
  then show ?case by auto
next
  case (Cons e es)
  then obtain u where u: "step e s = Some u" "runEvents step es u = Some s'" by (auto simp: bind_eq_Some_conv)
  obtain y where y: "spec x y" "rel u y" using simulates [OF Cons.prems(1) u(1)] by blast
  obtain z where "spec\<^sup>*\<^sup>* y z" "rel s' z" using Cons.IH [OF y(2) u(2)] by blast
  then show ?case using y(1) by (meson converse_rtranclp_into_rtranclp)
qed

end

text \<open>When the abstract state is a function of the concrete one, kept under an invariant.\<close>

locale abstraction =
  fixes step :: "'e \<Rightarrow> 's \<Rightarrow> 's option"
    and inv :: "'s \<Rightarrow> bool"
    and abs :: "'s \<Rightarrow> 'a"
    and spec :: "'a \<Rightarrow> 'a \<Rightarrow> bool"
  assumes inv_step: "inv s \<Longrightarrow> step e s = Some s' \<Longrightarrow> inv s'"
    and abs_step: "inv s \<Longrightarrow> step e s = Some s' \<Longrightarrow> spec (abs s) (abs s')"

sublocale abstraction \<subseteq> sim: simulation step "\<lambda>s x. inv s \<and> x = abs s" spec
  by unfold_locales (use inv_step abs_step in blast)

context abstraction
begin

lemma run_inv: "inv s \<Longrightarrow> runEvents step es s = Some s' \<Longrightarrow> inv s'"
  using sim.run_simulates [of s "abs s" es s'] by blast

lemma run_abs: "inv s \<Longrightarrow> runEvents step es s = Some s' \<Longrightarrow> spec\<^sup>*\<^sup>* (abs s) (abs s')"
  using sim.run_simulates [of s "abs s" es s'] by blast

end

end
