(* ===== verification/Dash_App.thy ===== *)
theory Dash_App
  imports Dash_Wallet Qr_Reader Event_System
begin

text \<open>
  The dashboard as a state machine: the events a user, a timer or the network can cause, the handler
  each of them runs, and the states that can be reached from the page as loaded. A click on a disabled
  button and a click inside a hidden dialog cannot happen; everything else can happen at any time, in
  particular answers arrive in any order.
\<close>

section \<open>Events\<close>

datatype Event =
    ToggleTheme | ClickTab nat | KeyOnTab nat string
  | ClickNodeRefresh | ClickWalletRefresh | ClickCopy | CopyTimeout
  | EditField string jstr | BlurField string | Submit | ClickCancel | ClickOverlay | ClickSend
  | KeyEscape | KeyTab bool string
  | Poll
  | Arrive nat Outcome int \<comment> \<open>number of the call, outcome, time on the clock\<close>
  | ClipboardResult nat bool
  | CloseToast nat | ToastTimeout nat | ToastGone nat

definition enabled :: "string \<Rightarrow> App \<Rightarrow> bool" where
  "enabled sel a \<longleftrightarrow> \<not> el_disabled (page a sel)"

definition dialogOpen :: "App \<Rightarrow> bool" where
  "dialogOpen a \<longleftrightarrow> \<not> el_hidden (page a ''#confirm-modal'')"

text \<open>The continuation of a call, after the call has left the list of those waiting.\<close>

definition continue :: "Env \<Rightarrow> int \<Rightarrow> Call \<Rightarrow> Reply \<Rightarrow> App \<Rightarrow> App option" where
  "continue env now k r a =
     (case k of
        NodeStatus manual \<Rightarrow> nodeReply env now manual r a
      | BlockAt b i bh \<Rightarrow> Some (blockReply b i bh r a)
      | WalletAddress \<Rightarrow> Some (walletAddressReply env r a)
      | WalletBalance manual \<Rightarrow> Some (walletBalanceReply env now manual r a)
      | SendCall payload \<Rightarrow> Some (sendReply payload r a)
      | ClipboardWrite \<Rightarrow> None)"

definition withoutCall :: "nat \<Rightarrow> App \<Rightarrow> App" where
  "withoutCall n a = a\<lparr>inflight := filter (\<lambda>(m, k). m \<noteq> n) (inflight a)\<rparr>"

definition handle :: "Env \<Rightarrow> Event \<Rightarrow> App \<Rightarrow> App option" where
  "handle env ev a =
     (case ev of
        ToggleTheme \<Rightarrow> Some (toggleTheme env a)
      | ClickTab i \<Rightarrow> Some (activateTab env (tabName i) a)
      | KeyOnTab i key \<Rightarrow> Some (tabKey env i key a)
      | ClickNodeRefresh \<Rightarrow> if enabled ''#node-refresh'' a then Some (refreshNode True a) else None
      | ClickWalletRefresh \<Rightarrow> if enabled ''#wallet-refresh'' a then Some (refreshWallet True a) else None
      | ClickCopy \<Rightarrow> if enabled ''#copy-address'' a then Some (copyAddress env a) else None
      | CopyTimeout \<Rightarrow> if copyTimers a \<noteq> [] then Some (copyTimer a) else None
      | EditField sel v \<Rightarrow>
          if sel \<in> {''#send-to'', ''#send-amount'', ''#send-fee''} then Some (snd (validateSend True (setValue sel v a))) else None
      | BlurField sel \<Rightarrow>
          if sel \<in> {''#send-to'', ''#send-amount'', ''#send-fee''} then Some (snd (validateSend True a)) else None
      | Submit \<Rightarrow> Some (submitForm a)
      | ClickCancel \<Rightarrow> if dialogOpen a then Some (closeConfirm a) else None
      | ClickOverlay \<Rightarrow> if dialogOpen a then Some (closeConfirm a) else None
      | ClickSend \<Rightarrow> if dialogOpen a \<and> enabled ''#confirm-send'' a then Some (doSend a) else None
      | KeyEscape \<Rightarrow> Some (pressEscape a)
      | KeyTab shift dest \<Rightarrow> Some (pressTab shift dest a)
      | Poll \<Rightarrow> Some (pollNode a)
      | Arrive n out clock \<Rightarrow>
          (case map_of (inflight a) n of
             Some k \<Rightarrow> continue env clock k (apiReply env out) (withoutCall n a)
           | None \<Rightarrow> None)
      | ClipboardResult n ok \<Rightarrow>
          (case map_of (inflight a) n of
             Some ClipboardWrite \<Rightarrow> Some (clipboardReply env ok (withoutCall n a))
           | _ \<Rightarrow> None)
      | CloseToast i \<Rightarrow> Some (dismiss env i a)
      | ToastTimeout i \<Rightarrow> if \<exists>t \<in> set (toasts a). t_id t = i \<and> t_timer t \<noteq> None then Some (dismiss env i a) else None
      | ToastGone i \<Rightarrow> if \<exists>t \<in> set (toasts a). t_id t = i \<and> js ''toast-out'' \<in> set (t_class t) then Some (removeToast i a) else None)"

inductive reachable :: "Env \<Rightarrow> App \<Rightarrow> bool" for env where
  loaded: "reachable env (init env (startApp store))"
| event: "reachable env a \<Longrightarrow> handle env ev a = Some a' \<Longrightarrow> reachable env a'"

lemma reachable_run: "reachable env a \<Longrightarrow> runEvents (handle env) es a = Some a' \<Longrightarrow> reachable env a'"
  by (induction es arbitrary: a) (auto simp: bind_eq_Some_conv intro: reachable.event)

section \<open>What the parts leave alone\<close>

text \<open>The state of the confirmation dialog and of the tabs, and the part of the state the invariants speak about.\<close>

definition dialog :: "App \<Rightarrow> bool \<times> jstr list \<times> bool \<times> nat option \<times> nat list \<times> Payload option \<times> (jstr \<times> jstr \<times> jstr \<times> jstr \<times> jstr)" where
  "dialog a = (el_hidden (page a ''#confirm-modal''), el_class (page a ''body''), el_disabled (page a ''#confirm-send''),
     focusTrapHandler a, listeners a, pendingSend a,
     (el_text (page a ''#confirm-to''), el_title (page a ''#confirm-to''), el_text (page a ''#confirm-amount''),
      el_text (page a ''#confirm-fee''), el_text (page a ''#confirm-total'')))"

definition tabs where
  "tabs a = (el_hidden (page a ''#panel-node''), el_hidden (page a ''#panel-wallet''), el_attr (page a ''#tab-node-btn'') ''aria-selected'',
     el_attr (page a ''#tab-wallet-btn'') ''aria-selected'', walletLoaded a)"

definition core where
  "core a = (dialog a, tabs a, samples a, inflight a, requests a)"

definition dialogIds :: "string set" where
  "dialogIds = {''#panel-node'', ''#panel-wallet'', ''#tab-node-btn'', ''#tab-wallet-btn'', ''#confirm-modal'', ''body'', ''#confirm-send'', ''#confirm-to'', ''#confirm-amount'', ''#confirm-fee'', ''#confirm-total''}"

text \<open>The later state has the same core and may have taken fresh numbers. The rules walk backwards
  through the writes of an operation.\<close>

definition same :: "App \<Rightarrow> App \<Rightarrow> bool" where
  "same a b \<longleftrightarrow> core b = core a \<and> fresh a \<le> fresh b"

named_theorems same_rules \<open>operations that leave the core alone\<close>

lemma same_refl [same_rules]: "same a a"
  by (simp add: same_def)

lemma same_trans: "same a b \<Longrightarrow> same b c \<Longrightarrow> same a c"
  by (auto simp: same_def)

lemma same_upd [same_rules]:
  assumes "sel \<notin> dialogIds" and "same a b"
  shows "same a (upd sel f b)"
proof -
  have "\<forall>x \<in> dialogIds. page (upd sel f b) x = page b x" using assms(1) by auto
  then have "core (upd sel f b) = core b" by (simp add: dialogIds_def core_def dialog_def tabs_def del: page_upd)
  then show ?thesis using assms(2) by (simp add: same_def)
qed

lemma same_fields [same_rules]:
  "same a b \<Longrightarrow> same a (b\<lparr>toasts := ts\<rparr>)" "same a b \<Longrightarrow> same a (b\<lparr>batches := bs\<rparr>)"
  "same a b \<Longrightarrow> same a (b\<lparr>blocksBody := t\<rparr>)" "same a b \<Longrightarrow> same a (b\<lparr>blocksCache := c\<rparr>)"
  "same a b \<Longrightarrow> same a (b\<lparr>chart := ops\<rparr>)" "same a b \<Longrightarrow> same a (b\<lparr>address := v\<rparr>)"
  "same a b \<Longrightarrow> same a (b\<lparr>connection := k\<rparr>)" "same a b \<Longrightarrow> same a (b\<lparr>storage := st\<rparr>)"
  "same a b \<Longrightarrow> same a (b\<lparr>copyTimers := ct\<rparr>)"
  "same a b \<Longrightarrow> same a (b\<lparr>qrCanvas := cv\<rparr>)" "same a b \<Longrightarrow> same a (b\<lparr>focused := e\<rparr>)"
  "same a b \<Longrightarrow> same a (b\<lparr>lastFocused := e'\<rparr>)"
  by (simp_all add: same_def core_def dialog_def tabs_def)

lemma same_if [same_rules]: "same a b \<Longrightarrow> same a c \<Longrightarrow> same a (if p then b else c)"
  by simp

lemma same_toast [same_rules]:
  "same a b \<Longrightarrow> same a (toast m kind ttl b)" "same a b \<Longrightarrow> same a (dismiss env i b)" "same a b \<Longrightarrow> same a (removeToast i b)"
  by (simp_all add: same_def core_def dialog_def tabs_def toast_def dismiss_def removeToast_def Let_def)

lemma same_setBusy [same_rules]: "btn \<in> {''#node-refresh'', ''#wallet-refresh''} \<Longrightarrow> same a b \<Longrightarrow> same a (setBusy btn busy b)"
  unfolding setBusy_def comp_def by (elim insertE; (intro same_rules)?) (simp_all add: dialogIds_def)

lemma same_setConnection [same_rules]: "same a b \<Longrightarrow> same a (setConnection kind label b)"
  unfolding setConnection_def by (intro same_rules) (simp_all add: dialogIds_def)

lemma same_fold: "(\<And>x b. x \<in> set xs \<Longrightarrow> same b (f x b)) \<Longrightarrow> same a b \<Longrightarrow> same a (fold f xs b)"
proof (induction xs arbitrary: b)
  case (Cons x xs)
  have "same a (f x b)" using Cons.prems same_trans by (meson list.set_intros(1))
  then show ?case using Cons by simp
qed simp

lemma same_setNodeOffline [same_rules]:
  assumes "same a b"
  shows "same a (setNodeOffline off b)"
proof -
  have st: "same a (fold (\<lambda>v. removeAttribute v ''aria-busy'') statCards c)" if "same a c" for c
    using that by (intro same_fold) (auto simp: statCards_def dialogIds_def intro!: same_rules)
  show ?thesis
    unfolding setNodeOffline_def Let_def
    by (intro same_if st same_setConnection same_upd assms) (simp_all add: dialogIds_def)
qed

lemma same_renderNodeStatus [same_rules]: "same a b \<Longrightarrow> same a (renderNodeStatus d b)"
  unfolding renderNodeStatus_def Let_def setStat_def by (intro same_rules) (simp_all add: dialogIds_def)

lemma same_renderQR [same_rules]: "same a b \<Longrightarrow> same a (renderQR env t b)"
  unfolding renderQR_def Let_def by (auto split: sum.splits simp: dialogIds_def intro!: same_rules)

lemma same_storeItem [same_rules]: "same a b \<Longrightarrow> same a (storeItem env k v b)"
  unfolding storeItem_def by (intro same_rules)

lemma same_applyTheme [same_rules]: "same a b \<Longrightarrow> same a (applyTheme env t b)"
  unfolding applyTheme_def Let_def by (intro same_rules) (simp_all add: dialogIds_def)

lemma same_drawChart [same_rules]: "same a b \<Longrightarrow> same a (drawChart env b)"
  unfolding drawChart_def Let_def by (intro same_rules) (simp_all add: dialogIds_def)

lemma same_renderBlocks [same_rules]: "same a b \<Longrightarrow> same a (renderBlocks rows b)"
  unfolding renderBlocks_def by (intro same_rules)

lemma same_settleBatch [same_rules]: "same a b \<Longrightarrow> same a (settleBatch n b)"
  unfolding settleBatch_def by (intro same_rules)

lemma same_blockReply [same_rules]: "same a b \<Longrightarrow> same a (blockReply n i bh r b)"
  unfolding blockReply_def Let_def by (auto split: bool.splits jsval.splits intro!: same_rules)

lemma same_walletAddressReply [same_rules]: "same a b \<Longrightarrow> same a (walletAddressReply env r b)"
  unfolding walletAddressReply_def Let_def by (auto split: option.splits simp: dialogIds_def intro!: same_rules)

lemma same_walletBalanceReply [same_rules]: "same a b \<Longrightarrow> same a (walletBalanceReply env now manual r b)"
  unfolding walletBalanceReply_def Let_def by (intro same_rules) (simp_all add: dialogIds_def)

lemma same_copy [same_rules]:
  "same a b \<Longrightarrow> same a (copyDone b)" "same a b \<Longrightarrow> same a (copyTimer b)" "same a b \<Longrightarrow> same a (fallbackCopy env b)"
  "same a b \<Longrightarrow> same a (clipboardReply env ok b)"
  unfolding copyDone_def copyTimer_def fallbackCopy_def clipboardReply_def Let_def
  by (auto split: list.splits simp: dialogIds_def intro!: same_rules)

lemma same_showFieldErr [same_rules]:
  "inp \<notin> dialogIds \<Longrightarrow> err \<notin> dialogIds \<Longrightarrow> same a b \<Longrightarrow> same a (showFieldErr inp err m b)"
  unfolding showFieldErr_def by (cases m) (auto intro!: same_rules)

lemma same_validateSend [same_rules]: "same a b \<Longrightarrow> same a (snd (validateSend s b))"
  unfolding validateSend_def Let_def snd_conv by (intro same_rules) (simp_all add: dialogIds_def)

section \<open>The invariant\<close>

definition validPayload :: "Payload \<Rightarrow> bool" where
  "validPayload p \<longleftrightarrow> hexText (pay_to p) \<and> even (length (pay_to p)) \<and> amountText (pay_amount p) \<and> 0 < amountValue (pay_amount p)
     \<and> amountText (pay_fee p)"

lemmas validPayload_RE = validPayload_def [folded HEX_RE_iff AMT_RE_iff]

text \<open>The dialog is open exactly while a transfer is pending, with the page marked and the focus trapped,
  and shows that transfer.\<close>

definition dialogInv :: "App \<Rightarrow> bool" where
  "dialogInv a \<longleftrightarrow>
     (case pendingSend a of
        None \<Rightarrow> el_hidden (page a ''#confirm-modal'') \<and> js ''modal-open'' \<notin> set (el_class (page a ''body'')) \<and> focusTrapHandler a = None
      | Some p \<Rightarrow> \<not> el_hidden (page a ''#confirm-modal'') \<and> js ''modal-open'' \<in> set (el_class (page a ''body''))
          \<and> (\<exists>h \<in> set (listeners a). focusTrapHandler a = Some h)
          \<and> validPayload p \<and> el_title (page a ''#confirm-to'') = pay_to p
          \<and> el_text (page a ''#confirm-to'') = truncMiddle (pay_to p) 14 14
          \<and> el_text (page a ''#confirm-amount'') = formatOBX (Str (pay_amount p))
          \<and> el_text (page a ''#confirm-fee'') = formatOBX (Str (pay_fee p))
          \<and> el_text (page a ''#confirm-total'') = formatOBX (Str (confirmTotal p)))"

definition isSend :: "nat \<times> Call \<Rightarrow> bool" where
  "isSend c \<longleftrightarrow> (case snd c of SendCall p \<Rightarrow> True | _ \<Rightarrow> False)"

text \<open>The five requests of the interface, each with its time limit: four that read, of which the one for a
  block gives its height in the query, and the one that sends a transfer.\<close>

inductive goodRequest :: "ApiRequest \<Rightarrow> bool" where
  status: "goodRequest \<lparr>rq_path = js ''/api/node/status'', rq_method = ''GET'', rq_body = None, rq_timeout = 12000\<rparr>"
| block: "0 \<le> q \<Longrightarrow> goodRequest \<lparr>rq_path = js ''/api/node/block?height='' @ numberToString (Fin q), rq_method = ''GET'', rq_body = None, rq_timeout = 8000\<rparr>"
| address: "goodRequest \<lparr>rq_path = js ''/api/wallet/address'', rq_method = ''GET'', rq_body = None, rq_timeout = 15000\<rparr>"
| balance: "goodRequest \<lparr>rq_path = js ''/api/wallet/balance'', rq_method = ''GET'', rq_body = None, rq_timeout = 30000\<rparr>"
| transfer: "validPayload p \<Longrightarrow> goodRequest \<lparr>rq_path = js ''/api/wallet/send'', rq_method = ''POST'', rq_body = Some p, rq_timeout = 60000\<rparr>"

definition sendInv :: "App \<Rightarrow> bool" where
  "sendInv a \<longleftrightarrow>
     length (filter isSend (inflight a)) = (if el_disabled (page a ''#confirm-send'') then 1 else 0)
     \<and> list_all goodRequest (requests a)"

definition numbersInv :: "App \<Rightarrow> bool" where
  "numbersInv a \<longleftrightarrow> distinct (map fst (inflight a)) \<and> (\<forall>c \<in> set (inflight a). fst c < fresh a) \<and> (\<forall>h \<in> set (listeners a). h < fresh a)"

definition tabsInv :: "App \<Rightarrow> bool" where
  "tabsInv a \<longleftrightarrow> el_hidden (page a ''#panel-wallet'') = (\<not> el_hidden (page a ''#panel-node''))
     \<and> el_attr (page a ''#tab-node-btn'') ''aria-selected'' = Some (boolText (\<not> el_hidden (page a ''#panel-node'')))
     \<and> el_attr (page a ''#tab-wallet-btn'') ''aria-selected'' = Some (boolText (\<not> el_hidden (page a ''#panel-wallet'')))
     \<and> (\<not> el_hidden (page a ''#panel-wallet'') \<longrightarrow> walletLoaded a)"

text \<open>What the invariant keeps of the transfer: the pending one, whether one is under way, and those posted.\<close>

type_synonym sendState = "Payload option \<times> bool \<times> Payload list"

definition sendAbs :: "App \<Rightarrow> sendState" where
  "sendAbs a = (pendingSend a, el_disabled (page a ''#confirm-send''), List.map_filter rq_body (requests a))"

definition appInv :: "sendState \<Rightarrow> App \<Rightarrow> bool" where
  "appInv X a \<longleftrightarrow> dialogInv a \<and> sendInv a \<and> numbersInv a \<and> tabsInv a \<and> length (samples a) \<le> 60 \<and> sendAbs a = X"

text \<open>The abstract transfer: reviewing a valid payload, closing the dialog, confirming what is pending while
  nothing is under way, and the answer, which closes whatever dialog is open or leaves it.\<close>

inductive sendStep :: "sendState \<Rightarrow> sendState \<Rightarrow> bool" where
  stutter: "sendStep s s"
| review: "validPayload p \<Longrightarrow> sendStep (q, w, ps) (Some p, w, ps)"
| cancel: "sendStep (q, w, ps) (None, w, ps)"
| confirm: "sendStep (Some p, False, ps) (Some p, True, ps @ [p])"
| accepted: "sendStep (q, True, ps) (None, False, ps)"
| refused: "sendStep (q, True, ps) (q, False, ps)"

lemmas inv_defs = appInv_def dialogInv_def sendInv_def numbersInv_def tabsInv_def sendAbs_def

lemma inv_congs:
  "dialog b = dialog a \<Longrightarrow> dialogInv b = dialogInv a" "tabs b = tabs a \<Longrightarrow> tabsInv b = tabsInv a"
  by (cases "pendingSend a"; simp add: dialog_def dialogInv_def) (simp add: tabs_def tabsInv_def)

lemma appInv_same:
  assumes "appInv X a" and "same a b"
  shows "appInv X b"
proof -
  have c: "dialog b = dialog a" "tabs b = tabs a" "samples b = samples a" "inflight b = inflight a" "requests b = requests a" "fresh a \<le> fresh b"
    using assms(2) by (simp_all add: same_def core_def)
  then have "sendInv b = sendInv a" "sendAbs b = sendAbs a" by (simp_all add: dialog_def sendInv_def sendAbs_def)
  moreover have "numbersInv a \<Longrightarrow> numbersInv b" using c by (fastforce simp: numbersInv_def dialog_def)
  ultimately show ?thesis using assms(1) inv_congs [of b a] c by (simp add: appInv_def)
qed

lemma api_get:
  assumes "appInv X a" and "\<And>p. k \<noteq> SendCall p"
    and good: "goodRequest \<lparr>rq_path = path, rq_method = ''GET'', rq_body = None, rq_timeout = timeout\<rparr>"
  shows "appInv X (api path None timeout k a)" (is "appInv X ?b")
proof -
  have "isSend (n, k) = False" for n using assms(2) by (cases k) (auto simp: isSend_def)
  then have "sendInv ?b = sendInv a" using good by (simp add: sendInv_def api_def)
  moreover have "sendAbs ?b = sendAbs a" by (simp add: sendAbs_def api_def map_filter_def)
  moreover have "numbersInv a \<Longrightarrow> numbersInv ?b" by (fastforce simp: numbersInv_def api_def)
  moreover have "dialog ?b = dialog a" "tabs ?b = tabs a" "samples ?b = samples a" by (simp_all add: dialog_def tabs_def api_def)
  ultimately show ?thesis using assms(1) inv_congs [of ?b a] by (simp add: appInv_def)
qed

lemma inv_clipboard:
  assumes "appInv X a"
  shows "appInv X (a\<lparr>inflight := inflight a @ [(fresh a, ClipboardWrite)], fresh := Suc (fresh a)\<rparr>)" (is "appInv X ?b")
proof -
  have "sendInv ?b = sendInv a" "sendAbs ?b = sendAbs a" by (simp_all add: sendInv_def sendAbs_def isSend_def)
  moreover have "numbersInv a \<Longrightarrow> numbersInv ?b" by (fastforce simp: numbersInv_def)
  moreover have "dialog ?b = dialog a" "tabs ?b = tabs a" "samples ?b = samples a" by (simp_all add: dialog_def tabs_def)
  ultimately show ?thesis using assms(1) inv_congs [of ?b a] by (simp add: appInv_def)
qed

lemma openConfirm_inv:
  assumes "appInv X a" and "validPayload p"
  shows "appInv (Some p, snd X) (openConfirm p a)" (is "appInv _ ?b")
proof -
  have "sendInv ?b = sendInv a" by (simp add: sendInv_def openConfirm_def trapFocus_def Let_def)
  moreover have "sendAbs ?b = (Some p, snd (sendAbs a))" by (simp add: sendAbs_def openConfirm_def trapFocus_def Let_def)
  moreover have "numbersInv a \<Longrightarrow> numbersInv ?b" by (fastforce simp: numbersInv_def openConfirm_def trapFocus_def Let_def)
  moreover have "dialogInv ?b" using assms(2) by (simp add: dialogInv_def openConfirm_def trapFocus_def Let_def)
  moreover have "tabs ?b = tabs a" "samples ?b = samples a" by (simp_all add: tabs_def openConfirm_def trapFocus_def Let_def)
  ultimately show ?thesis using assms(1) inv_congs(2) [of ?b a] by (auto simp: appInv_def)
qed

lemma closeConfirm_inv:
  assumes "appInv X a"
  shows "appInv (None, snd X) (closeConfirm a)" (is "appInv _ ?b")
proof -
  note defs = closeConfirm_def releaseFocusTrap_def Let_def
  have "sendInv ?b = sendInv a" by (cases "lastFocused a") (simp_all add: sendInv_def defs)
  moreover have "sendAbs ?b = (None, snd (sendAbs a))" by (cases "lastFocused a") (simp_all add: sendAbs_def defs)
  moreover have "numbersInv a \<Longrightarrow> numbersInv ?b"
    by (cases "lastFocused a"; cases "focusTrapHandler a") (simp_all add: numbersInv_def defs)
  moreover have "dialogInv ?b" by (cases "lastFocused a") (simp_all add: dialogInv_def defs)
  moreover have "tabs ?b = tabs a" "samples ?b = samples a" by (cases "lastFocused a"; simp add: tabs_def defs)+
  ultimately show ?thesis using assms(1) inv_congs(2) [of ?b a] by (auto simp: appInv_def)
qed

lemma inv_refreshNode: "appInv X a \<Longrightarrow> appInv X (refreshNode manual a)"
  unfolding refreshNode_def by (intro api_get goodRequest.status, erule appInv_same) (auto intro!: same_rules)

lemma inv_refreshWallet: "appInv X a \<Longrightarrow> appInv X (refreshWallet manual a)" "appInv X a \<Longrightarrow> appInv X (refreshWalletBalance manual a)"
proof -
  have address: "appInv X (refreshWalletAddress a)" if "appInv X a" for a
    unfolding refreshWalletAddress_def using that by (intro api_get goodRequest.address) auto
  have balance: "appInv X (refreshWalletBalance manual a)" if "appInv X a" for a
    unfolding refreshWalletBalance_def using that by (intro api_get goodRequest.balance, elim appInv_same) (auto intro!: same_rules)
  show "appInv X a \<Longrightarrow> appInv X (refreshWallet manual a)" "appInv X a \<Longrightarrow> appInv X (refreshWalletBalance manual a)"
    using address balance by (simp_all add: refreshWallet_def)
qed

lemma inv_if: "appInv X b \<Longrightarrow> appInv X c \<Longrightarrow> appInv X (if p then b else c)"
  by simp

lemma inv_activateTab:
  assumes "appInv X a"
  shows "appInv X (activateTab env which a)"
proof -
  let ?b = "setHidden ''#panel-wallet'' (which = js ''node'') (setHidden ''#panel-node'' (which \<noteq> js ''node'')
     (setTabIndex ''#tab-wallet-btn'' (if which = js ''node'' then -1 else 0)
     (setAttribute ''#tab-wallet-btn'' ''aria-selected'' (boolText (which \<noteq> js ''node''))
     (setTabIndex ''#tab-node-btn'' (if which = js ''node'' then 0 else -1)
     (setAttribute ''#tab-node-btn'' ''aria-selected'' (boolText (which = js ''node'')) a)))))"
  have store: "same c (storeItem env k v c)" for c k v by (intro same_rules)
  have parts: "dialog ?b = dialog a" "dialog (?b\<lparr>walletLoaded := True\<rparr>) = dialog a" "sendInv ?b = sendInv a"
    "sendInv (?b\<lparr>walletLoaded := True\<rparr>) = sendInv a" "sendAbs ?b = sendAbs a" "sendAbs (?b\<lparr>walletLoaded := True\<rparr>) = sendAbs a"
    "numbersInv ?b = numbersInv a" "numbersInv (?b\<lparr>walletLoaded := True\<rparr>) = numbersInv a"
    by (simp_all add: dialog_def sendInv_def sendAbs_def numbersInv_def)
  have node: "appInv X ?b" if "which = js ''node'' \<or> walletLoaded a"
    using assms that parts inv_congs(1) [OF parts(1)] by (auto simp: appInv_def tabsInv_def)
  have wallet: "appInv X (?b\<lparr>walletLoaded := True\<rparr>)"
    using assms parts inv_congs(1) [OF parts(2)] by (auto simp: appInv_def tabsInv_def)
  have comm: "(storeItem env k v c)\<lparr>walletLoaded := True\<rparr> = storeItem env k v (c\<lparr>walletLoaded := True\<rparr>)" for k v c
    by (simp add: storeItem_def)
  have loaded: "walletLoaded (storeItem env k v c) = walletLoaded c" for k v c by (simp add: storeItem_def)
  show ?thesis
    unfolding activateTab_def Let_def comm loaded
    using appInv_same [OF node store] appInv_same [OF wallet store, THEN inv_refreshWallet(1)] by auto
qed

lemma inv_tabKey: "appInv X a \<Longrightarrow> appInv X (tabKey env i key a)"
proof -
  assume a: "appInv X a"
  have "appInv X (activateTab env w (a\<lparr>focused := e\<rparr>))" for w e
    using a by (intro inv_activateTab) (erule appInv_same, intro same_rules)
  then show ?thesis using a unfolding tabKey_def Let_def by (auto split: option.splits)
qed

lemma inv_pushSample: "appInv X a \<Longrightarrow> appInv X (pushSample env now v a)"
proof (cases "toNumber v = NaN")
  case False
  assume a: "appInv X a"
  let ?b = "a\<lparr>samples := (let ss = samples a @ [(toNumber v, now)] in if length ss > MAX_SAMPLES then tl ss else ss)\<rparr>"
  have "dialog ?b = dialog a" "tabs ?b = tabs a" "sendInv ?b = sendInv a" "sendAbs ?b = sendAbs a" "numbersInv ?b = numbersInv a"
    by (simp_all add: dialog_def tabs_def sendInv_def sendAbs_def numbersInv_def)
  then have "appInv X ?b" using a inv_congs [of ?b a] by (auto simp: appInv_def MAX_SAMPLES_def Let_def)
  moreover have "pushSample env now v a = drawChart env ?b" using False by (simp add: pushSample_def Let_def)
  ultimately show ?thesis by (simp only:) (erule appInv_same, intro same_rules)
qed (simp add: pushSample_def)

lemma inv_refreshBlocks:
  assumes "appInv X a" and "refreshBlocks v a = Some a'"
  shows "appInv X a'"
proof (cases "toNumber v = NaN")
  case False
  then obtain ws where ws: "wantedFrom (toNumber v) (toNumber v) = Some ws"
    and a': "a' = settleBatch (fresh a) (fold (wantBlock (fresh a)) (zip [0..<length ws] ws)
      (a\<lparr>fresh := fresh a + 1, batches := (batches a)(fresh a := replicate (length ws) None)\<rparr>))" (is "_ = settleBatch _ (fold _ _ ?b)")
    using assms(2) by (auto simp: refreshBlocks_def Let_def bind_eq_Some_conv)
  have "same a ?b" by (simp add: same_def core_def dialog_def tabs_def)
  then have b: "appInv X ?b" by (rule appInv_same [OF assms(1)])
  have step: "appInv X (wantBlock n slot c)" if "appInv X c" "slot \<in> set (zip [0..<length ws] ws)" for n slot c
  proof (cases "blocksCache c (numberToString (snd slot))")
    case None
    note slot = that(2)
    have "snd slot \<in> set ws" using slot set_zip_rightD [of "fst slot" "snd slot"] by simp
    then obtain q where "snd slot = Fin q" "0 \<le> q" using wantedFrom_heights [OF ws] by blast
    then obtain i where "slot = (i, Fin q)" "0 \<le> q" by (metis prod.collapse)
    then show ?thesis using None that(1) by (simp add: wantBlock_def api_get goodRequest.block del: numberToString.simps)
  next
    case (Some sz)
    then show ?thesis using that(1) by (cases slot) (simp add: wantBlock_def, erule appInv_same, intro same_rules)
  qed
  have "appInv X (fold (wantBlock (fresh a)) (zip [0..<length ws] ws) ?b)"
    using b step by (intro fold_invariant [where I = "appInv X"])
  then show ?thesis unfolding a' by (rule appInv_same) (intro same_rules)
qed (use assms in \<open>simp add: refreshBlocks_def\<close>)

lemma inv_nodeReply:
  assumes "appInv X a" and "nodeReply env now manual r a = Some a'"
  shows "appInv X a'"
proof -
  define b where "b = (if manual then setBusy ''#node-refresh'' False a else a)"
  have "same a b" unfolding b_def by (intro same_rules) simp
  then have b: "appInv X b" by (rule appInv_same [OF assms(1)])
  have off: "appInv X (setNodeOffline True b)" using b by (rule appInv_same) (intro same_rules)
  define c where "c = setText ''#node-updated'' (js ''Last updated: '' @ fmtTimestamp env now) (pushSample env now (member (r_data r) ''height'')
     (renderNodeStatus (r_data r) (setNodeOffline False b)))"
  have "appInv X (renderNodeStatus (r_data r) (setNodeOffline False b))" using b by (rule appInv_same) (intro same_rules)
  then have c: "appInv X c"
    unfolding c_def by (rule appInv_same [OF inv_pushSample]) (rule same_upd [OF _ same_refl], simp add: dialogIds_def)
  have "a' = setNodeOffline True b \<or> a' = b \<or> refreshBlocks (member (r_data r) ''height'') c = Some a'"
    using assms(2) unfolding nodeReply_def Let_def b_def [symmetric] c_def [symmetric] by (simp split: if_splits)
  then show ?thesis using b off inv_refreshBlocks [OF c] by auto
qed

lemma inv_doSend:
  assumes "appInv (Some p, w, ps) a" and "enabled ''#confirm-send'' a"
  shows "\<not> w" and "appInv (Some p, True, ps @ [p]) (doSend a)"
proof -
  have dis: "\<not> el_disabled (page a ''#confirm-send'')" and p: "pendingSend a = Some p" using assms by (simp_all add: enabled_def inv_defs)
  show "\<not> w" using assms(1) dis by (simp add: inv_defs)
  show "appInv (Some p, True, ps @ [p]) (doSend a)"
    using assms(1) dis p unfolding doSend_def
    by (auto simp: inv_defs api_def isSend_def setBusy_def less_Suc_eq map_filter_def intro: goodRequest.transfer)
qed

text \<open>Removing the answered call: its number occurs once.\<close>

lemma some_send: "map_of xs n = Some k \<Longrightarrow> isSend (n, k) \<Longrightarrow> 0 < length (filter isSend xs)"
  by (rule length_pos_if_in_set [of "(n, k)"]) (simp add: map_of_SomeD)

lemma filter_other:
  assumes "distinct (map fst xs)" and "map_of xs n = Some k"
  shows "length (filter isSend (filter (\<lambda>(m, k). m \<noteq> n) xs)) = length (filter isSend xs) - (if isSend (n, k) then 1 else 0)"
  using assms
proof (induction xs)
  case (Cons x xs)
  show ?case
  proof (cases "fst x = n")
    case True
    then have x: "x = (n, k)" using Cons.prems(2) by (cases x) simp
    then have "n \<notin> fst ` set xs" using Cons.prems(1) by simp
    then have "filter (\<lambda>(m, k). m \<noteq> n) xs = xs" by (force simp: filter_id_conv)
    then show ?thesis using x by simp
  next
    case False
    then have m: "map_of xs n = Some k" using Cons.prems(2) by (cases x) simp
    then show ?thesis using Cons False some_send [OF m] by (cases x) auto
  qed
qed simp

lemma inv_withoutCall:
  assumes "appInv X a" and "map_of (inflight a) n = Some k" and "\<not> isSend (n, k)"
  shows "appInv X (withoutCall n a)"
proof -
  have "distinct (map fst (inflight a))" using assms(1) by (simp add: appInv_def numbersInv_def)
  from filter_other [OF this assms(2)] show ?thesis
    using assms(1,3)
    by (auto simp: inv_defs withoutCall_def distinct_map_filter split: option.splits)
qed

lemma inv_sendReply:
  assumes "appInv (q, w, ps) a" and "map_of (inflight a) n = Some (SendCall p)"
  shows "w" and "appInv (q, False, ps) (sendReply p r (withoutCall n a)) \<or> appInv (None, False, ps) (sendReply p r (withoutCall n a))"
proof -
  let ?b = "setBusy ''#confirm-send'' False (withoutCall n a)"
  have d: "distinct (map fst (inflight a))" using assms(1) by (simp add: appInv_def numbersInv_def)
  have "isSend (n, SendCall p)" by (simp add: isSend_def)
  then have "length (filter isSend (filter (\<lambda>(m, k). m \<noteq> n) (inflight a))) = 0" and w: "w"
    using filter_other [OF d assms(2)] some_send [OF assms(2)] assms(1) by (auto simp: inv_defs split: if_splits)
  then have b: "appInv (q, False, ps) ?b"
    using assms(1) by (auto simp: inv_defs withoutCall_def setBusy_def distinct_map_filter split: option.splits)
  show "w" by (rule w)
  have err: "appInv (q, False, ps) (toast m kind ttl ?b)" for m kind ttl using b by (rule appInv_same) (intro same_rules)
  have c: "appInv (None, False, ps) (closeConfirm ?b)" using closeConfirm_inv [OF b] by simp
  let ?e = "\<lambda>m. setValue ''#send-fee'' (js ''0.0001'') (setValue ''#send-to'' [] (setValue ''#send-amount'' []
      (setValue ''#send-fee'' (js ''0.0001'') (toast m ''success'' (Some 7000) (closeConfirm ?b)))))"
  have "appInv (None, False, ps) (refreshWalletBalance False (?e m))" for m
    by (rule inv_refreshWallet(2), rule appInv_same [OF c]) (intro same_rules, simp_all add: dialogIds_def)
  then show "appInv (q, False, ps) (sendReply p r (withoutCall n a)) \<or> appInv (None, False, ps) (sendReply p r (withoutCall n a))"
    using b c err unfolding sendReply_def Let_def by (auto split: option.splits simp del: page_upd)
qed

lemma inv_continue:
  assumes "appInv X a" and "map_of (inflight a) n = Some k" and "continue env now k r (withoutCall n a) = Some a'"
  shows "\<exists>Y. sendStep X Y \<and> appInv Y a'"
proof -
  have stay: "?thesis" if "same (withoutCall n a) a'" "\<not> isSend (n, k)"
    using appInv_same [OF inv_withoutCall [OF assms(1,2) that(2)] that(1)] sendStep.stutter by blast
  show ?thesis
  proof (cases k)
    case (NodeStatus manual)
    then have "appInv X a'"
      using inv_nodeReply [OF inv_withoutCall [OF assms(1,2)]] assms(3) by (auto simp: continue_def isSend_def)
    then show ?thesis using sendStep.stutter by blast
  next
    case (SendCall p)
    obtain q w ps where X: "X = (q, w, ps)" by (cases X)
    have w: "w" and or: "appInv (q, False, ps) a' \<or> appInv (None, False, ps) a'"
      using inv_sendReply(1) [of q w ps a n p] inv_sendReply(2) [of q w ps a n p r] assms SendCall by (auto simp: continue_def X)
    then show ?thesis using sendStep.accepted [of q ps] sendStep.refused [of q ps] unfolding X by auto
  qed (rule stay; use assms(3) in \<open>auto simp: continue_def isSend_def intro!: same_rules\<close>)+
qed

lemma inv_submitForm: "appInv X a \<Longrightarrow> \<exists>Y. sendStep X Y \<and> appInv Y (submitForm a)"
proof -
  assume a: "appInv X a"
  obtain r b where v: "validateSend True a = (r, b)" by (cases "validateSend True a")
  have "same a b" using same_validateSend [OF same_refl, of a True] by (simp add: v)
  then have b: "appInv X b" by (rule appInv_same [OF a])
  show ?thesis
  proof (cases r)
    case None
    have "appInv X (toast m kind ttl b)" "appInv X ((toast m kind ttl b)\<lparr>focused := e\<rparr>)" for m kind ttl e
      by (rule appInv_same [OF b], intro same_rules)+
    then have "appInv X (submitForm a)" by (auto simp: submitForm_def v None Let_def split: option.splits)
    then show ?thesis using sendStep.stutter by blast
  next
    case (Some p)
    then have "fst (validateSend True a) = Some p" by (simp add: v)
    then have "validPayload p" unfolding validateSend_iff validPayload_RE by blast
    then have "appInv (Some p, snd X) (submitForm a)" "sendStep X (Some p, snd X)"
      using openConfirm_inv [OF b] sendStep.review [of p "fst X" "fst (snd X)" "snd (snd X)"] by (simp_all add: submitForm_def v Some Let_def)
    then show ?thesis by blast
  qed
qed

lemma inv_handle:
  assumes "appInv X a" and "handle env ev a = Some a'"
  shows "\<exists>Y. sendStep X Y \<and> appInv Y a'"
proof -
  obtain q w ps where X: "X = (q, w, ps)" by (cases X)
  have stay: "?thesis" if "appInv X a'" using that sendStep.stutter by blast
  have same: "?thesis" if "same a a'" by (rule stay) (rule appInv_same [OF assms(1) that])
  have close: "?thesis" if "a' = closeConfirm a"
    using closeConfirm_inv [OF assms(1)] sendStep.cancel [of q w ps] that unfolding X by auto
  show ?thesis
  proof (cases ev)
    case ToggleTheme
    then show ?thesis using assms(2) by (intro same) (auto simp: handle_def toggleTheme_def intro!: same_rules)
  next
    case (EditField sel v)
    then have "a' = snd (validateSend True (setValue sel v a))" "sel \<notin> dialogIds"
      using assms(2) by (auto simp: handle_def dialogIds_def split: if_splits)
    then show ?thesis by (intro same) (auto intro!: same_rules)
  next
    case (BlurField sel)
    then show ?thesis using assms(2) by (intro same) (auto simp: handle_def split: if_splits intro!: same_rules)
  next
    case Submit
    then show ?thesis using inv_submitForm [OF assms(1)] assms(2) by (auto simp: handle_def)
  next
    case ClickSend
    then have a': "a' = doSend a" and e: "enabled ''#confirm-send'' a" "dialogOpen a"
      using assms(2) by (auto simp: handle_def split: if_splits)
    have "q = pendingSend a" using assms(1) by (simp add: X appInv_def sendAbs_def)
    moreover have "pendingSend a \<noteq> None"
      using assms(1) e(2) by (cases "pendingSend a") (simp_all add: appInv_def dialogInv_def dialogOpen_def)
    ultimately obtain p where q: "q = Some p" by auto
    have "\<not> w" "appInv (Some p, True, ps @ [p]) a'" using inv_doSend [of p w ps a] assms(1) e(1) by (auto simp: X q a')
    then show ?thesis using sendStep.confirm [of p ps] unfolding X q by auto
  next
    case KeyEscape
    then show ?thesis using assms close stay by (auto simp: handle_def pressEscape_def split: if_splits)
  next
    case (Arrive n out clock)
    then obtain k where "map_of (inflight a) n = Some k" "continue env clock k (apiReply env out) (withoutCall n a) = Some a'"
      using assms(2) by (auto simp: handle_def split: option.splits)
    then show ?thesis using inv_continue [OF assms(1)] by blast
  next
    case (ClipboardResult n ok)
    then have k: "map_of (inflight a) n = Some ClipboardWrite" and a': "a' = clipboardReply env ok (withoutCall n a)"
      using assms(2) by (auto simp: handle_def split: option.splits Call.splits)
    have "appInv X (withoutCall n a)" using inv_withoutCall [OF assms(1) k] by (simp add: isSend_def)
    then show ?thesis unfolding a' by (intro stay [unfolded a']) (erule appInv_same, intro same_rules)
  next
    case ClickCopy
    then show ?thesis
      using assms inv_clipboard [OF assms(1)] stay same by (auto simp: handle_def copyAddress_def split: if_splits intro!: same_rules)
  qed (use assms close same stay in \<open>auto simp: handle_def pollNode_def pressTab_def Let_def split: if_splits intro!: same_rules
        intro: inv_activateTab inv_tabKey inv_refreshNode inv_refreshWallet\<close>)
qed

lemma inv_start: "appInv (None, False, []) (init env (startApp store))"
proof -
  have none: "List.map_filter rq_body [] = []" by (simp add: map_filter_def)
  have "appInv (None, False, []) (startApp store)"
    by (simp add: inv_defs startApp_def startPage_def blankElem_def hiddenIds_def none boolText_def)
  then have "appInv (None, False, []) (initTheme env (startApp store))"
    unfolding initTheme_def Let_def by (rule appInv_same) (intro same_rules)
  then have "appInv (None, False, []) (initTabs env (initTheme env (startApp store)))"
    unfolding initTabs_def by (rule inv_activateTab)
  then have "appInv (None, False, []) (setText ''#footer-host'' (or_text (e_host env) (js ''this machine'')) (initTabs env (initTheme env (startApp store))))"
    by (rule appInv_same) (intro same_rules, simp add: dialogIds_def)
  then show ?thesis unfolding init_def Let_def by (rule inv_refreshNode)
qed

lemma reachable_inv: "reachable env a \<Longrightarrow> appInv (sendAbs a) a"
proof (induction rule: reachable.induct)
  case (loaded store)
  then show ?case using inv_start [of env store] by (simp add: appInv_def)
next
  case (event a ev a')
  then show ?case using inv_handle by (fastforce simp: appInv_def)
qed

text \<open>The dashboard and the abstract transfer, for whole runs.\<close>

interpretation dash: simulation "handle env" "\<lambda>a x. appInv x a" sendStep for env
  by unfold_locales (rule inv_handle)

section \<open>A run with two dialogs\<close>

definition vals :: "App \<Rightarrow> jstr \<times> jstr \<times> jstr" where
  "vals a = (el_value (page a ''#send-to''), el_value (page a ''#send-amount''), el_value (page a ''#send-fee''))"

lemma showFieldErr_keeps:
  "el_value (page (showFieldErr i e m a) sel) = el_value (page a sel)" "inflight (showFieldErr i e m a) = inflight a"
  "pendingSend (showFieldErr i e m a) = pendingSend a" "fresh (showFieldErr i e m a) = fresh a"
  "requests (showFieldErr i e m a) = requests a"
  by (cases m; simp add: showFieldErr_def)+

lemma validateSend_keeps:
  "vals (snd (validateSend s a)) = vals a" "inflight (snd (validateSend s a)) = inflight a"
  "pendingSend (snd (validateSend s a)) = pendingSend a" "requests (snd (validateSend s a)) = requests a"
  by (simp_all add: validateSend_def vals_def Let_def showFieldErr_keeps)

lemma edit_amount:
  "\<exists>a'. handle env (EditField ''#send-amount'' v) a = Some a' \<and> vals a' = (fst (vals a), v, snd (snd (vals a)))
    \<and> inflight a' = inflight a \<and> pendingSend a' = pendingSend a \<and> requests a' = requests a"
  by (simp add: handle_def validateSend_keeps) (simp add: vals_def)

lemma edit_to:
  "\<exists>a'. handle env (EditField ''#send-to'' v) a = Some a' \<and> vals a' = (v, snd (vals a))
    \<and> inflight a' = inflight a \<and> pendingSend a' = pendingSend a \<and> requests a' = requests a"
  by (simp add: handle_def validateSend_keeps) (simp add: vals_def)

lemma submit_valid:
  assumes "vals a = (to, amount, fee)" and "trim to = to" "trim amount = amount" "trim fee = fee" "fee \<noteq> []"
    and "validPayload \<lparr>pay_to = to, pay_amount = amount, pay_fee = fee\<rparr>"
  shows "\<exists>a'. handle env Submit a = Some a' \<and> vals a' = vals a \<and> inflight a' = inflight a \<and> requests a' = requests a
    \<and> pendingSend a' = Some \<lparr>pay_to = to, pay_amount = amount, pay_fee = fee\<rparr>"
proof -
  let ?p = "\<lparr>pay_to = to, pay_amount = amount, pay_fee = fee\<rparr>"
  have "fst (validateSend True a) = Some ?p"
    unfolding validateSend_iff using assms by (simp add: vals_def validPayload_RE or_text_def)
  then obtain b where v: "validateSend True a = (Some ?p, b)" by (cases "validateSend True a") auto
  have "vals b = vals a" "inflight b = inflight a" "requests b = requests a"
    using validateSend_keeps [of True a] by (simp_all add: v)
  moreover have "handle env Submit a = Some (openConfirm ?p b)" by (simp add: handle_def submitForm_def v)
  ultimately show ?thesis by (simp add: openConfirm_def trapFocus_def Let_def vals_def)
qed

lemma click_send:
  assumes "reachable env a" and "pendingSend a = Some p" and "filter isSend (inflight a) = []"
  shows "\<exists>a' n. handle env ClickSend a = Some a' \<and> vals a' = vals a \<and> inflight a' = inflight a @ [(n, SendCall p)]
    \<and> pendingSend a' = Some p \<and> n \<notin> fst ` set (inflight a) \<and> List.map_filter rq_body (requests a') = List.map_filter rq_body (requests a) @ [p]"
proof -
  have inv: "appInv (sendAbs a) a" by (rule reachable_inv [OF assms(1)])
  then have "\<not> el_disabled (page a ''#confirm-send'')" "\<not> el_hidden (page a ''#confirm-modal'')"
    using assms(2,3) by (simp_all add: appInv_def sendInv_def dialogInv_def split: if_splits)
  then have "handle env ClickSend a = Some (doSend a)" by (simp add: handle_def dialogOpen_def enabled_def)
  moreover have "fresh a \<notin> fst ` set (inflight a)" using inv by (auto simp: appInv_def numbersInv_def)
  ultimately show ?thesis
    using assms(2) by (auto simp: doSend_def api_def setBusy_def vals_def map_filter_def)
qed

lemma press_escape:
  assumes "reachable env a" and "pendingSend a = Some p"
  shows "\<exists>a'. handle env KeyEscape a = Some a' \<and> vals a' = vals a \<and> inflight a' = inflight a \<and> requests a' = requests a"
proof -
  have "listeners a \<noteq> []" using reachable_inv [OF assms(1)] assms(2) by (auto simp: appInv_def dialogInv_def)
  then show ?thesis
    by (cases "lastFocused a") (simp_all add: handle_def pressEscape_def closeConfirm_def releaseFocusTrap_def Let_def vals_def)
qed

lemma vals_upd: "sel \<notin> {''#send-to'', ''#send-amount'', ''#send-fee''} \<Longrightarrow> vals (upd sel f a) = vals a"
  by (simp add: vals_def) (metis fun_upd_other)

lemma vals_frame:
  "vals (api path body t k a) = vals a" "vals (storeItem env key v a) = vals a" "vals (a\<lparr>walletLoaded := w\<rparr>) = vals a"
  "address (storeItem env key v a) = address a"
  by (simp_all add: vals_def api_def storeItem_def)

lemma start_vals:
  "vals (init plainEnv (startApp (\<lambda>_. None))) = ([], [], js ''0.0001'')"
  "filter isSend (inflight (init plainEnv (startApp (\<lambda>_. None)))) = []"
proof -
  let ?s = "startApp (\<lambda>_. None)"
  have "address ?s = Null" by (simp add: startApp_def)
  then have t: "vals (applyTheme plainEnv th ?s) = vals ?s" for th
    by (simp add: applyTheme_def Let_def vals_upd vals_frame del: page_upd)
  have w: "vals (activateTab env w a) = vals a" for env w a
    by (simp add: activateTab_def refreshWallet_def refreshWalletAddress_def refreshWalletBalance_def Let_def vals_upd vals_frame del: page_upd)
  have "vals (init plainEnv ?s) = vals ?s"
    by (simp add: init_def initTheme_def initTabs_def refreshNode_def Let_def vals_upd vals_frame t w del: page_upd)
  then show "vals (init plainEnv (startApp (\<lambda>_. None))) = ([], [], js ''0.0001'')"
    by (simp add: vals_def startApp_def startPage_def blankElem_def)
  show "filter isSend (inflight (init plainEnv ?s)) = []"
    using inv_start [of plainEnv "\<lambda>_. None"] by (auto simp: appInv_def sendInv_def sendAbs_def split: if_splits)
qed

lemma two_dialogs:
  "\<exists>a n p1 p2. reachable plainEnv a \<and> map_of (inflight a) n = Some (SendCall p1) \<and> pendingSend a = Some p2 \<and> p1 \<noteq> p2
     \<and> List.map_filter rq_body (requests a) = [p1]"
proof -
  let ?p = "\<lambda>v. \<lparr>pay_to = js ''ab'', pay_amount = js v, pay_fee = js ''0.0001''\<rparr>"
  let ?a0 = "init plainEnv (startApp (\<lambda>_. None))"
  have posts0: "List.map_filter rq_body (requests ?a0) = []"
    using inv_start [of plainEnv "\<lambda>_. None"] by (simp add: appInv_def sendAbs_def)
  have valid: "validPayload (?p ''1'')" "validPayload (?p ''2'')"
    by (simp_all add: validPayload_RE HEX_RE_def AMT_RE_def js_def isHexDigit_def isDigit_def amountValue_def digitsValue_def)
  have trims: "trim (js ''ab'') = js ''ab''" "trim (js ''1'') = js ''1''" "trim (js ''2'') = js ''2''" "trim (js ''0.0001'') = js ''0.0001''"
    by (rule trim_id; simp add: js_def isSpace_def)+
  have r0: "reachable plainEnv ?a0" by (rule reachable.loaded)
  obtain a1 where a1: "handle plainEnv (EditField ''#send-to'' (js ''ab'')) ?a0 = Some a1" "vals a1 = (js ''ab'', [], js ''0.0001'')"
    "inflight a1 = inflight ?a0" "requests a1 = requests ?a0"
    using edit_to [of plainEnv "js ''ab''" ?a0] start_vals by auto
  note r1 = reachable.event [OF r0 a1(1)]
  obtain a2 where a2: "handle plainEnv (EditField ''#send-amount'' (js ''1'')) a1 = Some a2" "vals a2 = (js ''ab'', js ''1'', js ''0.0001'')"
    "inflight a2 = inflight ?a0" "requests a2 = requests ?a0"
    using edit_amount [of plainEnv "js ''1''" a1] a1 by auto
  note r2 = reachable.event [OF r1 a2(1)]
  obtain a3 where a3: "handle plainEnv Submit a2 = Some a3" "vals a3 = vals a2" "inflight a3 = inflight ?a0" "pendingSend a3 = Some (?p ''1'')"
    "requests a3 = requests ?a0"
    using submit_valid [OF a2(2) trims(1,2,4) _ valid(1)] a2 by auto
  note r3 = reachable.event [OF r2 a3(1)]
  obtain a4 n where a4: "handle plainEnv ClickSend a3 = Some a4" "vals a4 = vals a2" "inflight a4 = inflight ?a0 @ [(n, SendCall (?p ''1''))]"
    "pendingSend a4 = Some (?p ''1'')" "n \<notin> fst ` set (inflight ?a0)" "List.map_filter rq_body (requests a4) = [?p ''1'']"
    using click_send [OF r3 a3(4)] start_vals(2) a3 posts0 by auto
  note r4 = reachable.event [OF r3 a4(1)]
  obtain a5 where a5: "handle plainEnv KeyEscape a4 = Some a5" "vals a5 = vals a2" "inflight a5 = inflight a4" "requests a5 = requests a4"
    using press_escape [OF r4 a4(4)] a4(2) by auto
  note r5 = reachable.event [OF r4 a5(1)]
  obtain a6 where a6: "handle plainEnv (EditField ''#send-amount'' (js ''2'')) a5 = Some a6" "vals a6 = (js ''ab'', js ''2'', js ''0.0001'')"
    "inflight a6 = inflight a4" "requests a6 = requests a4"
    using edit_amount [of plainEnv "js ''2''" a5] a5 a2 by auto
  note r6 = reachable.event [OF r5 a6(1)]
  obtain a7 where a7: "handle plainEnv Submit a6 = Some a7" "inflight a7 = inflight a4" "pendingSend a7 = Some (?p ''2'')" "requests a7 = requests a4"
    using submit_valid [OF a6(2) trims(1,3,4) _ valid(2)] a6 by auto
  note r7 = reachable.event [OF r6 a7(1)]
  have "map_of (inflight ?a0) n = None" using a4(5) by (simp add: map_of_eq_None_iff)
  then have "map_of (inflight a7) n = Some (SendCall (?p ''1''))" using a7(2) a4(3) by (simp add: map_add_def)
  then show ?thesis using r7 a7(3,4) a4(6) by (intro exI [of _ a7] exI [of _ n]) (auto simp: js_inj)
qed

lemma answer_effect:
  assumes "map_of (inflight a) n = Some (SendCall p)"
  shows "\<exists>a'. handle plainEnv (Arrive n (Answer True 200 []) now) a = Some a' \<and> pendingSend a' = None \<and> \<not> dialogOpen a'
    \<and> List.map_filter rq_body (requests a') = List.map_filter rq_body (requests a) \<and> el_value (page a' ''#send-amount'') = []"
proof -
  have mem: "member (Obj []) x = Undef" for x by (simp add: member_def)
  define c where "c = closeConfirm (setBusy ''#confirm-send'' False (withoutCall n a))"
  have c: "pendingSend c = None" "el_hidden (page c ''#confirm-modal'')" "requests c = requests a"
    unfolding c_def by (cases "lastFocused a"; simp add: closeConfirm_def releaseFocusTrap_def setBusy_def withoutCall_def Let_def)+
  have "handle plainEnv (Arrive n (Answer True 200 []) now) a = Some (sendReply p \<lparr>r_ok = True, r_status = 200, r_data = Obj []\<rparr> (withoutCall n a))"
    using assms by (simp add: handle_def continue_def apiReply_def)
  moreover have "sendReply p \<lparr>r_ok = True, r_status = 200, r_data = Obj []\<rparr> (withoutCall n a) =
      refreshWalletBalance False (setValue ''#send-fee'' (js ''0.0001'') (setValue ''#send-to'' [] (setValue ''#send-amount'' [] (setValue ''#send-fee'' (js ''0.0001'')
        (toast (js ''Sent '' @ formatOBX (Str (pay_amount p)) @ js '' OBX'') ''success'' (Some 7000) c)))))"
    by (simp add: sendReply_def Let_def isNullish_def mem c_def [symmetric])
  ultimately show ?thesis
    using c by (simp add: refreshWalletBalance_def api_def toast_def dialogOpen_def map_filter_def Let_def)
qed

section \<open>The address and its symbol\<close>

text \<open>The matrix \<^verbatim>\<open>generate\<close> returns for a symbol.\<close>

definition matrixOf :: "QrCode \<Rightarrow> nat list list" where
  "matrixOf q = map (\<lambda>y. map (\<lambda>x. if cell (qr_modules q) x y then 1 else 0) [0..qr_size q - 1]) [0..qr_size q - 1]"

lemma generate_reads:
  assumes "codePoints text = Some cps" and "\<forall>c \<in> set text. c < 65536" and "int (length (utf8Bytes cps)) \<le> byteCapacity MEDIUM"
  obtains q where "generate text (Some ''M'') = Inr (matrixOf q)" "readSymbol (qr_modules q) = Some (utf8Bytes cps)"
proof -
  from encodeText_ok [OF assms] obtain version ecl data cs m where
    e: "encodeText text MEDIUM = Inr (finished version ecl cs m)" and v: "1 \<le> version" "version \<le> 40"
    and m: "0 \<le> m" "m \<le> 7" and cs: "addEccAndInterleave version ecl data = Inr cs" and b: "\<forall>b \<in> set data. is_byte b"
    and len: "getNumDataCodewords version ecl = Some (int (length data))" and p: "readPayload version data = Some (utf8Bytes cps)"
    by metis
  have "generate text (Some ''M'') = Inr (matrixOf (finished version ecl cs m))"
    using e by (simp add: generate_def ECC_MAP_def inheritedNames_def matrixOf_def)
  then show thesis using that readSymbol_finished [OF v m b len cs] p by simp
qed

section \<open>Properties\<close>

text \<open>\<^bold>\<open>C11.\<close> In every reachable state, whatever the order of clicks, keys, timers and answers: the dialog is
  open exactly while a transfer is pending, it shows that transfer and the focus is trapped; exactly one
  of the two panels is visible, its tab is the selected one, and the wallet has been asked for before
  its panel shows; the calls that wait have different numbers, none of them one a later call will get, so an answer reaches the
  call it belongs to; exactly one of them is a transfer while the confirmation button is disabled and
  none while it is enabled; the chart has at most sixty samples.\<close>

theorem dashboard_invariant:
  assumes "reachable env a"
  shows "dialogInv a \<and> tabsInv a
    \<and> distinct (map fst (inflight a)) \<and> (\<forall>c \<in> set (inflight a). fst c < fresh a)
    \<and> length (filter isSend (inflight a)) = (if el_disabled (page a ''#confirm-send'') then 1 else 0)
    \<and> length (samples a) \<le> 60"
  using reachable_inv [OF assms] by (simp add: appInv_def numbersInv_def sendInv_def)

theorem dashboard_invariant_witness:
  "\<exists>a n p. reachable plainEnv a \<and> (n, SendCall p) \<in> set (inflight a) \<and> dialogInv a \<and> tabsInv a
    \<and> distinct (map fst (inflight a)) \<and> length (filter isSend (inflight a)) = (if el_disabled (page a ''#confirm-send'') then 1 else 0)
    \<and> length (samples a) \<le> 60"
proof -
  obtain a n p where a: "reachable plainEnv a" "map_of (inflight a) n = Some (SendCall p)" using two_dialogs by blast
  have "(n, SendCall p) \<in> set (inflight a)" using a(2) by (rule map_of_SomeD)
  then show ?thesis using a(1) dashboard_invariant [OF a(1)] by blast
qed

text \<open>\<^bold>\<open>C3.\<close> The dashboard refines the abstract transfer: from the page as loaded through any sequence of events, seen
  through the pending transfer, whether one is under way and the list of those posted, it has made steps of
  the abstract machine, and every further event is one more. So a payload is posted only
  by confirming the dialog that shows it, only after it passed validation, and never while another
  transfer is under way.\<close>

theorem dashboard_refines_transfer:
  assumes "runEvents (handle env) es (init env (startApp store)) = Some a"
  shows "sendStep\<^sup>*\<^sup>* (None, False, []) (sendAbs a) \<and> (\<forall>ev a'. handle env ev a = Some a' \<longrightarrow> sendStep (sendAbs a) (sendAbs a'))"
proof -
  obtain x where x: "sendStep\<^sup>*\<^sup>* (None, False, []) x" "appInv x a" using dash.run_simulates [OF inv_start assms] by blast
  then have "appInv (sendAbs a) a" "x = sendAbs a" by (auto simp: appInv_def)
  then show ?thesis using x(1) dash.simulates [of "sendAbs a" a] by (fastforce simp: appInv_def)
qed

theorem dashboard_refines_transfer_witness:
  "\<exists>a. runEvents (handle plainEnv) [Poll, ToggleTheme] (init plainEnv (startApp (\<lambda>_. None))) = Some a
    \<and> sendStep\<^sup>*\<^sup>* (None, False, []) (sendAbs a)"
proof -
  obtain a where a: "runEvents (handle plainEnv) [Poll, ToggleTheme] (init plainEnv (startApp (\<lambda>_. None))) = Some a"
    by (simp add: handle_def)
  then show ?thesis using dashboard_refines_transfer [OF a] by blast
qed

text \<open>\<^bold>\<open>C4.\<close> What goes out over the network in any reachable state: every request is one of five, with its path,
  method and time limit. The node's status, a block (its height is a finite number that is not negative, whatever
  height the node's answer claimed), the wallet's address and its balance are read by \<^verbatim>\<open>GET\<close> without a body;
  a transfer is a \<^verbatim>\<open>POST\<close> with a validated payload. At most one transfer
  waits for its answer; while it waits the confirmation button cannot be clicked.\<close>

theorem dashboard_requests:
  assumes "reachable env a"
  shows "list_all goodRequest (requests a)
    \<and> length (filter isSend (inflight a)) \<le> 1
    \<and> (filter isSend (inflight a) \<noteq> [] \<longrightarrow> handle env ClickSend a = None)"
proof -
  have s: "sendInv a" using reachable_inv [OF assms] by (simp add: appInv_def)
  then have "filter isSend (inflight a) \<noteq> [] \<Longrightarrow> el_disabled (page a ''#confirm-send'')"
    by (auto simp: sendInv_def split: if_splits)
  then show ?thesis using s by (auto simp: sendInv_def handle_def enabled_def split: if_splits)
qed

theorem dashboard_requests_witness:
  "\<exists>a p. reachable plainEnv a \<and> list_all goodRequest (requests a) \<and> p \<in> set (List.map_filter rq_body (requests a))
    \<and> filter isSend (inflight a) \<noteq> [] \<and> handle plainEnv ClickSend a = None"
proof -
  obtain a n p where a: "reachable plainEnv a" "map_of (inflight a) n = Some (SendCall p)" "List.map_filter rq_body (requests a) = [p]"
    using two_dialogs by metis
  have "isSend (n, SendCall p)" by (simp add: isSend_def)
  then have "filter isSend (inflight a) \<noteq> []" using map_of_SomeD [OF a(2)] unfolding filter_empty_conv by blast
  then show ?thesis using dashboard_requests [OF a(1)] a(1,3) by (intro exI [of _ a] exI [of _ p]) simp
qed

text \<open>\<^bold>\<open>C31.\<close> A reachable surprise: cancelling the dialog does not recall a transfer under way. Reviewing
  another one meanwhile, the answer to the first closes the dialog of the second, which was never posted,
  and empties the form.\<close>

theorem answer_closes_other_dialog:
  "\<exists>a n p1 p2 a'. reachable plainEnv a \<and> map_of (inflight a) n = Some (SendCall p1) \<and> pendingSend a = Some p2 \<and> p1 \<noteq> p2
     \<and> handle plainEnv (Arrive n (Answer True 200 []) 0) a = Some a'
     \<and> pendingSend a' = None \<and> \<not> dialogOpen a' \<and> p2 \<notin> set (List.map_filter rq_body (requests a'))
     \<and> el_value (page a' ''#send-amount'') = []"
proof -
  obtain a n p1 p2 where a: "reachable plainEnv a" "map_of (inflight a) n = Some (SendCall p1)" "pendingSend a = Some p2" "p1 \<noteq> p2"
    "List.map_filter rq_body (requests a) = [p1]"
    using two_dialogs by metis
  from answer_effect [OF a(2), of 0] a show ?thesis by fastforce
qed

text \<open>\<^bold>\<open>C14.\<close> From the node's answer to the QR code on the page: an address that fits is shown truncated with
  the full text in its title, can be copied, and the visible canvas is the rendering of a symbol from which
  the reader gets back the bytes of exactly this address.\<close>

theorem address_reaches_canvas:
  assumes "codePoints s = Some cps" and "\<forall>c \<in> set s. c < 65536" and "int (length (utf8Bytes cps)) \<le> byteCapacity MEDIUM"
    and "r_ok r" and "r_data r = Obj [(js ''address'', Str s)]" and a': "a' = walletAddressReply env r a"
  shows "address a' = Str s \<and> el_text (page a' ''#wallet-address'') = truncMiddle s 12 12 \<and> el_title (page a' ''#wallet-address'') = s
    \<and> \<not> el_disabled (page a' ''#copy-address'') \<and> \<not> el_hidden (page a' ''#address-qr'') \<and> el_hidden (page a' ''#qr-empty'')
    \<and> (\<exists>q n px l d. readSymbol (qr_modules q) = Some (utf8Bytes cps) \<and> generate s (Some ''M'') = Inr (matrixOf q)
        \<and> render (qrCanvas a) s \<lparr>opt_level = Some ''M'', opt_quiet = Some 3, opt_size = Some 200, opt_light = Some l, opt_dark = Some d\<rparr>
            = Inr (qrCanvas a', (n, px)))"
proof -
  obtain q where q: "generate s (Some ''M'') = Inr (matrixOf q)" "readSymbol (qr_modules q) = Some (utf8Bytes cps)"
    using generate_reads [OF assms(1-3)] by metis
  let ?opts = "\<lambda>l d. \<lparr>opt_level = Some ''M'', opt_quiet = Some 3, opt_size = Some 200, opt_light = Some l, opt_dark = Some d\<rparr>"
  have run: "\<exists>cv n px. render c s (?opts l d) = Inr (cv, (n, px))" for c l d
    using q(1) by (simp add: render_def or_string_def Let_def)
  have mem: "member (Obj [(js ''address'', Str s)]) ''address'' = Str s" "member (Obj [(js ''address'', Str s)]) ''error'' = Undef"
    by (simp_all add: member_def js_inj)
  define b where "b = setDisabled ''#copy-address'' False (setAttribute ''#wallet-address'' ''aria-label'' (js ''Receiving address '' @ s)
    (setTitle ''#wallet-address'' s (setText ''#wallet-address'' (truncMiddle s 12 12)
      ((setHidden ''#wallet-missing-banner'' True a)\<lparr>address := Str s\<rparr>))))"
  have "a' = renderQR env (Str s) b"
    unfolding a' walletAddressReply_def assms(5) b_def using assms(4) by (simp add: isNullish_def mem truncText_def Let_def)
  moreover obtain cv n px where "render (qrCanvas b) s (?opts (styleOr env b ''--qr-light'' ''#ffffff'') (styleOr env b ''--qr-dark'' ''#000000'')) = Inr (cv, (n, px))"
    using run by blast
  moreover have "qrCanvas b = qrCanvas a" "address b = Str s" "el_text (page b ''#wallet-address'') = truncMiddle s 12 12"
    "el_title (page b ''#wallet-address'') = s" "\<not> el_disabled (page b ''#copy-address'')" by (simp_all add: b_def)
  ultimately show ?thesis using q by (simp add: renderQR_def Let_def) blast
qed

theorem address_reaches_canvas_witness:
  "\<exists>q. readSymbol (qr_modules q) = Some [97, 98] \<and> generate [97, 98] (Some ''M'') = Inr (matrixOf q)"
proof -
  let ?r = "\<lparr>r_ok = True, r_status = 200, r_data = Obj [(js ''address'', Str [97, 98])]\<rparr>"
  show ?thesis
    using address_reaches_canvas [of "[97, 98]" "[97, 98]" ?r "walletAddressReply plainEnv ?r (startApp (\<lambda>_. None))" plainEnv "startApp (\<lambda>_. None)"]
    by (auto simp: is_high_def is_low_def utf8_def byteCapacity_def)
qed

end
