(* ===== verification/Go_Memory.thy ===== *)
theory Go_Memory
  imports Js_Number
begin

text \<open>
  The bytes under \<^verbatim>\<open>wasm_exec.js\<close>: the memory of a WebAssembly instance as a list of bytes, the accesses
  of a \<^verbatim>\<open>DataView\<close> with their \<^verbatim>\<open>RangeError\<close>, little-endian integers, and the bit patterns of doubles. The
  lemmas are the laws of a store (what was written is read, the rest is untouched) and that a double
  survives the way through its 64 bits.
\<close>

section \<open>Little-endian integers\<close>

type_synonym byte = "8 word"

fun leBytes :: "nat \<Rightarrow> nat \<Rightarrow> byte list" where
  "leBytes 0 v = []"
| "leBytes (Suc k) v = of_nat v # leBytes k (v div 256)"

fun leNat :: "byte list \<Rightarrow> nat" where
  "leNat [] = 0"
| "leNat (b # bs) = unat b + 256 * leNat bs"

lemma length_leBytes [simp]: "length (leBytes k v) = k"
  by (induction k arbitrary: v) auto

lemma leNat_leBytes [simp]: "leNat (leBytes k v) = v mod 256 ^ k"
proof (induction k arbitrary: v)
  case (Suc k)
  have "v mod (256 * 256 ^ k) = 256 * (v div 256 mod 256 ^ k) + v mod 256" by (rule mod_mult2_eq)
  then show ?case using Suc by (simp add: unat_of_nat)
qed simp

lemma leNat_less: "leNat bs < 256 ^ length bs"
proof (induction bs)
  case (Cons b bs)
  have "unat b < 256" using unsigned_less [of b, where ?'a = nat] by simp
  then have "unat b + 256 * leNat bs < 256 + 256 * leNat bs" by simp
  also have "\<dots> = 256 * Suc (leNat bs)" by simp
  also have "\<dots> \<le> 256 * 256 ^ length bs" using Cons by (intro mult_le_mono2) simp
  finally show ?case by simp
qed simp

lemma leNat_append: "leNat (xs @ ys) = leNat xs + 256 ^ length xs * leNat ys"
  by (induction xs) (simp_all add: algebra_simps)

section \<open>Views of a buffer\<close>

definition viewGet :: "byte list \<Rightarrow> int \<Rightarrow> nat \<Rightarrow> byte list res" where
  "viewGet m addr k =
     (if 0 \<le> addr \<and> addr + int k \<le> int (length m) then Inr (take k (drop (nat addr) m))
      else Inl (RangeError ''Offset is outside the bounds of the DataView''))"

definition viewSet :: "byte list \<Rightarrow> int \<Rightarrow> byte list \<Rightarrow> byte list res" where
  "viewSet m addr bs =
     (if 0 \<le> addr \<and> addr + int (length bs) \<le> int (length m)
      then Inr (take (nat addr) m @ bs @ drop (nat addr + length bs) m)
      else Inl (RangeError ''Offset is outside the bounds of the DataView''))"

definition inside :: "byte list \<Rightarrow> int \<Rightarrow> nat \<Rightarrow> bool" where
  "inside m addr k \<longleftrightarrow> 0 \<le> addr \<and> addr + int k \<le> int (length m)"

text \<open>The laws of a memory: an access succeeds exactly inside the buffer, a read returns the last write to
  the same place and is not affected by writes elsewhere, and the size never changes.\<close>

locale memory =
  fixes size_of :: "'m \<Rightarrow> nat"
    and get :: "'m \<Rightarrow> int \<Rightarrow> nat \<Rightarrow> byte list res"
    and put :: "'m \<Rightarrow> int \<Rightarrow> byte list \<Rightarrow> 'm res"
  assumes put_total: "0 \<le> a \<Longrightarrow> a + int (length bs) \<le> int (size_of m) \<Longrightarrow> \<exists>m'. put m a bs = Inr m'"
    and put_size: "put m a bs = Inr m' \<Longrightarrow> size_of m' = size_of m"
    and get_total: "0 \<le> a \<Longrightarrow> a + int k \<le> int (size_of m) \<Longrightarrow> \<exists>bs. get m a k = Inr bs \<and> length bs = k"
    and get_put: "put m a bs = Inr m' \<Longrightarrow> get m' a (length bs) = Inr bs"
    and get_other: "put m a bs = Inr m' \<Longrightarrow> b + int k \<le> a \<or> a + int (length bs) \<le> b \<Longrightarrow> get m' b k = get m b k"
    and get_split: "get m a (j + k) = bindR (get m a j) (\<lambda>xs. bindR (get m (a + int j) k) (\<lambda>ys. Inr (xs @ ys)))"
begin

text \<open>A record of consecutive writes, each at the end of the one before, and what it leaves behind.\<close>

lemma get_put_two:
  assumes "put m a xs = Inr m1" and "put m1 (a + int (length xs)) ys = Inr m2"
  shows "get m2 a (length xs + length ys) = Inr (xs @ ys)"
  using get_put [OF assms(1)] get_put [OF assms(2)] get_other [OF assms(2), of a "length xs"] by (simp add: get_split)

lemma get_put_outside:
  assumes "put m a xs = Inr m1" and "put m1 (a + int (length xs)) ys = Inr m2"
    and "b + int k \<le> a \<or> a + int (length xs) + int (length ys) \<le> b"
  shows "get m2 b k = get m b k"
  using get_other [OF assms(1), of b k] get_other [OF assms(2), of b k] assms(3) by auto

end

lemma viewSet_iff:
  "viewSet m a bs = Inr m' \<longleftrightarrow> inside m a (length bs) \<and> m' = take (nat a) m @ bs @ drop (nat a + length bs) m"
  by (auto simp: viewSet_def inside_def)

lemma viewGet_other:
  assumes "viewSet m a bs = Inr m'" and "b + int k \<le> a \<or> a + int (length bs) \<le> b"
  shows "viewGet m' b k = viewGet m b k"
proof (cases "inside m b k")
  case True
  from assms(1) have m': "m' = take (nat a) m @ bs @ drop (nat a + length bs) m" and i: "inside m a (length bs)"
    by (simp_all add: viewSet_iff)
  have len: "length m' = length m" using i by (auto simp: m' inside_def)
  have "take k (drop (nat b) m') = take k (drop (nat b) m)"
  proof (rule nth_equalityI)
    show "length (take k (drop (nat b) m')) = length (take k (drop (nat b) m))" by (simp add: len)
    fix j assume "j < length (take k (drop (nat b) m'))"
    then have j: "j < k" by simp
    have bounds: "nat b + j < length m" "nat a + length bs \<le> length m" using True i j by (auto simp: inside_def)
    have "nat b + j < nat a \<or> nat a + length bs \<le> nat b + j" using assms(2) True i j by (auto simp: inside_def)
    then have "m' ! (nat b + j) = m ! (nat b + j)" unfolding m' using bounds by (auto simp: nth_append min_def)
    then show "take k (drop (nat b) m') ! j = take k (drop (nat b) m) ! j" using j bounds len by simp
  qed
  then show ?thesis using len by (simp add: viewGet_def)
next
  case False
  then show ?thesis using assms(1) by (auto simp: viewGet_def viewSet_iff inside_def)
qed

interpretation view: memory length viewGet viewSet
proof
  fix m :: "byte list" and a k bs
  assume "0 \<le> a" "a + int k \<le> int (length m)"
  then show "\<exists>bs. viewGet m a k = Inr bs \<and> length bs = k" by (auto simp: viewGet_def)
next
  fix m m' :: "byte list" and a bs
  assume "viewSet m a bs = Inr m'"
  then show "viewGet m' a (length bs) = Inr bs" by (auto simp: viewSet_iff viewGet_def inside_def)
next
  fix m :: "byte list" and a :: int and j k :: nat
  have *: "take (j + k) (drop (nat a) m) = take j (drop (nat a) m) @ take k (drop (nat (a + int j)) m)" if "0 \<le> a"
    using that by (simp add: take_add nat_add_distrib add.commute)
  show "viewGet m a (j + k) = bindR (viewGet m a j) (\<lambda>xs. bindR (viewGet m (a + int j) k) (\<lambda>ys. Inr (xs @ ys)))"
    using * by (auto simp: viewGet_def)
qed (auto simp: viewSet_iff inside_def intro: viewGet_other)

section \<open>The bits of a double\<close>

text \<open>The IEEE 754 format: sign, 11 bits of exponent, 52 bits of fraction. In the other direction the exponent and
  the leading bit of a normal number are added up, so that subnormal numbers need no case of their own.\<close>

definition float64Of :: "nat \<Rightarrow> jsnum" where
  "float64Of n =
     (let neg = (n div 2 ^ 63 mod 2 = 1); e = n div 2 ^ 52 mod 2 ^ 11; f = n mod 2 ^ 52
      in if e = 2047 then if f = 0 then Infinite neg else NaN
         else let x = (if e = 0 then of_nat f * 2 powi (- 1074) else of_nat (2 ^ 52 + f) * 2 powi (int e - 1075))
              in Fin (if neg then - x else x))"

definition float64Bits :: "jsnum \<Rightarrow> nat" where
  "float64Bits v =
     (case v of NaN \<Rightarrow> 0x7FF8 * 2 ^ 48
      | Infinite neg \<Rightarrow> 0x7FF * 2 ^ 52 + (if neg then 2 ^ 63 else 0)
      | Fin x \<Rightarrow>
          if x = 0 then 0
          else let e = max (- 1022) (floorLog2 \<bar>x\<bar>)
               in nat (e + 1022) * 2 ^ 52 + nat \<lfloor>\<bar>x\<bar> / 2 powi (e - 52)\<rfloor> + (if x < 0 then 2 ^ 63 else 0))"

definition representable :: "jsnum \<Rightarrow> bool" where
  "representable v \<longleftrightarrow> (case v of Fin x \<Rightarrow> isDouble x \<and> \<bar>x\<bar> < 2 ^ 1024 | _ \<Rightarrow> True)"

lemma float64_fields:
  fixes F f :: nat
  assumes "F < 2048" and "f < 2 ^ 52"
  shows "(F * 2 ^ 52 + f + (if neg then 2 ^ 63 else 0)) div 2 ^ 63 mod 2 = of_bool neg"
    "(F * 2 ^ 52 + f + (if neg then 2 ^ 63 else 0)) div 2 ^ 52 mod 2 ^ 11 = F"
    "(F * 2 ^ 52 + f + (if neg then 2 ^ 63 else 0)) mod 2 ^ 52 = f"
proof -
  let ?n = "F * 2 ^ 52 + f + (if neg then 2 ^ 63 else 0)"
  have "F * 2 ^ 52 + f < (F + 1) * 2 ^ 52" using assms(2) by simp
  also have "\<dots> \<le> 2048 * 2 ^ 52" using assms(1) by (intro mult_le_mono1) simp
  finally have l: "F * 2 ^ 52 + f < 2 ^ 63" by simp
  then show "?n div 2 ^ 63 mod 2 = of_bool neg" by (cases neg) simp_all
  have n: "?n = f + (F + of_bool neg * 2048) * 2 ^ 52" by (cases neg) simp_all
  show "?n mod 2 ^ 52 = f" using assms(2) by (simp only: n mod_mult_self1 mod_less)
  have "?n div 2 ^ 52 = F + of_bool neg * 2048 + f div 2 ^ 52" unfolding n by (rule div_mult_self1) simp
  then have "?n div 2 ^ 52 = F + of_bool neg * 2048" using assms(2) by (simp only: div_less add_0_right)
  then show "?n div 2 ^ 52 mod 2 ^ 11 = F" using assms(1) by (cases neg) simp_all
qed

lemma ulp_max: "ulp x = 2 powi (max (- 1022) (floorLog2 \<bar>x\<bar>) - 52)"
  by (simp add: ulp_def max_def)

lemma powi_shift: "(2::rat) powi (int j + z) = 2 ^ j * 2 powi z"
  by (simp add: power_int_add)

lemma significand:
  assumes "isDouble x" and "x \<noteq> 0"
  obtains k where "\<bar>x\<bar> = of_nat k * ulp x" "k < 2 ^ 53" "2 ^ 52 \<le> k \<or> floorLog2 \<bar>x\<bar> < - 1022"
proof -
  obtain m e where me: "\<bar>m\<bar> < 2 ^ 53" "- 1074 \<le> e" "x = of_int m * 2 powi e" using assms(1) by (auto simp: isDouble_def)
  have p: "0 < \<bar>x\<bar>" using assms(2) by simp
  have "\<exists>n. of_int m * 2 powi e = of_int n * ulp x"
    by (rule double_multiple [OF me(1,2) assms(2)]) (use floorLog2_bounds(1) [OF p] me(3) in simp)
  then obtain n where n: "x = of_int n * ulp x" using me(3) by auto
  define k where "k = nat \<bar>n\<bar>"
  have "\<bar>x\<bar> = \<bar>of_int n\<bar> * ulp x" by (subst n) (simp only: abs_mult abs_of_pos ulp_pos)
  then have k: "\<bar>x\<bar> = of_nat k * ulp x" by (simp add: k_def)
  let ?l = "floorLog2 \<bar>x\<bar>"
  have "of_nat k * ulp x < 2 powi (?l + 1)" using floorLog2_bounds(2) [OF p] k by simp
  also have "(2::rat) powi (?l + 1) \<le> 2 powi (int 53 + (max (- 1022) ?l - 52))" by (intro power_int_increasing) auto
  also have "\<dots> = 2 ^ 53 * ulp x" unfolding ulp_max by (rule powi_shift)
  finally have "rat_of_nat k < 2 ^ 53" by (simp only: mult_less_cancel_right_pos ulp_pos)
  then have "rat_of_nat k < of_nat (2 ^ 53)" by (simp only: of_nat_power of_nat_numeral)
  then have "k < 2 ^ 53" by (simp only: of_nat_less_iff)
  moreover have "2 ^ 52 \<le> k" if "- 1022 \<le> ?l"
  proof -
    have "2 ^ 52 * ulp x = 2 powi (int 52 + (max (- 1022) ?l - 52))" unfolding ulp_max by (rule powi_shift [symmetric])
    also have "\<dots> = 2 powi ?l" using that by (simp add: max_def)
    also have "\<dots> \<le> of_nat k * ulp x" using floorLog2_bounds(1) [OF p] k by simp
    finally have "(2 ^ 52 :: rat) \<le> of_nat k" by (simp only: mult_le_cancel_right_pos ulp_pos)
    then have "rat_of_nat (2 ^ 52) \<le> of_nat k" by (simp only: of_nat_power of_nat_numeral)
    then show ?thesis by (simp only: of_nat_le_iff)
  qed
  ultimately show thesis using that k by force
qed

text \<open>A finite double as its exponent field and its fraction.\<close>

lemma float64Bits_fields:
  assumes "isDouble x" and "\<bar>x\<bar> < 2 ^ 1024"
  obtains F f where "F < 2047" "f < 2 ^ 52" "float64Bits (Fin x) = F * 2 ^ 52 + f + (if x < 0 then 2 ^ 63 else 0)"
    "\<bar>x\<bar> = (if F = 0 then of_nat f * 2 powi (- 1074) else of_nat (2 ^ 52 + f) * 2 powi (int F - 1075))"
proof (cases "x = 0")
  case True
  then show thesis using that [of 0 0] by (simp add: float64Bits_def)
next
  case False
  define e where "e = max (- 1022) (floorLog2 \<bar>x\<bar>)"
  obtain k where k: "\<bar>x\<bar> = of_nat k * ulp x" "k < 2 ^ 53" "2 ^ 52 \<le> k \<or> floorLog2 \<bar>x\<bar> < - 1022"
    by (rule significand [OF assms(1) False])
  have u: "ulp x = 2 powi (e - 52)" by (simp add: ulp_max e_def)
  have "\<bar>x\<bar> / 2 powi (e - 52) = of_nat k" unfolding k(1) u by simp
  then have bits: "float64Bits (Fin x) = nat (e + 1022) * 2 ^ 52 + k + (if x < 0 then 2 ^ 63 else 0)"
    using False by (simp add: float64Bits_def Let_def flip: e_def)
  have "floorLog2 \<bar>x\<bar> < 1024" using assms(2) False by (intro floorLog2_less) (simp_all add: power_int_def)
  then have e: "- 1022 \<le> e" "e \<le> 1023" by (auto simp: e_def)
  show thesis
  proof (cases "2 ^ 52 \<le> k")
    case True
    let ?F = "Suc (nat (e + 1022))" and ?f = "k - 2 ^ 52"
    have "nat (e + 1022) * 2 ^ 52 + k = ?F * 2 ^ 52 + ?f" using True by simp
    moreover have "int ?F - 1075 = e - 52" using e by simp
    ultimately show thesis using that [of ?F ?f] bits e k(1,2) True u by simp
  next
    case False
    then have "e = - 1022" using k(3) by (simp add: e_def max_def)
    then show thesis using that [of 0 k] bits k(1) u False by simp
  qed
qed

lemma float64_round_trip:
  assumes "representable v"
  shows "float64Of (float64Bits v) = v" and "float64Bits v < 2 ^ 64"
proof -
  have "float64Of (float64Bits v) = v \<and> float64Bits v < 2 ^ 64"
  proof (cases v)
    case (Fin x)
    then obtain F f where F: "F < 2047" "f < 2 ^ 52" "float64Bits v = F * 2 ^ 52 + f + (if x < 0 then 2 ^ 63 else 0)"
      "\<bar>x\<bar> = (if F = 0 then of_nat f * 2 powi (- 1074) else of_nat (2 ^ 52 + f) * 2 powi (int F - 1075))"
      using assms float64Bits_fields [of x] by (auto simp: representable_def)
    have "float64Of (float64Bits v) = Fin (if x < 0 then - \<bar>x\<bar> else \<bar>x\<bar>)"
      unfolding F(3,4) float64Of_def using F(1,2) float64_fields [of F f "x < 0"] by (simp add: Let_def)
    moreover have "F * 2 ^ 52 + f < 2047 * 2 ^ 52"
    proof -
      have "F * 2 ^ 52 + f < (F + 1) * 2 ^ 52" using F(2) by simp
      also have "\<dots> \<le> 2047 * 2 ^ 52" using F(1) by (intro mult_le_mono1) simp
      finally show ?thesis .
    qed
    ultimately show ?thesis using Fin F(3) by simp
  next
    case (Infinite neg)
    then show ?thesis by (cases neg) (simp_all add: float64Bits_def float64Of_def)
  qed (simp add: float64Bits_def float64Of_def)
  then show "float64Of (float64Bits v) = v" and "float64Bits v < 2 ^ 64" by simp_all
qed

end
