(* ===== verification/Go_Values.thy ===== *)
theory Go_Values
  imports Go_Memory Event_System
begin

text \<open>
  The table of JavaScript values that the Go program refers to (\<^verbatim>\<open>wasm_exec.js\<close>, \<^verbatim>\<open>_values\<close>, \<^verbatim>\<open>_goRefCounts\<close>,
  \<^verbatim>\<open>_ids\<close>, \<^verbatim>\<open>_idPool\<close>): numbers for values, counted references, reuse of the numbers that are free. The
  abstract specification is a count of references per number together with the value behind it; the table
  is shown to refine it as long as the Go program gives back only references it holds.
\<close>

section \<open>Values\<close>

text \<open>Objects, functions and symbols are compared by identity, here a number. The two zeros are one value,
  as they are for a \<^verbatim>\<open>Map\<close>; NaN has an entry of its own, found by nobody because \<^verbatim>\<open>storeValue\<close> does not ask for it.\<close>

datatype gval =
    VUndef | VNull | VBool bool | VNum jsnum | VBig int | VStr jstr | VSym nat | VObj nat | VFun nat

datatype refcount = CountNaN | CountInf | Count int

fun increment :: "refcount option \<Rightarrow> refcount" where
  "increment (Some (Count n)) = Count (n + 1)"
| "increment (Some CountInf) = CountInf"
| "increment _ = CountNaN"

fun decrement :: "refcount option \<Rightarrow> refcount" where
  "decrement (Some (Count n)) = Count (n - 1)"
| "decrement (Some CountInf) = CountInf"
| "decrement _ = CountNaN"

section \<open>The table\<close>

record Table =
  tb_values :: "gval list"
  tb_counts :: "nat \<rightharpoonup> refcount"
  tb_ids :: "gval \<rightharpoonup> nat"
  tb_pool :: "nat list"

text \<open>\<^verbatim>\<open>globalThis\<close> and the \<^verbatim>\<open>Go\<close> object are the objects 0 and 1.\<close>

definition startTable :: Table where
  "startTable = \<lparr>
     tb_values = [VNum NaN, VNum (Fin 0), VNull, VBool True, VBool False, VObj 0, VObj 1],
     tb_counts = (\<lambda>i. if i < 7 then Some CountInf else None),
     tb_ids = [VNum (Fin 0) \<mapsto> 1, VNull \<mapsto> 2, VBool True \<mapsto> 3, VBool False \<mapsto> 4, VObj 0 \<mapsto> 5, VObj 1 \<mapsto> 6],
     tb_pool = []\<rparr>"

definition setAt :: "gval list \<Rightarrow> nat \<Rightarrow> gval \<Rightarrow> gval list" where
  "setAt xs i v = (if i < length xs then xs[i := v] else xs @ replicate (i - length xs) VUndef @ [v])"

definition storeId :: "gval \<Rightarrow> Table \<Rightarrow> nat \<times> Table" where
  "storeId v t =
     (let (i, t) =
        (case tb_ids t v of
           Some i \<Rightarrow> (i, t)
         | None \<Rightarrow>
             let (i, pool) = (if tb_pool t = [] then (length (tb_values t), []) else (last (tb_pool t), butlast (tb_pool t)))
             in (i, t\<lparr>tb_pool := pool, tb_values := setAt (tb_values t) i v, tb_counts := (tb_counts t)(i \<mapsto> Count 0),
                       tb_ids := (tb_ids t)(v \<mapsto> i)\<rparr>))
      in (i, t\<lparr>tb_counts := (tb_counts t)(i \<mapsto> increment (tb_counts t i))\<rparr>))"

definition valueAt :: "Table \<Rightarrow> nat \<Rightarrow> gval" where
  "valueAt t i = (if i < length (tb_values t) then tb_values t ! i else VUndef)"

definition finalizeId :: "nat \<Rightarrow> Table \<Rightarrow> Table" where
  "finalizeId i t =
     (let c = decrement (tb_counts t i); t = t\<lparr>tb_counts := (tb_counts t)(i \<mapsto> c)\<rparr>
      in if c = Count 0
         then let v = valueAt t i
              in t\<lparr>tb_values := setAt (tb_values t) i VNull, tb_ids := (tb_ids t)(v := None), tb_pool := tb_pool t @ [i]\<rparr>
         else t)"

section \<open>References as the Go program sees them\<close>

text \<open>What the program holds: for each number how many references. The fixed entries are never given back.\<close>

type_synonym holding = "nat \<Rightarrow> nat"

definition live :: "holding \<Rightarrow> nat \<Rightarrow> bool" where
  "live h i \<longleftrightarrow> i < 7 \<or> 0 < h i"

definition tableInv :: "Table \<Rightarrow> holding \<Rightarrow> bool" where
  "tableInv t h \<longleftrightarrow>
     7 \<le> length (tb_values t) \<and> take 7 (tb_values t) = tb_values startTable
     \<and> distinct (tb_pool t)
     \<and> (\<forall>i. i \<in> set (tb_pool t) \<longleftrightarrow> i < length (tb_values t) \<and> \<not> live h i)
     \<and> (\<forall>i. length (tb_values t) \<le> i \<longrightarrow> h i = 0)
     \<and> (\<forall>i. i < length (tb_values t) \<longrightarrow> tb_counts t i = Some (if i < 7 then CountInf else Count (int (h i))))
     \<and> (\<forall>v i. tb_ids t v = Some i \<longleftrightarrow> i < length (tb_values t) \<and> live h i \<and> i \<noteq> 0 \<and> tb_values t ! i = v)"

lemma tableInv_start: "tableInv startTable (\<lambda>_. 0)"
proof -
  have "tb_ids startTable v = Some i \<longleftrightarrow> i < 7 \<and> i \<noteq> 0 \<and> tb_values startTable ! i = v" for v i
  proof (cases "i < 7")
    case True
    then have "i \<in> {0, 1, 2, 3, 4, 5, 6}" by auto
    then show ?thesis by (auto simp: startTable_def)
  next
    case False
    then show ?thesis by (auto simp: startTable_def)
  qed
  moreover have "length (tb_values startTable) = 7" "tb_pool startTable = []" by (simp_all add: startTable_def)
  moreover have "tb_counts startTable i = Some CountInf" if "i < 7" for i using that by (simp add: startTable_def)
  ultimately show ?thesis by (auto simp: tableInv_def live_def)
qed

lemma tableInvD:
  assumes "tableInv t h"
  shows "7 \<le> length (tb_values t)" "take 7 (tb_values t) = tb_values startTable" "distinct (tb_pool t)"
    "i \<in> set (tb_pool t) \<longleftrightarrow> i < length (tb_values t) \<and> \<not> live h i"
    "length (tb_values t) \<le> i \<Longrightarrow> h i = 0"
    "i < length (tb_values t) \<Longrightarrow> tb_counts t i = Some (if i < 7 then CountInf else Count (int (h i)))"
    "tb_ids t v = Some i \<longleftrightarrow> i < length (tb_values t) \<and> live h i \<and> i \<noteq> 0 \<and> tb_values t ! i = v"
  using assms by (simp_all add: tableInv_def)

text \<open>A value that is new to the table gets a number nobody holds.\<close>

definition freshId :: "Table \<Rightarrow> nat" where
  "freshId t = (if tb_pool t = [] then length (tb_values t) else last (tb_pool t))"

lemma storeId_known: "tb_ids t v = Some i \<Longrightarrow> storeId v t = (i, t\<lparr>tb_counts := (tb_counts t)(i \<mapsto> increment (tb_counts t i))\<rparr>)"
  by (simp add: storeId_def)

lemma storeId_new:
  assumes "tb_ids t v = None"
  shows "storeId v t = (freshId t, t\<lparr>tb_pool := butlast (tb_pool t), tb_values := setAt (tb_values t) (freshId t) v,
     tb_counts := (tb_counts t)(freshId t \<mapsto> Count 1), tb_ids := (tb_ids t)(v \<mapsto> freshId t)\<rparr>)"
  using assms by (simp add: storeId_def freshId_def Let_def)

lemma freshId_free:
  assumes "tableInv t h"
  shows "\<not> live h (freshId t)" "freshId t \<le> length (tb_values t)" "freshId t = length (tb_values t) \<longleftrightarrow> tb_pool t = []"
    "set (butlast (tb_pool t)) = set (tb_pool t) - {freshId t}"
proof -
  note D = tableInvD [OF assms]
  have p: "last (tb_pool t) < length (tb_values t) \<and> \<not> live h (last (tb_pool t))" if "tb_pool t \<noteq> []"
    using D(4) [of "last (tb_pool t)"] last_in_set [OF that] by blast
  show "\<not> live h (freshId t)" using p D(1) D(5) [of "length (tb_values t)"] by (auto simp: freshId_def live_def)
  show "freshId t \<le> length (tb_values t)" "freshId t = length (tb_values t) \<longleftrightarrow> tb_pool t = []" using p by (auto simp: freshId_def)
  show "set (butlast (tb_pool t)) = set (tb_pool t) - {freshId t}"
  proof (cases "tb_pool t = []")
    case False
    then obtain xs x where "tb_pool t = xs @ [x]" by (metis append_butlast_last_id)
    then show ?thesis using D(3) by (auto simp: freshId_def)
  qed simp
qed

lemma nth_setAt: "i \<le> length xs \<Longrightarrow> j < length (setAt xs i v) \<Longrightarrow> setAt xs i v ! j = (if j = i then v else xs ! j)"
  by (auto simp: setAt_def nth_append)

lemma length_setAt: "i \<le> length xs \<Longrightarrow> length (setAt xs i v) = (if i = length xs then Suc (length xs) else length xs)"
  by (auto simp: setAt_def)

lemma take_setAt: "i \<le> length xs \<Longrightarrow> 7 \<le> i \<Longrightarrow> take 7 (setAt xs i v) = take 7 xs"
  by (auto simp: setAt_def)

text \<open>Taking a reference: the number returned stands for the value, and whatever else is held keeps its value.\<close>

lemma storeId_inv:
  assumes inv: "tableInv t h" and run: "storeId v t = (i, t')"
  shows "tableInv t' (h(i := Suc (h i)))" and "valueAt t' i = v" and "i \<noteq> 0"
    and "live h j \<Longrightarrow> valueAt t' j = valueAt t j"
proof -
  note D = tableInvD [OF inv]
  let ?h = "h(i := Suc (h i))"
  have "tableInv t' ?h \<and> valueAt t' i = v \<and> i \<noteq> 0 \<and> (live h j \<longrightarrow> valueAt t' j = valueAt t j)"
  proof (cases "tb_ids t v")
    case (Some k)
    then have k: "k = i" and t': "t' = t\<lparr>tb_counts := (tb_counts t)(i \<mapsto> increment (tb_counts t i))\<rparr>"
      using run storeId_known by auto
    have i: "i < length (tb_values t)" "live h i" "i \<noteq> 0" "tb_values t ! i = v" using D(7) Some k by auto
    have l: "live ?h = live h" using i(2) by (intro ext) (auto simp: live_def)
    show ?thesis unfolding tableInv_def l t' using D i by (auto simp: valueAt_def)
  next
    case None
    let ?f = "freshId t"
    have i: "i = ?f" and t': "t' = t\<lparr>tb_pool := butlast (tb_pool t), tb_values := setAt (tb_values t) ?f v,
        tb_counts := (tb_counts t)(?f \<mapsto> Count 1), tb_ids := (tb_ids t)(v \<mapsto> ?f)\<rparr>"
      using run storeId_new [OF None] by auto
    note F = freshId_free [OF inv]
    have f7: "7 \<le> ?f" and h0: "h ?f = 0" using F(1) by (auto simp: live_def)
    have l: "live ?h k \<longleftrightarrow> k = ?f \<or> live h k" for k by (auto simp: i live_def)
    let ?vs = "setAt (tb_values t) ?f v"
    have n: "length ?vs = (if ?f = length (tb_values t) then Suc (length (tb_values t)) else length (tb_values t))"
      by (rule length_setAt [OF F(2)])
    have at: "?vs ! k = (if k = ?f then v else tb_values t ! k)" if "k < length ?vs" for k
      by (rule nth_setAt [OF F(2) that])
    have lt: "k < length ?vs \<longleftrightarrow> k = ?f \<or> k < length (tb_values t)" for k using F(2) n by auto
    have ids: "((tb_ids t)(v \<mapsto> ?f)) w = Some k \<longleftrightarrow> k < length ?vs \<and> live ?h k \<and> k \<noteq> 0 \<and> ?vs ! k = w" for w k
    proof (cases "k = ?f")
      case True
      then have "live ?h k" "k \<noteq> 0" "?vs ! k = v" "k < length ?vs" using f7 at [of k] lt [of k] l by auto
      moreover have "tb_ids t w \<noteq> Some ?f" using D(7) [of w ?f] F(1) by simp
      ultimately show ?thesis using True by auto
    next
      case False
      have "tb_ids t w = Some k \<longleftrightarrow> k < length ?vs \<and> live ?h k \<and> k \<noteq> 0 \<and> ?vs ! k = w"
        using D(7) [of w k] at [of k] lt [of k] l False by auto
      then show ?thesis using False None by auto
    qed
    have parts: "tb_values t' = ?vs" "tb_pool t' = butlast (tb_pool t)" "tb_counts t' = (tb_counts t)(?f \<mapsto> Count 1)"
      "tb_ids t' = (tb_ids t)(v \<mapsto> ?f)" by (simp_all add: t')
    have "tableInv t' ?h"
      unfolding tableInv_def parts
    proof (intro conjI allI impI)
      show "7 \<le> length ?vs" using D(1) n by auto
      show "take 7 ?vs = tb_values startTable" using D(2) take_setAt [OF F(2) f7] by simp
      show "distinct (butlast (tb_pool t))" using D(3) by (rule distinct_butlast)
    next
      fix k
      show "k \<in> set (butlast (tb_pool t)) \<longleftrightarrow> k < length ?vs \<and> \<not> live ?h k" using F(4) D(4) [of k] lt [of k] l by auto
    next
      fix k assume "length ?vs \<le> k"
      then have "k \<noteq> ?f" "length (tb_values t) \<le> k" using lt [of k] by auto
      then show "?h k = 0" using D(5) [of k] i by simp
    next
      fix k assume "k < length ?vs"
      then show "((tb_counts t)(?f \<mapsto> Count 1)) k = Some (if k < 7 then CountInf else Count (int (?h k)))"
        using D(6) [of k] lt [of k] f7 h0 i by auto
    next
      fix w k
      show "((tb_ids t)(v \<mapsto> ?f)) w = Some k \<longleftrightarrow> k < length ?vs \<and> live ?h k \<and> k \<noteq> 0 \<and> ?vs ! k = w" by (rule ids)
    qed
    moreover have "valueAt t' ?f = v" using at [of ?f] lt [of ?f] by (simp add: valueAt_def t')
    moreover have "valueAt t' j = valueAt t j" if "live h j"
      using that F(1) at [of j] lt [of j] by (auto simp: valueAt_def t')
    ultimately show ?thesis using i f7 by simp
  qed
  then show "tableInv t' ?h" "valueAt t' i = v" "i \<noteq> 0" "live h j \<Longrightarrow> valueAt t' j = valueAt t j" by auto
qed

text \<open>Giving a reference back: what is still held keeps its value.\<close>

lemma finalizeId_inv:
  assumes inv: "tableInv t h" and held: "0 < h i"
  shows "tableInv (finalizeId i t) (h(i := h i - 1))"
    and "live (h(i := h i - 1)) j \<Longrightarrow> valueAt (finalizeId i t) j = valueAt t j"
proof -
  note D = tableInvD [OF inv]
  let ?h = "h(i := h i - 1)" and ?c = "(tb_counts t)(i \<mapsto> decrement (tb_counts t i))"
  have i: "i < length (tb_values t)" using D(5) [of i] held by (auto simp: not_less [symmetric])
  have "tableInv (finalizeId i t) ?h \<and> (live ?h j \<longrightarrow> valueAt (finalizeId i t) j = valueAt t j)"
  proof (cases "i < 7 \<or> 1 < h i")
    case True
    then have t': "finalizeId i t = t\<lparr>tb_counts := ?c\<rparr>" using D(6) [OF i] by (auto simp: finalizeId_def Let_def)
    have l: "live ?h = live h" using True held by (intro ext) (auto simp: live_def)
    show ?thesis unfolding tableInv_def l t' using D i held by (auto simp: valueAt_def)
  next
    case False
    then have h1: "h i = 1" and i7: "7 \<le> i" using held by auto
    let ?v = "tb_values t ! i"
    have t': "finalizeId i t = t\<lparr>tb_counts := ?c, tb_values := (tb_values t)[i := VNull], tb_ids := (tb_ids t)(?v := None), tb_pool := tb_pool t @ [i]\<rparr>"
      using D(6) [OF i] h1 i7 i by (simp add: finalizeId_def Let_def valueAt_def setAt_def)
    have l: "live ?h k \<longleftrightarrow> k \<noteq> i \<and> live h k" for k using i7 h1 by (auto simp: live_def)
    have i_live: "live h i" using held by (simp add: live_def)
    have own: "tb_ids t ?v = Some i" using D(7) [of ?v i] i i_live i7 by simp
    have parts: "tb_values (finalizeId i t) = (tb_values t)[i := VNull]" "tb_pool (finalizeId i t) = tb_pool t @ [i]"
      "tb_counts (finalizeId i t) = ?c" "tb_ids (finalizeId i t) = (tb_ids t)(?v := None)" by (simp_all add: t')
    have "tableInv (finalizeId i t) ?h"
      unfolding tableInv_def parts
    proof (intro conjI allI impI)
      show "take 7 ((tb_values t)[i := VNull]) = tb_values startTable" using D(2) i7 by simp
      show "distinct (tb_pool t @ [i])" using D(3) D(4) [of i] i_live by simp
    next
      fix k
      show "k \<in> set (tb_pool t @ [i]) \<longleftrightarrow> k < length ((tb_values t)[i := VNull]) \<and> \<not> live ?h k" using D(4) [of k] i l by auto
    next
      fix k assume "k < length ((tb_values t)[i := VNull])"
      then show "?c k = Some (if k < 7 then CountInf else Count (int (?h k)))" using D(6) [of k] i7 h1 by auto
    next
      fix w k
      show "((tb_ids t)(?v := None)) w = Some k \<longleftrightarrow> k < length ((tb_values t)[i := VNull]) \<and> live ?h k \<and> k \<noteq> 0 \<and> (tb_values t)[i := VNull] ! k = w"
      proof (cases "w = ?v")
        case True
        then show ?thesis using D(7) [of w k] own l [of k] i by (cases "k = i") auto
      next
        case False
        then show ?thesis using D(7) [of w k] l [of k] by (cases "k = i") auto
      qed
    qed (use D(1,5) in auto)
    moreover have "valueAt (finalizeId i t) j = valueAt t j" if "live ?h j"
      using that l by (auto simp: t' valueAt_def)
    ultimately show ?thesis by blast
  qed
  then show "tableInv (finalizeId i t) ?h" "live ?h j \<Longrightarrow> valueAt (finalizeId i t) j = valueAt t j" by auto
qed

section \<open>The specification of the table\<close>

text \<open>What the Go program relies on: a partial map from the numbers it holds to a value and a count. Taking a
  reference to a value raises the count of its number, or binds a number that is free; giving one back
  lowers the count and frees the number at zero. The seven fixed entries are not counted.\<close>

type_synonym refs = "nat \<rightharpoonup> gval \<times> nat"

inductive refStep :: "refs \<Rightarrow> refs \<Rightarrow> bool" where
  fixed: "refStep r r"
| again: "r i = Some (v, n) \<Longrightarrow> refStep r (r(i \<mapsto> (v, Suc n)))"
| bind: "r i = None \<Longrightarrow> v \<notin> fst ` ran r \<Longrightarrow> refStep r (r(i \<mapsto> (v, 1)))"
| drop: "r i = Some (v, Suc (Suc n)) \<Longrightarrow> refStep r (r(i \<mapsto> (v, Suc n)))"
| free: "r i = Some (v, 1) \<Longrightarrow> refStep r (r(i := None))"

definition refsOf :: "Table \<times> holding \<Rightarrow> refs" where
  "refsOf = (\<lambda>(t, h) i. if 7 \<le> i \<and> 0 < h i then Some (valueAt t i, h i) else None)"

text \<open>The Go program's side: it takes references and gives back one it holds.\<close>

datatype refEvent = Take gval | Give nat

fun refHandle :: "refEvent \<Rightarrow> Table \<times> holding \<Rightarrow> (Table \<times> holding) option" where
  "refHandle (Take v) (t, h) = (let (i, t') = storeId v t in Some (t', h(i := Suc (h i))))"
| "refHandle (Give i) (t, h) = (if 0 < h i then Some (finalizeId i t, h(i := h i - 1)) else None)"

lemma refsOf_eqI: "(\<And>i. refsOf s i = r i) \<Longrightarrow> refsOf s = r"
  by (rule ext)

lemma refHandle_sim:
  assumes "tableInv t h" and "refHandle e (t, h) = Some (t', h')"
  shows "tableInv t' h' \<and> refStep (refsOf (t, h)) (refsOf (t', h'))"
proof (cases e)
  case (Take v)
  obtain i where s: "storeId v t = (i, t')" and h': "h' = h(i := Suc (h i))"
    using assms(2) Take by (auto split: prod.splits)
  note S = storeId_inv [OF assms(1) s]
  have keep: "refsOf (t', h') j = refsOf (t, h) j" if "j \<noteq> i \<or> i < 7" for j
    using that S(4) [of j] by (auto simp: refsOf_def h' live_def)
  have own: "refsOf (t', h') i = Some (v, Suc (h i))" if "7 \<le> i" using that S(2) by (simp add: refsOf_def h')
  have "refStep (refsOf (t, h)) (refsOf (t', h'))"
  proof (cases "i < 7")
    case True
    then have "refsOf (t', h') = refsOf (t, h)" using keep by (intro ext) simp
    then show ?thesis by (simp add: refStep.fixed)
  next
    case i7: False
    show ?thesis
    proof (cases "h i = 0")
      case True
      have eq: "refsOf (t', h') = (refsOf (t, h))(i \<mapsto> (v, 1))" using keep own i7 True by (intro ext) simp
      have "v \<notin> fst ` ran (refsOf (t, h))"
      proof
        assume "v \<in> fst ` ran (refsOf (t, h))"
        then obtain j where j: "7 \<le> j" "0 < h j" "valueAt t j = v" by (auto simp: ran_def refsOf_def split: if_splits)
        have "j < length (tb_values t)" using tableInvD(5) [OF assms(1), of j] j(2) by (auto simp: not_less [symmetric])
        then have "tb_ids t v = Some j" using tableInvD(7) [OF assms(1), of v j] j by (simp add: valueAt_def live_def)
        then show False using s storeId_known True j(2) by auto
      qed
      moreover have "refsOf (t, h) i = None" using True by (simp add: refsOf_def)
      ultimately show ?thesis unfolding eq by (intro refStep.bind)
    next
      case False
      then have "refsOf (t, h) i = Some (v, h i)" using S(2) S(4) [of i] i7 by (simp add: refsOf_def live_def)
      moreover have "refsOf (t', h') = (refsOf (t, h))(i \<mapsto> (v, Suc (h i)))" using keep own i7 by (intro ext) simp
      ultimately show ?thesis by (auto intro: refStep.again)
    qed
  qed
  then show ?thesis using S(1) h' by simp
next
  case (Give i)
  then have held: "0 < h i" and t': "t' = finalizeId i t" and h': "h' = h(i := h i - 1)" using assms(2) by (auto split: if_splits)
  note F = finalizeId_inv [where i = i, OF assms(1) held]
  have keep: "refsOf (t', h') j = refsOf (t, h) j" if "j \<noteq> i \<or> i < 7" for j
    using that F(2) [of j] by (auto simp: refsOf_def h' t' live_def)
  have "refStep (refsOf (t, h)) (refsOf (t', h'))"
  proof (cases "i < 7")
    case True
    then have "refsOf (t', h') = refsOf (t, h)" using keep by (intro ext) simp
    then show ?thesis by (simp add: refStep.fixed)
  next
    case i7: False
    then have old: "refsOf (t, h) i = Some (valueAt t i, h i)" using held by (simp add: refsOf_def)
    show ?thesis
    proof (cases "h i = 1")
      case True
      have "refsOf (t', h') = (refsOf (t, h))(i := None)"
      proof
        fix j
        show "refsOf (t', h') j = ((refsOf (t, h))(i := None)) j"
          using keep [of j] True by (cases "j = i") (simp_all add: refsOf_def h')
      qed
      then show ?thesis using refStep.free [of "refsOf (t, h)" i] old True by simp
    next
      case False
      then obtain n where n: "h i = Suc (Suc n)" using held by (metis One_nat_def gr0_conv_Suc nat.exhaust)
      have "refsOf (t', h') i = Some (valueAt t i, Suc n)" using F(2) [of i] i7 n by (simp add: refsOf_def h' t' live_def)
      then have "refsOf (t', h') = (refsOf (t, h))(i \<mapsto> (valueAt t i, Suc n))" using keep by (intro ext) simp
      then show ?thesis using refStep.drop [of "refsOf (t, h)" i] old n by simp
    qed
  qed
  then show ?thesis using F(1) h' t' by simp
qed

lemma refsOf_held:
  assumes "tableInv t h" and "refsOf (t, h) i = Some (v, n)"
  shows "valueAt t i = v \<and> tb_ids t v = Some i \<and> tb_counts t i = Some (Count (int n))"
proof -
  have i: "7 \<le> i" "0 < h i" "valueAt t i = v" "h i = n" using assms(2) by (auto simp: refsOf_def split: if_splits)
  have "i < length (tb_values t)" using tableInvD(5) [OF assms(1), of i] i(2) by (auto simp: not_less [symmetric])
  then show ?thesis using tableInvD(6) [OF assms(1), of i] tableInvD(7) [OF assms(1), of v i] i by (simp add: valueAt_def live_def)
qed

lemma refHandle_keeps:
  assumes "tableInv t h" and "refHandle e (t, h) = Some (t', h')" and "0 < h i" and "0 < h' i"
  shows "valueAt t' i = valueAt t i"
proof (cases e)
  case (Take v)
  then show ?thesis using assms storeId_inv(4) [OF assms(1), of v _ t' i] by (auto simp: live_def split: prod.splits)
next
  case (Give j)
  then show ?thesis using assms finalizeId_inv(2) [OF assms(1), of j i] by (auto simp: live_def split: if_splits)
qed

interpretation refTable: abstraction refHandle "\<lambda>(t, h). tableInv t h" refsOf refStep
proof
  fix s e s'
  assume "case s of (t, h) \<Rightarrow> tableInv t h" "refHandle e s = Some s'"
  then show "case s' of (t, h) \<Rightarrow> tableInv t h" and "refStep (refsOf s) (refsOf s')"
    using refHandle_sim by (cases s; cases s'; fastforce)+
qed

section \<open>Correctness\<close>

text \<open>\<^bold>\<open>C7.\<close> The table of references, from the start of the Go program through any sequence of references taken
  and given back: what the program holds behaves like counted bindings of numbers to values (a refinement),
  so a number it holds always stands for the value it was taken for, two numbers never stand for the same
  value, the count kept is the number of references held, and a number that is still held after a step keeps its value.\<close>

theorem references_refine:
  assumes "runEvents refHandle es (startTable, \<lambda>_. 0) = Some (t, h)"
  shows "refStep\<^sup>*\<^sup>* Map.empty (refsOf (t, h))
    \<and> (\<forall>i j v m n. refsOf (t, h) i = Some (v, m) \<longrightarrow> refsOf (t, h) j = Some (v, n) \<longrightarrow> i = j)
    \<and> (\<forall>i v n. refsOf (t, h) i = Some (v, n) \<longrightarrow> valueAt t i = v \<and> tb_ids t v = Some i \<and> tb_counts t i = Some (Count (int n)))
    \<and> (\<forall>e t' h' i. refHandle e (t, h) = Some (t', h') \<longrightarrow> 0 < h i \<longrightarrow> 0 < h' i \<longrightarrow> valueAt t' i = valueAt t i)"
proof -
  have start: "refsOf (startTable, \<lambda>_. 0) = Map.empty" by (rule ext) (simp add: refsOf_def)
  have inv: "tableInv t h" using refTable.run_inv [OF _ assms] tableInv_start by simp
  have steps: "refStep\<^sup>*\<^sup>* Map.empty (refsOf (t, h))" using refTable.run_abs [OF _ assms] tableInv_start start by simp
  have held: "valueAt t i = v \<and> tb_ids t v = Some i \<and> tb_counts t i = Some (Count (int n))" if "refsOf (t, h) i = Some (v, n)" for i v n
    by (rule refsOf_held [OF inv that])
  have keep: "valueAt t' i = valueAt t i" if "refHandle e (t, h) = Some (t', h')" "0 < h i" "0 < h' i" for e t' h' i
    by (rule refHandle_keeps [OF inv that])
  show ?thesis using steps held keep by (metis option.inject)
qed

theorem references_refine_witness:
  "\<exists>t h. runEvents refHandle [Take (VStr [97]), Take (VObj 2), Give 7, Take (VStr [98])] (startTable, \<lambda>_. 0) = Some (t, h)
     \<and> refsOf (t, h) 7 = Some (VStr [98], 1) \<and> refsOf (t, h) 8 = Some (VObj 2, 1) \<and> refStep\<^sup>*\<^sup>* Map.empty (refsOf (t, h))"
proof -
  let ?es = "[Take (VStr [97]), Take (VObj 2), Give 7, Take (VStr [98])]"
  obtain t h where r: "runEvents refHandle ?es (startTable, \<lambda>_. 0) = Some (t, h)"
    and "refsOf (t, h) 7 = Some (VStr [98], 1)" "refsOf (t, h) 8 = Some (VObj 2, 1)"
    by (simp add: startTable_def storeId_def finalizeId_def setAt_def valueAt_def refsOf_def)
  then show ?thesis using references_refine [OF r] by blast
qed

end
