(* ===== verification/Go_Glue.thy ===== *)
theory Go_Glue
  imports Go_Values
begin

unbundle bit_operations_syntax

text \<open>
  The functions that \<^verbatim>\<open>wasm_exec.js\<close> offers a Go program: the encoding of values and integers in its memory, and
  the import object with which it reaches JavaScript.

  An operation takes the state and returns it together with a result or the value thrown; the state is kept
  in both cases, as assignments made before a \<^verbatim>\<open>throw\<close> are. What lies outside the file is the record \<^verbatim>\<open>Host\<close>:
  the compiled Go program (\<^verbatim>\<open>resume\<close>, \<^verbatim>\<open>run\<close>, \<^verbatim>\<open>getsp\<close>), the \<^verbatim>\<open>Reflect\<close> operations on foreign objects, the decoder of
  text, clocks and random bytes. All of them may change the state, because a call from Go to
  JavaScript may call back into Go.
\<close>

section \<open>State\<close>

datatype consoleLine = Log jstr | LogValue gval | Warn jstr "int option"

record Go =
  g_mem :: "byte list" \<comment> \<open>the memory of the instance\<close>
  g_view :: bool \<comment> \<open>\<^verbatim>\<open>this.mem\<close> is a view of the current buffer; growing the memory detaches it\<close>
  g_table :: "Table option" \<comment> \<open>deleted, with \<^verbatim>\<open>_inst\<close>, at exit\<close>
  g_bytes :: "nat \<rightharpoonup> byte list" \<comment> \<open>the objects that are byte arrays\<close>
  g_nextObj :: nat
  g_errors :: "nat \<rightharpoonup> js_error"
  g_console :: "consoleLine list"
  g_outputBuf :: jstr
  g_pending :: "nat option" \<comment> \<open>\<^verbatim>\<open>_pendingEvent\<close>\<close>
  g_events :: "nat \<rightharpoonup> int \<times> gval \<times> gval list"
  g_scheduled :: "int list" \<comment> \<open>keys of \<^verbatim>\<open>_scheduledTimeouts\<close>\<close>
  g_timers :: "(int \<times> int) list" \<comment> \<open>timers of the browser not yet fired, with their delay\<close>
  g_nextTimeout :: int
  g_exited :: bool
  g_resolved :: bool \<comment> \<open>the promise of \<^verbatim>\<open>run\<close> is resolved\<close>

type_synonym 'a go = "Go \<Rightarrow> (gval + 'a) \<times> Go"

definition ret :: "'a \<Rightarrow> 'a go" where
  "ret x g = (Inr x, g)"

definition bindG :: "'a go \<Rightarrow> ('a \<Rightarrow> 'b go) \<Rightarrow> 'b go" where
  "bindG m f g = (case m g of (Inl e, g) \<Rightarrow> (Inl e, g) | (Inr x, g) \<Rightarrow> f x g)"

definition thenG :: "'a go \<Rightarrow> 'b go \<Rightarrow> 'b go" where
  "thenG m n = bindG m (\<lambda>_. n)"

definition tryG :: "'a go \<Rightarrow> (gval \<Rightarrow> 'a go) \<Rightarrow> 'a go" where
  "tryG m f g = (case m g of (Inl e, g) \<Rightarrow> f e g | (Inr x, g) \<Rightarrow> (Inr x, g))"

definition raiseG :: "js_error \<Rightarrow> 'a go" where
  "raiseG e g = (Inl (VObj (g_nextObj g)), g\<lparr>g_nextObj := Suc (g_nextObj g), g_errors := (g_errors g)(g_nextObj g \<mapsto> e)\<rparr>)"

definition liftG :: "'a res \<Rightarrow> 'a go" where
  "liftG r = (case r of Inl e \<Rightarrow> raiseG e | Inr x \<Rightarrow> ret x)"

definition getsG :: "(Go \<Rightarrow> 'a) \<Rightarrow> 'a go" where
  "getsG f g = (Inr (f g), g)"

definition modifyG :: "(Go \<Rightarrow> Go) \<Rightarrow> unit go" where
  "modifyG f g = (Inr (), f g)"

section \<open>Numbers in memory\<close>

definition toUint32 :: "jsnum \<Rightarrow> nat" where
  "toUint32 x = (case x of Fin q \<Rightarrow> nat (numTrunc q mod 2 ^ 32) | _ \<Rightarrow> 0)"

definition readView :: "int \<Rightarrow> nat \<Rightarrow> byte list go" where
  "readView addr k g =
     (if g_view g then liftG (viewGet (g_mem g) addr k) g else raiseG (TypeError ''detached ArrayBuffer'') g)"

definition writeView :: "int \<Rightarrow> byte list \<Rightarrow> unit go" where
  "writeView addr bs g =
     (if g_view g then bindG (liftG (viewSet (g_mem g) addr bs)) (\<lambda>m. modifyG (g_mem_update (\<lambda>_. m))) g
      else raiseG (TypeError ''detached ArrayBuffer'') g)"

definition getUint32 :: "int \<Rightarrow> nat go" where
  "getUint32 addr = bindG (readView addr 4) (\<lambda>bs. ret (leNat bs))"

definition signed32 :: "nat \<Rightarrow> int" where
  "signed32 n = (if n < 2 ^ 31 then int n else int n - 2 ^ 32)"

definition getInt32 :: "int \<Rightarrow> int go" where
  "getInt32 addr = bindG (getUint32 addr) (\<lambda>n. ret (signed32 n))"

definition getFloat64 :: "int \<Rightarrow> jsnum go" where
  "getFloat64 addr = bindG (readView addr 8) (\<lambda>bs. ret (float64Of (leNat bs)))"

definition setUint32 :: "int \<Rightarrow> nat \<Rightarrow> unit go" where
  "setUint32 addr n = writeView addr (leBytes 4 n)"

definition setUint8 :: "int \<Rightarrow> nat \<Rightarrow> unit go" where
  "setUint8 addr n = writeView addr (leBytes 1 n)"

definition setFloat64 :: "int \<Rightarrow> jsnum \<Rightarrow> unit go" where
  "setFloat64 addr x = writeView addr (leBytes 8 (float64Bits x))"

definition setInt64 :: "int \<Rightarrow> jsnum \<Rightarrow> unit go" where
  "setInt64 addr v =
     thenG (setUint32 (addr + 0) (toUint32 v))
       (setUint32 (addr + 4) (toUint32 (numFloor (numDiv v (Fin 4294967296)))))"

text \<open>An integer rounded to a double is an integer.\<close>

definition roundInt :: "int \<Rightarrow> int" where
  "roundInt z = \<lfloor>doubleOf (of_int z)\<rfloor>"

definition getInt64 :: "int \<Rightarrow> int go" where
  "getInt64 addr =
     bindG (getUint32 (addr + 0)) (\<lambda>low.
     bindG (getInt32 (addr + 4)) (\<lambda>high.
     ret (roundInt (int low + high * 4294967296))))"

section \<open>Values in memory\<close>

definition theTable :: "Table go" where
  "theTable g = (case g_table g of Some t \<Rightarrow> (Inr t, g) | None \<Rightarrow> raiseG (TypeError ''undefined'') g)"

definition loadValue :: "int \<Rightarrow> gval go" where
  "loadValue addr =
     bindG (getFloat64 addr) (\<lambda>f.
       if f = Fin 0 then ret VUndef
       else if f \<noteq> NaN then ret (VNum f)
       else bindG (getUint32 addr) (\<lambda>i. bindG theTable (\<lambda>t. ret (valueAt t i))))"

definition nanHead :: nat where
  "nanHead = 0x7FF80000"

definition typeFlag :: "gval \<Rightarrow> nat" where
  "typeFlag v = (case v of VObj _ \<Rightarrow> 1 | VStr _ \<Rightarrow> 2 | VSym _ \<Rightarrow> 3 | VFun _ \<Rightarrow> 4 | _ \<Rightarrow> 0)"

definition storeRef :: "int \<Rightarrow> gval \<Rightarrow> unit go" where
  "storeRef addr v =
     bindG theTable (\<lambda>t.
       let (i, t) = storeId v t
       in thenG (modifyG (g_table_update (\<lambda>_. Some t)))
            (thenG (setUint32 (addr + 4) (nanHead OR typeFlag v)) (setUint32 addr i)))"

definition storeValue :: "int \<Rightarrow> gval \<Rightarrow> unit go" where
  "storeValue addr v =
     (case v of
        VNum n \<Rightarrow>
          if n = Fin 0 then storeRef addr v
          else if n = NaN then thenG (setUint32 (addr + 4) nanHead) (setUint32 addr 0)
          else setFloat64 addr n
      | VUndef \<Rightarrow> setFloat64 addr (Fin 0)
      | _ \<Rightarrow> storeRef addr v)"

text \<open>A slice is a range of the memory, checked when it is made.\<close>

definition bufferRange :: "int \<Rightarrow> int \<Rightarrow> (nat \<times> nat) go" where
  "bufferRange start len =
     thenG theTable
       (bindG (getsG g_mem) (\<lambda>m.
          if 0 \<le> start \<and> 0 \<le> len \<and> start + len \<le> int (length m) then ret (nat start, nat len)
          else raiseG (RangeError ''offset is out of bounds'')))"

definition loadSlice :: "int \<Rightarrow> (nat \<times> nat) go" where
  "loadSlice addr =
     bindG (getInt64 (addr + 0)) (\<lambda>start. bindG (getInt64 (addr + 8)) (\<lambda>len. bufferRange start len))"

definition sliceBytes :: "nat \<times> nat \<Rightarrow> byte list go" where
  "sliceBytes s = getsG (\<lambda>g. take (snd s) (drop (fst s) (g_mem g)))"

text \<open>\<^verbatim>\<open>slice.set(bytes)\<close>.\<close>

definition fillSlice :: "nat \<times> nat \<Rightarrow> byte list \<Rightarrow> unit go" where
  "fillSlice s bs =
     (if length bs \<le> snd s
      then modifyG (\<lambda>g. g\<lparr>g_mem := take (fst s) (g_mem g) @ bs @ drop (fst s + length bs) (g_mem g)\<rparr>)
      else raiseG (RangeError ''offset is out of bounds''))"

fun loadValues :: "int \<Rightarrow> nat \<Rightarrow> gval list go" where
  "loadValues addr 0 = ret []"
| "loadValues addr (Suc n) = bindG (loadValue addr) (\<lambda>v. bindG (loadValues (addr + 8) n) (\<lambda>vs. ret (v # vs)))"

definition loadSliceOfValues :: "int \<Rightarrow> gval list go" where
  "loadSliceOfValues addr =
     bindG (getInt64 (addr + 0)) (\<lambda>start. bindG (getInt64 (addr + 8)) (\<lambda>len.
       if 0 \<le> len \<and> len < 2 ^ 32 then loadValues start (nat len)
       else raiseG (RangeError ''Invalid array length'')))"

section \<open>Rules for the operations\<close>

named_theorems go_simps \<open>evaluation of the operations of the glue\<close>

lemma bind_simps [go_simps]:
  "bindG m f g = (case m g of (Inl e, g) \<Rightarrow> (Inl e, g) | (Inr x, g) \<Rightarrow> f x g)"
  "thenG m n g = (case m g of (Inl e, g) \<Rightarrow> (Inl e, g) | (Inr x, g) \<Rightarrow> n g)"
  "ret x g = (Inr x, g)" "getsG sel g = (Inr (sel g), g)" "modifyG upd g = (Inr (), upd g)" "liftG (Inr y) = ret y"
  by (simp_all add: bindG_def thenG_def ret_def getsG_def modifyG_def liftG_def)

lemma readView_ok [go_simps]: "g_view g \<Longrightarrow> viewGet (g_mem g) a k = Inr bs \<Longrightarrow> readView a k g = (Inr bs, g)"
  by (simp add: readView_def go_simps)

lemma writeView_ok [go_simps]:
  "g_view g \<Longrightarrow> viewSet (g_mem g) a bs = Inr m \<Longrightarrow> writeView a bs g = (Inr (), g\<lparr>g_mem := m\<rparr>)"
  by (simp add: writeView_def go_simps)

text \<open>Two words written to different places.\<close>

lemma two_words:
  assumes "g_view g" and "inside (g_mem g) p 4" and "inside (g_mem g) q 4" and "p + 4 \<le> q \<or> q + 4 \<le> p"
  obtains m where "thenG (setUint32 p u) (setUint32 q v) g = (Inr (), g\<lparr>g_mem := m\<rparr>)" "length m = length (g_mem g)"
    "viewGet m p 4 = Inr (leBytes 4 u)" "viewGet m q 4 = Inr (leBytes 4 v)"
    "\<forall>b k. (b + int k \<le> p \<or> p + 4 \<le> b) \<and> (b + int k \<le> q \<or> q + 4 \<le> b) \<longrightarrow> viewGet m b k = viewGet (g_mem g) b k"
proof -
  obtain m1 where m1: "viewSet (g_mem g) p (leBytes 4 u) = Inr m1"
    using view.put_total [of p "leBytes 4 u" "g_mem g"] assms(2) by (auto simp: inside_def)
  have l1: "length m1 = length (g_mem g)" using view.put_size [OF m1] .
  obtain m2 where m2: "viewSet m1 q (leBytes 4 v) = Inr m2"
    using view.put_total [of q "leBytes 4 v" m1] assms(3) l1 by (auto simp: inside_def)
  show thesis
  proof
    show "thenG (setUint32 p u) (setUint32 q v) g = (Inr (), g\<lparr>g_mem := m2\<rparr>)" using assms(1) m1 m2 by (simp add: go_simps setUint32_def)
    show "length m2 = length (g_mem g)" using view.put_size [OF m2] l1 by simp
    show "viewGet m2 p 4 = Inr (leBytes 4 u)" using view.get_other [OF m2, of p 4] view.get_put [OF m1] assms(4) by auto
    show "viewGet m2 q 4 = Inr (leBytes 4 v)" using view.get_put [OF m2] by simp
    show "\<forall>b k. (b + int k \<le> p \<or> p + 4 \<le> b) \<and> (b + int k \<le> q \<or> q + 4 \<le> b) \<longrightarrow> viewGet m2 b k = viewGet (g_mem g) b k"
      using view.get_other [OF m1] view.get_other [OF m2] by (metis length_leBytes of_nat_numeral)
  qed
qed

lemma eight_bytes:
  assumes "viewGet m a 4 = Inr xs" and "viewGet m (a + 4) 4 = Inr ys"
  shows "viewGet m a 8 = Inr (xs @ ys)"
  using view.get_split [of m a 4 4] assms by simp

section \<open>Integers\<close>

lemma roundInt_exact: "\<bar>z\<bar> \<le> 2 ^ 53 \<Longrightarrow> roundInt z = z"
  by (simp add: roundInt_def)

lemma toUint32_of_int: "toUint32 (Fin (of_int z)) = nat (z mod 2 ^ 32)"
  by (simp add: toUint32_def)

lemma isDouble_scaled: "\<bar>z\<bar> \<le> 2 ^ 53 \<Longrightarrow> isDouble (of_int z / 4294967296)"
proof (cases "\<bar>z\<bar> = 2 ^ 53")
  case True
  then obtain c :: int where c: "z = c * 2 ^ 53" "\<bar>c\<bar> \<le> 1" by (cases "0 \<le> z") (auto intro: that [of 1] that [of "- 1"])
  have "rat_of_int z / 4294967296 = of_int (c * 2 ^ 21) * 2 powi 0" by (simp add: c(1))
  moreover have "\<bar>c * 2 ^ 21\<bar> < 2 ^ 53" using c(2) by (simp add: abs_mult)
  ultimately show ?thesis unfolding isDouble_def by (intro exI [of _ "c * 2 ^ 21"] exI [of _ 0]) simp
next
  case False
  assume "\<bar>z\<bar> \<le> 2 ^ 53"
  then have "\<bar>z\<bar> < 2 ^ 53" using False by simp
  moreover have "rat_of_int z / 4294967296 = of_int z * 2 powi (- 32)" by (simp add: power_int_minus inverse_eq_divide)
  ultimately show ?thesis unfolding isDouble_def by (intro exI [of _ z] exI [of _ "- 32"]) simp
qed

lemma high_word:
  assumes "\<bar>z\<bar> \<le> 2 ^ 53"
  shows "numFloor (numDiv (Fin (of_int z)) (Fin 4294967296)) = Fin (of_int (z div 2 ^ 32))"
proof -
  have d: "doubleOf (of_int z / 4294967296) = of_int z / 4294967296" by (intro doubleOf_exact isDouble_scaled assms)
  have "rat_of_int \<bar>z\<bar> \<le> of_int (2 ^ 53)" using assms by (simp only: of_int_le_iff)
  then have "\<bar>of_int z / 4294967296 :: rat\<bar> < 2 ^ 1024" by simp
  then have "numDiv (Fin (of_int z)) (Fin 4294967296) = Fin (of_int z / 4294967296)" by (simp add: toDouble_def d)
  then show ?thesis by (simp add: numFloor_def floor_divide_of_int_eq [of z 4294967296, where ?'a = rat, simplified])
qed

text \<open>What an address holds, as the Go program would read it.\<close>

definition int64At :: "byte list \<Rightarrow> int \<Rightarrow> int \<Rightarrow> bool" where
  "int64At m a z \<longleftrightarrow> viewGet m a 4 = Inr (leBytes 4 (nat (z mod 2 ^ 32))) \<and> viewGet m (a + 4) 4 = Inr (leBytes 4 (nat (z div 2 ^ 32 mod 2 ^ 32)))"

lemma signed32_word: "- (2 ^ 31) \<le> y \<Longrightarrow> y < 2 ^ 31 \<Longrightarrow> signed32 (nat (y mod 2 ^ 32)) = y"
proof (cases "0 \<le> y")
  case False
  assume "- (2 ^ 31) \<le> y"
  moreover have "(y + 2 ^ 32) mod 2 ^ 32 = y + 2 ^ 32" using False \<open>- (2 ^ 31) \<le> y\<close> by (intro mod_pos_pos_trivial) auto
  then have "y mod 2 ^ 32 = y + 2 ^ 32" by simp
  ultimately show ?thesis using False by (simp add: signed32_def nat_less_iff)
qed (simp add: signed32_def nat_less_iff)

lemma getInt64_read:
  assumes "g_view g" and "int64At (g_mem g) a z" and "\<bar>z\<bar> \<le> 2 ^ 53"
  shows "getInt64 a g = (Inr z, g)"
proof -
  have "\<bar>z div 2 ^ 32\<bar> \<le> 2 ^ 21" using assms(3) by (auto simp: abs_le_iff) 
  then have hi: "signed32 (nat (z div 2 ^ 32 mod 2 ^ 32)) = z div 2 ^ 32" by (intro signed32_word) auto
  have "int (nat (z mod 2 ^ 32)) + z div 2 ^ 32 * 4294967296 = z" by simp
  then show ?thesis
    using assms hi roundInt_exact [OF assms(3)] by (simp add: getInt64_def getUint32_def getInt32_def int64At_def go_simps nat_less_iff)
qed

lemma setInt64_stores:
  assumes "g_view g" and "inside (g_mem g) a 8" and "\<bar>z\<bar> \<le> 2 ^ 53"
  obtains m where "setInt64 a (Fin (of_int z)) g = (Inr (), g\<lparr>g_mem := m\<rparr>)" "length m = length (g_mem g)" "int64At m a z"
    "\<forall>b k. b + int k \<le> a \<or> a + 8 \<le> b \<longrightarrow> viewGet m b k = viewGet (g_mem g) b k"
proof -
  have i: "inside (g_mem g) a 4" "inside (g_mem g) (a + 4) 4" using assms(2) by (auto simp: inside_def)
  obtain m where m: "thenG (setUint32 a (nat (z mod 2 ^ 32))) (setUint32 (a + 4) (nat (z div 2 ^ 32 mod 2 ^ 32))) g = (Inr (), g\<lparr>g_mem := m\<rparr>)"
    "length m = length (g_mem g)" "viewGet m a 4 = Inr (leBytes 4 (nat (z mod 2 ^ 32)))"
    "viewGet m (a + 4) 4 = Inr (leBytes 4 (nat (z div 2 ^ 32 mod 2 ^ 32)))"
    "\<forall>b k. (b + int k \<le> a \<or> a + 4 \<le> b) \<and> (b + int k \<le> a + 4 \<or> a + 4 + 4 \<le> b) \<longrightarrow> viewGet m b k = viewGet (g_mem g) b k"
    using two_words [OF assms(1) i] by (metis order_refl)
  show thesis
  proof
    show "setInt64 a (Fin (of_int z)) g = (Inr (), g\<lparr>g_mem := m\<rparr>)"
      using m(1) high_word [OF assms(3)] by (simp add: setInt64_def toUint32_of_int)
    show "int64At m a z" using m(3,4) by (simp add: int64At_def)
    show "\<forall>b k. b + int k \<le> a \<or> a + 8 \<le> b \<longrightarrow> viewGet m b k = viewGet (g_mem g) b k" using m(5) by auto
  qed (rule m(2))
qed

section \<open>Boxed references\<close>

lemma typeFlag_less: "typeFlag v < 5"
  by (cases v) (simp_all add: typeFlag_def)

lemma nanHead_or: "nanHead OR typeFlag v = 0x7FF80000 + typeFlag v"
  by (cases v) (simp_all add: typeFlag_def nanHead_def)

text \<open>A word with the head of a quiet NaN is NaN whatever number is boxed in it.\<close>

lemma boxed_NaN:
  assumes "i < 2 ^ 32" and "c < 5"
  shows "float64Of (leNat (leBytes 4 i @ leBytes 4 (0x7FF80000 + c))) = NaN"
proof -
  define f where "f = i + (0x80000 + c) * 2 ^ 32"
  have "(0x80000 + c) * 2 ^ 32 \<le> 0x80004 * 2 ^ 32" using assms(2) by (intro mult_le_mono1) simp
  then have f: "f < 2 ^ 52" "f \<noteq> 0" using assms(1) by (simp_all add: f_def)
  have w: "(0x7FF80000 + c) mod 2 ^ 32 = 0x7FF80000 + c" using assms(2) by (intro mod_less) simp
  have "leNat (leBytes 4 i @ leBytes 4 (0x7FF80000 + c)) = i + 2 ^ 32 * (0x7FF80000 + c)"
    using assms(1) w by (simp add: leNat_append)
  also have "\<dots> = 2047 * 2 ^ 52 + f + (if False then 2 ^ 63 else 0)" by (simp add: f_def)
  finally show ?thesis using float64_fields [of 2047 f False] f by (simp add: float64Of_def Let_def)
qed

text \<open>What an address holds, as \<^verbatim>\<open>loadValue\<close> sees it.\<close>

definition holds :: "Go \<Rightarrow> int \<Rightarrow> gval \<Rightarrow> bool" where
  "holds g a v \<longleftrightarrow> loadValue a g = (Inr v, g)"

lemma loadValue_number:
  assumes "g_view g" and "viewGet (g_mem g) a 8 = Inr (leBytes 8 (float64Bits x))" and "representable x" and "x \<noteq> NaN"
  shows "holds g a (if x = Fin 0 then VUndef else VNum x)"
proof -
  have "float64Bits x < 256 ^ 8" using float64_round_trip(2) [OF assms(3)] by simp
  then have "getFloat64 a g = (Inr x, g)" using assms(1,2) float64_round_trip(1) [OF assms(3)] by (simp add: getFloat64_def go_simps)
  then show ?thesis using assms(4) by (simp add: holds_def loadValue_def go_simps)
qed

lemma loadValue_ref:
  assumes "g_view g" and "viewGet (g_mem g) a 4 = Inr (leBytes 4 i)" and "viewGet (g_mem g) (a + 4) 4 = Inr (leBytes 4 (0x7FF80000 + c))"
    and "i < 2 ^ 32" and "c < 5" and "g_table g = Some t"
  shows "holds g a (valueAt t i)"
proof -
  have "getFloat64 a g = (Inr NaN, g)"
    using boxed_NaN [OF assms(4,5)] eight_bytes [OF assms(2,3)] assms(1) by (simp add: getFloat64_def go_simps)
  then show ?thesis using assms by (simp add: holds_def loadValue_def getUint32_def theTable_def go_simps)
qed

text \<open>The conditions under which the glue works as intended: the view is attached, the program has not exited, the
  table is as the program's references say, and its numbers fit into a word.\<close>

definition ready :: "Go \<Rightarrow> Table \<Rightarrow> holding \<Rightarrow> bool" where
  "ready g t h \<longleftrightarrow> g_view g \<and> g_table g = Some t \<and> tableInv t h \<and> length (tb_values t) < 2 ^ 32"

definition storable :: "gval \<Rightarrow> bool" where
  "storable v \<longleftrightarrow> (case v of VNum x \<Rightarrow> representable x | _ \<Rightarrow> True)"

definition isRef :: "gval \<Rightarrow> bool" where
  "isRef v \<longleftrightarrow> (case v of VUndef \<Rightarrow> False | VNum x \<Rightarrow> x = Fin 0 | _ \<Rightarrow> True)"

lemma storeRef_stores:
  assumes "ready g t h" and "inside (g_mem g) a 8"
  obtains m t' i where "storeRef a v g = (Inr (), g\<lparr>g_table := Some t', g_mem := m\<rparr>)" "storeId v t = (i, t')"
    "holds (g\<lparr>g_table := Some t', g_mem := m\<rparr>) a v" "length m = length (g_mem g)"
    "\<forall>b k. b + int k \<le> a \<or> a + 8 \<le> b \<longrightarrow> viewGet m b k = viewGet (g_mem g) b k"
    "i < 2 ^ 32" "viewGet m a 8 = Inr (leBytes 4 i @ leBytes 4 (nanHead + typeFlag v))"
proof -
  obtain i t' where s: "storeId v t = (i, t')" by (cases "storeId v t")
  have r: "g_view g" "g_table g = Some t" "tableInv t h" "length (tb_values t) < 2 ^ 32" using assms(1) by (simp_all add: ready_def)
  note S = storeId_inv [OF r(3) s]
  have "i \<le> length (tb_values t)"
    using s freshId_free(2) [OF r(3)] storeId_new [of t v] storeId_known [of t v] tableInvD(7) [OF r(3)]
    by (cases "tb_ids t v") (auto simp: less_imp_le)
  then have i: "i < 2 ^ 32" using r(4) by simp
  let ?g = "g\<lparr>g_table := Some t'\<rparr>"
  have w: "g_view ?g" "inside (g_mem ?g) (a + 4) 4" "inside (g_mem ?g) a 4" "a + 4 + 4 \<le> a \<or> a + 4 \<le> a + 4"
    using assms(2) r(1) by (auto simp: inside_def)
  obtain m where m: "thenG (setUint32 (a + 4) (nanHead OR typeFlag v)) (setUint32 a i) ?g = (Inr (), ?g\<lparr>g_mem := m\<rparr>)"
    "length m = length (g_mem ?g)" "viewGet m (a + 4) 4 = Inr (leBytes 4 (nanHead OR typeFlag v))" "viewGet m a 4 = Inr (leBytes 4 i)"
    "\<forall>b k. (b + int k \<le> a + 4 \<or> a + 4 + 4 \<le> b) \<and> (b + int k \<le> a \<or> a + 4 \<le> b) \<longrightarrow> viewGet m b k = viewGet (g_mem ?g) b k"
    by (rule two_words [OF w])
  show thesis
  proof
    show "storeRef a v g = (Inr (), g\<lparr>g_table := Some t', g_mem := m\<rparr>)"
      using m(1) r(2) s by (simp add: storeRef_def theTable_def bindG_def thenG_def [of "modifyG _"] modifyG_def)
    show "holds (g\<lparr>g_table := Some t', g_mem := m\<rparr>) a v"
      using loadValue_ref [of "g\<lparr>g_table := Some t', g_mem := m\<rparr>" a i "typeFlag v" t'] m(3,4) i r(1) S(2) typeFlag_less by (simp add: nanHead_or)
    show "\<forall>b k. b + int k \<le> a \<or> a + 8 \<le> b \<longrightarrow> viewGet m b k = viewGet (g_mem g) b k" using m(5) by auto
    show "viewGet m a 8 = Inr (leBytes 4 i @ leBytes 4 (nanHead + typeFlag v))"
      using eight_bytes [OF m(4,3)] nanHead_or by (simp add: nanHead_def)
  qed (use s m(2) i in simp_all)
qed

lemma valueAt_NaN: "tableInv t h \<Longrightarrow> valueAt t 0 = VNum NaN"
proof -
  assume inv: "tableInv t h"
  have "tb_values t ! 0 = take 7 (tb_values t) ! 0" by simp
  then show ?thesis using tableInvD(1,2) [OF inv] by (auto simp: valueAt_def startTable_def)
qed

lemma setFloat64_stores:
  assumes "g_view g" and "inside (g_mem g) a 8" and "representable x" and "x \<noteq> NaN"
  obtains m where "setFloat64 a x g = (Inr (), g\<lparr>g_mem := m\<rparr>)" "holds (g\<lparr>g_mem := m\<rparr>) a (if x = Fin 0 then VUndef else VNum x)"
    "length m = length (g_mem g)" "\<forall>b k. b + int k \<le> a \<or> a + 8 \<le> b \<longrightarrow> viewGet m b k = viewGet (g_mem g) b k"
    "viewGet m a 8 = Inr (leBytes 8 (float64Bits x))"
proof -
  obtain m where m: "viewSet (g_mem g) a (leBytes 8 (float64Bits x)) = Inr m"
    using view.put_total [of a "leBytes 8 (float64Bits x)" "g_mem g"] assms(2) by (auto simp: inside_def)
  show thesis
  proof
    show "setFloat64 a x g = (Inr (), g\<lparr>g_mem := m\<rparr>)" using assms(1) m by (simp add: setFloat64_def go_simps)
    show "holds (g\<lparr>g_mem := m\<rparr>) a (if x = Fin 0 then VUndef else VNum x)"
      using view.get_put [OF m] assms by (intro loadValue_number) simp_all
    show "\<forall>b k. b + int k \<le> a \<or> a + 8 \<le> b \<longrightarrow> viewGet m b k = viewGet (g_mem g) b k" using view.get_other [OF m] by simp
    show "viewGet m a 8 = Inr (leBytes 8 (float64Bits x))" using view.get_put [OF m] by simp
  qed (use view.put_size [OF m] in simp)
qed

lemma storeValue_ref: "isRef v \<Longrightarrow> storeValue a v = storeRef a v"
  by (cases v) (auto simp: isRef_def storeValue_def)

text \<open>Storing a value: the place then holds it, the rest of the memory and every value still referred to are as before,
  and the references are counted.\<close>

lemma storeValue_stores:
  assumes "ready g t h" and "inside (g_mem g) a 8" and "storable v"
  obtains m t' h' where "storeValue a v g = (Inr (), g\<lparr>g_table := Some t', g_mem := m\<rparr>)" "holds (g\<lparr>g_table := Some t', g_mem := m\<rparr>) a v"
    "length m = length (g_mem g)" "\<forall>b k. b + int k \<le> a \<or> a + 8 \<le> b \<longrightarrow> viewGet m b k = viewGet (g_mem g) b k"
    "tableInv t' h'" "\<forall>j. live h j \<longrightarrow> valueAt t' j = valueAt t j"
    "if isRef v then \<exists>i. storeId v t = (i, t') \<and> h' = h(i := Suc (h i)) else t' = t \<and> h' = h"
proof -
  have r: "g_view g" "g_table g = Some t" "tableInv t h" using assms(1) by (simp_all add: ready_def)
  have same: "g\<lparr>g_table := Some t, g_mem := m\<rparr> = g\<lparr>g_mem := m\<rparr>" for m using r(2) by (cases g) simp
  show thesis
  proof (cases "isRef v")
    case True
    obtain m t' i where m: "storeRef a v g = (Inr (), g\<lparr>g_table := Some t', g_mem := m\<rparr>)" "storeId v t = (i, t')"
      "holds (g\<lparr>g_table := Some t', g_mem := m\<rparr>) a v" "length m = length (g_mem g)"
      "\<forall>b k. b + int k \<le> a \<or> a + 8 \<le> b \<longrightarrow> viewGet m b k = viewGet (g_mem g) b k"
      "i < 2 ^ 32" "viewGet m a 8 = Inr (leBytes 4 i @ leBytes 4 (nanHead + typeFlag v))"
      by (rule storeRef_stores [OF assms(1,2)])
    show thesis
      using that [of m t' "h(i := Suc (h i))"] m storeId_inv(1,4) [OF r(3) m(2)] True storeValue_ref [OF True] by auto
  next
    case False
    show thesis
    proof (cases "v = VNum NaN")
      case True
      have w: "inside (g_mem g) (a + 4) 4" "inside (g_mem g) a 4" "a + 4 + 4 \<le> a \<or> a + 4 \<le> a + 4" using assms(2) by (auto simp: inside_def)
      obtain m where m: "thenG (setUint32 (a + 4) nanHead) (setUint32 a 0) g = (Inr (), g\<lparr>g_mem := m\<rparr>)" "length m = length (g_mem g)"
        "viewGet m (a + 4) 4 = Inr (leBytes 4 nanHead)" "viewGet m a 4 = Inr (leBytes 4 0)"
        "\<forall>b k. (b + int k \<le> a + 4 \<or> a + 4 + 4 \<le> b) \<and> (b + int k \<le> a \<or> a + 4 \<le> b) \<longrightarrow> viewGet m b k = viewGet (g_mem g) b k"
        by (rule two_words [OF r(1) w])
      have "holds (g\<lparr>g_mem := m\<rparr>) a (valueAt t 0)"
        using m(3,4) r by (intro loadValue_ref [where c = 0]) (simp_all add: nanHead_def)
      then have "holds (g\<lparr>g_mem := m\<rparr>) a v" using True valueAt_NaN [OF r(3)] by simp
      moreover have "storeValue a v g = (Inr (), g\<lparr>g_mem := m\<rparr>)" using m(1) True by (simp add: storeValue_def)
      moreover have "\<forall>b k. b + int k \<le> a \<or> a + 8 \<le> b \<longrightarrow> viewGet m b k = viewGet (g_mem g) b k" using m(5) by auto
      ultimately show thesis using that [of m t h] m(2) r(3) False same by simp
    next
      case n: False
      define x where "x = (case v of VNum y \<Rightarrow> y | _ \<Rightarrow> Fin 0)"
      have "representable (Fin 0)" using isDouble_of_int [of 0] by (simp add: representable_def)
      then have x: "representable x" "x \<noteq> NaN" "(if x = Fin 0 then VUndef else VNum x) = v" "storeValue a v = setFloat64 a x"
        using n False assms(3) by (cases v; auto simp: x_def isRef_def storable_def storeValue_def)+
      obtain m where "setFloat64 a x g = (Inr (), g\<lparr>g_mem := m\<rparr>)" "holds (g\<lparr>g_mem := m\<rparr>) a (if x = Fin 0 then VUndef else VNum x)"
        "length m = length (g_mem g)" "\<forall>b k. b + int k \<le> a \<or> a + 8 \<le> b \<longrightarrow> viewGet m b k = viewGet (g_mem g) b k"
        "viewGet m a 8 = Inr (leBytes 8 (float64Bits x))"
        by (rule setFloat64_stores [OF r(1) assms(2) x(1,2)])
      then show thesis using that [of m t h] r(3) False same x(3,4) by simp
    qed
  qed
qed

section \<open>Correctness\<close>

text \<open>\<^bold>\<open>C8.\<close> Values between JavaScript and Go: any value can be stored wherever eight bytes are free, and loading it
  gives the same value (numbers, NaN, zero, undefined and references alike). Nothing else in memory changes, the references of the program
  are counted, and whatever it already refers to keeps its value.\<close>

theorem values_round_trip:
  assumes "ready g t h" and "inside (g_mem g) a 8" and "storable v"
  shows "\<exists>g' t' h'. storeValue a v g = (Inr (), g') \<and> loadValue a g' = (Inr v, g')
    \<and> g_table g' = Some t' \<and> tableInv t' h' \<and> (\<forall>j. live h j \<longrightarrow> valueAt t' j = valueAt t j)
    \<and> (if isRef v then \<exists>i. h' = h(i := Suc (h i)) \<and> valueAt t' i = v else h' = h)
    \<and> (\<forall>b k. b + int k \<le> a \<or> a + 8 \<le> b \<longrightarrow> viewGet (g_mem g') b k = viewGet (g_mem g) b k)"
proof -
  obtain m t' h' where m: "storeValue a v g = (Inr (), g\<lparr>g_table := Some t', g_mem := m\<rparr>)" "holds (g\<lparr>g_table := Some t', g_mem := m\<rparr>) a v"
    "length m = length (g_mem g)" "\<forall>b k. b + int k \<le> a \<or> a + 8 \<le> b \<longrightarrow> viewGet m b k = viewGet (g_mem g) b k"
    "tableInv t' h'" "\<forall>j. live h j \<longrightarrow> valueAt t' j = valueAt t j"
    "if isRef v then \<exists>i. storeId v t = (i, t') \<and> h' = h(i := Suc (h i)) else t' = t \<and> h' = h"
    by (rule storeValue_stores [OF assms])
  have "if isRef v then \<exists>i. h' = h(i := Suc (h i)) \<and> valueAt t' i = v else h' = h"
    using m(7) assms(1) storeId_inv(2) [of t h v _ t'] by (auto simp: ready_def split: if_splits)
  then show ?thesis using m(1,2,4-6)
    by (intro exI [of _ "g\<lparr>g_table := Some t', g_mem := m\<rparr>"] exI [of _ t'] exI [of _ h']) (simp add: holds_def)
qed

definition blankGo :: Go where
  "blankGo = \<lparr>g_mem = [], g_view = True, g_table = Some startTable, g_bytes = Map.empty, g_nextObj = 2, g_errors = Map.empty,
     g_console = [], g_outputBuf = [], g_pending = None, g_events = Map.empty, g_scheduled = [], g_timers = [], g_nextTimeout = 1,
     g_exited = False, g_resolved = False\<rparr>"

lemma ready_blank: "ready (blankGo\<lparr>g_mem := m\<rparr>) startTable (\<lambda>_. 0)"
  using tableInv_start by (simp add: ready_def blankGo_def) (simp add: startTable_def)

theorem values_round_trip_witness:
  "\<exists>g'. storeValue 8 (VStr [104, 105]) (blankGo\<lparr>g_mem := replicate 64 0\<rparr>) = (Inr (), g') \<and> loadValue 8 g' = (Inr (VStr [104, 105]), g')"
  using values_round_trip [OF ready_blank, of "replicate 64 0" 8 "VStr [104, 105]"] by (auto simp: inside_def blankGo_def storable_def)

text \<open>\<^bold>\<open>C20.\<close> Integers of 64 bits: every integer a double holds exactly, negative ones included, is stored and read back. A negative
  fraction is not rounded but torn apart: the low word is cut towards zero and the high word is rounded down, and half a second
  before 1970 reads as \<open>-2\<^sup>3\<^sup>2\<close> seconds.\<close>

theorem int64_round_trip:
  assumes "g_view g" and "inside (g_mem g) a 8"
  shows "(\<bar>z\<bar> \<le> 2 ^ 53 \<longrightarrow>
      (\<exists>g'. setInt64 a (Fin (of_int z)) g = (Inr (), g') \<and> getInt64 a g' = (Inr z, g')
        \<and> (\<forall>b k. b + int k \<le> a \<or> a + 8 \<le> b \<longrightarrow> viewGet (g_mem g') b k = viewGet (g_mem g) b k)))
    \<and> (\<exists>g'. setInt64 a (Fin (- 1 / 2)) g = (Inr (), g') \<and> getInt64 a g' = (Inr (- (2 ^ 32)), g'))"
proof (intro conjI impI)
  assume z: "\<bar>z\<bar> \<le> 2 ^ 53"
  obtain m where m: "setInt64 a (Fin (of_int z)) g = (Inr (), g\<lparr>g_mem := m\<rparr>)" "length m = length (g_mem g)" "int64At m a z"
    "\<forall>b k. b + int k \<le> a \<or> a + 8 \<le> b \<longrightarrow> viewGet m b k = viewGet (g_mem g) b k"
    by (rule setInt64_stores [OF assms z])
  show "\<exists>g'. setInt64 a (Fin (of_int z)) g = (Inr (), g') \<and> getInt64 a g' = (Inr z, g')
        \<and> (\<forall>b k. b + int k \<le> a \<or> a + 8 \<le> b \<longrightarrow> viewGet (g_mem g') b k = viewGet (g_mem g) b k)"
    using m getInt64_read [of "g\<lparr>g_mem := m\<rparr>" a z] assms(1) z by (intro exI [of _ "g\<lparr>g_mem := m\<rparr>"]) simp
next
  have "isDouble (- 1 / 2 / 4294967296)" unfolding isDouble_def
    by (rule exI [of _ "- 1"], rule exI [of _ "- 33"]) (simp add: power_int_minus inverse_eq_divide)
  then have "numDiv (Fin (- 1 / 2)) (Fin 4294967296) = Fin (- 1 / 2 / 4294967296)" by (simp add: doubleOf_exact toDouble_def)
  moreover have "\<lfloor>- 1 / 2 / 4294967296 :: rat\<rfloor> = - 1" by (rule floor_unique) simp_all
  ultimately have hi: "toUint32 (numFloor (numDiv (Fin (- 1 / 2)) (Fin 4294967296))) = 4294967295"
    by (simp add: numFloor_def toUint32_def numTrunc_def)
  have "\<lfloor>1 / 2 :: rat\<rfloor> = 0" by (rule floor_unique) simp_all
  then have lo: "toUint32 (Fin (- 1 / 2)) = 0" by (simp add: toUint32_def numTrunc_def)
  have i: "inside (g_mem g) a 4" "inside (g_mem g) (a + 4) 4" "a + 4 \<le> a + 4 \<or> a + 4 + 4 \<le> a" using assms(2) by (auto simp: inside_def)
  obtain m where m: "thenG (setUint32 a 0) (setUint32 (a + 4) 4294967295) g = (Inr (), g\<lparr>g_mem := m\<rparr>)"
    "length m = length (g_mem g)" "viewGet m a 4 = Inr (leBytes 4 0)" "viewGet m (a + 4) 4 = Inr (leBytes 4 4294967295)"
    "\<forall>b k. (b + int k \<le> a \<or> a + 4 \<le> b) \<and> (b + int k \<le> a + 4 \<or> a + 4 + 4 \<le> b) \<longrightarrow> viewGet m b k = viewGet (g_mem g) b k"
    by (rule two_words [OF assms(1) i])
  have "setInt64 a (Fin (- 1 / 2)) g = (Inr (), g\<lparr>g_mem := m\<rparr>)" using m(1) hi lo by (simp add: setInt64_def)
  moreover have "int64At m a (- (2 ^ 32))" using m(3,4) by (simp add: int64At_def)
  then have "getInt64 a (g\<lparr>g_mem := m\<rparr>) = (Inr (- (2 ^ 32)), g\<lparr>g_mem := m\<rparr>)" using assms(1) by (intro getInt64_read) simp_all
  ultimately show "\<exists>g'. setInt64 a (Fin (- 1 / 2)) g = (Inr (), g') \<and> getInt64 a g' = (Inr (- (2 ^ 32)), g')" by blast
qed

theorem int64_round_trip_witness:
  "\<exists>g'. setInt64 8 (Fin (- 5000000000)) (blankGo\<lparr>g_mem := replicate 64 0\<rparr>) = (Inr (), g') \<and> getInt64 8 g' = (Inr (- 5000000000), g')"
  using int64_round_trip [of "blankGo\<lparr>g_mem := replicate 64 0\<rparr>" 8 "- 5000000000"] by (auto simp: inside_def blankGo_def)

end
