(* ===== verification/Go_Types.thy ===== *)
theory Go_Types
  imports Go_Glue
begin

text \<open>
  The types of the values handed to Go (\<^verbatim>\<open>wasm_exec.js\<close>): the two words \<^verbatim>\<open>storeValue\<close> writes carry the JavaScript type of the value, in the
  bits of a double, in the head of a NaN, or in the number of a fixed entry of the table.
\<close>

section \<open>Types\<close>

datatype jsType = TUndefined | TNull | TBoolean | TNumber | TBigint | TString | TSymbol | TObject | TFunction

fun jsTypeOf :: "gval \<Rightarrow> jsType" where
  "jsTypeOf VUndef = TUndefined"
| "jsTypeOf VNull = TNull"
| "jsTypeOf (VBool _) = TBoolean"
| "jsTypeOf (VNum _) = TNumber"
| "jsTypeOf (VBig _) = TBigint"
| "jsTypeOf (VStr _) = TString"
| "jsTypeOf (VSym _) = TSymbol"
| "jsTypeOf (VObj _) = TObject"
| "jsTypeOf (VFun _) = TFunction"

text \<open>The type that eight bytes stand for, read without the table: the specification of the encoding.\<close>

definition wordType :: "nat \<Rightarrow> jsType option" where
  "wordType n =
     (let high = n div 2 ^ 32; low = n mod 2 ^ 32
      in if n = 0 then Some TUndefined
         else if high < nanHead \<or> nanHead + 5 \<le> high then Some TNumber
         else if high = nanHead + 1 then Some TObject
         else if high = nanHead + 2 then Some TString
         else if high = nanHead + 3 then Some TSymbol
         else if high = nanHead + 4 then Some TFunction
         else if low \<le> 1 then Some TNumber
         else if low = 2 then Some TNull
         else if low \<le> 4 then Some TBoolean
         else None)"

section \<open>Words\<close>

lemma two_word_value:
  assumes "i < 2 ^ 32" and "c < 5"
  shows "leNat (leBytes 4 i @ leBytes 4 (nanHead + c)) = (nanHead + c) * 2 ^ 32 + i"
proof -
  have "(nanHead + c) mod 2 ^ 32 = nanHead + c" using assms(2) by (intro mod_less) (simp add: nanHead_def)
  then show ?thesis using assms(1) by (simp add: leNat_append)
qed

lemma wordType_boxed:
  assumes "i < 2 ^ 32" and "c < 5"
  shows "wordType ((nanHead + c) * 2 ^ 32 + i) =
    (if c = 1 then Some TObject else if c = 2 then Some TString else if c = 3 then Some TSymbol else if c = 4 then Some TFunction
     else if i \<le> 1 then Some TNumber else if i = 2 then Some TNull else if i \<le> 4 then Some TBoolean else None)"
proof -
  have d: "((nanHead + c) * 2 ^ 32 + i) div 2 ^ 32 = nanHead + c" "((nanHead + c) * 2 ^ 32 + i) mod 2 ^ 32 = i"
    using assms(1) by (simp_all only: div_mult_self3 mod_mult_self3 div_less mod_less)
  have "(nanHead + c) * 2 ^ 32 + i \<noteq> 0" by (simp add: nanHead_def)
  then show ?thesis using assms(2) unfolding wordType_def d Let_def by auto
qed

lemma representable_0: "representable (Fin 0)"
  using isDouble_of_int [of 0] by (simp add: representable_def)

text \<open>The bits of a number other than zero and NaN: never the head of a boxed value.\<close>

lemma wordType_double:
  assumes "representable x" and "x \<noteq> NaN" and "x \<noteq> Fin 0"
  shows "wordType (float64Bits x) = Some TNumber"
proof -
  let ?n = "float64Bits x"
  have "float64Of 0 = Fin 0" using float64_round_trip(1) [of "Fin 0"] representable_0 by (simp add: float64Bits_def)
  then have "?n \<noteq> 0" using float64_round_trip(1) [OF assms(1)] assms(3) by metis
  moreover have "?n < 2047 * 2 ^ 52 + 1 \<or> 2 ^ 63 \<le> ?n"
  proof (cases x)
    case (Fin q)
    then have q: "isDouble q" "\<bar>q\<bar> < 2 ^ 1024" using assms(1) by (simp_all add: representable_def)
    obtain F e where F: "F < 2047" "e < 2 ^ 52" "float64Bits (Fin q) = F * 2 ^ 52 + e + (if q < 0 then 2 ^ 63 else 0)"
      "\<bar>q\<bar> = (if F = 0 then of_nat e * 2 powi (- 1074) else of_nat (2 ^ 52 + e) * 2 powi (int F - 1075))"
      by (rule float64Bits_fields [OF q])
    have "F * 2 ^ 52 + e < Suc F * 2 ^ 52" using F(2) by simp
    also have "\<dots> \<le> 2047 * 2 ^ 52" using F(1) by (intro mult_le_mono1) simp
    finally show ?thesis using F(3) Fin by auto
  qed (use assms(2) in \<open>auto simp: float64Bits_def\<close>)
  moreover have "?n div 2 ^ 32 < nanHead" if "?n < 2047 * 2 ^ 52 + 1"
    using that by (intro less_mult_imp_div_less) (simp add: nanHead_def)
  moreover have "nanHead + 5 \<le> ?n div 2 ^ 32" if "2 ^ 63 \<le> ?n"
    using div_le_mono [OF that, of "2 ^ 32"] by (simp add: nanHead_def)
  ultimately show ?thesis by (auto simp: wordType_def Let_def)
qed

text \<open>The numbers of the values that are in the table from the start.\<close>

lemma fixed_values:
  assumes "tableInv t h"
  shows "tb_values t ! 1 = VNum (Fin 0)" and "tb_values t ! 2 = VNull" and "tb_values t ! 3 = VBool True" and "tb_values t ! 4 = VBool False"
proof -
  have "tb_values t ! i = tb_values startTable ! i" if "i < 7" for i
    using tableInvD(2) [OF assms] that nth_take [of i 7 "tb_values t"] by simp
  then show "tb_values t ! 1 = VNum (Fin 0)" "tb_values t ! 2 = VNull" "tb_values t ! 3 = VBool True" "tb_values t ! 4 = VBool False"
    by (simp_all add: startTable_def)
qed

lemma fixed_ids:
  assumes "tableInv t h" and "storeId v t = (i, t')" and "0 < k" and "k < 7" and "tb_values t ! k = v"
  shows "i = k"
proof -
  have "tb_ids t v = Some k" using tableInvD(1,7) [OF assms(1)] assms(3-5) by (auto simp: live_def)
  then show ?thesis using assms(2) by (simp add: storeId_def)
qed

lemma other_ids:
  assumes "tableInv t h" and "storeId v t = (i, t')" and "\<forall>k < 5. k \<noteq> 0 \<longrightarrow> tb_values t ! k \<noteq> v"
  shows "5 \<le> i"
proof -
  have "valueAt t' i = v" "i \<noteq> 0" using storeId_inv(2,3) [OF assms(1,2)] by simp_all
  moreover have "valueAt t' k = tb_values t ! k" if "k < 5" for k
    using storeId_inv(4) [OF assms(1,2), of k] that tableInvD(1) [OF assms(1)] by (simp add: live_def valueAt_def)
  ultimately show ?thesis using assms(3) by (metis not_le)
qed

text \<open>The number and the flag of a boxed value.\<close>

lemma boxed_type:
  assumes "tableInv t h" and "storeId v t = (i, t')" and "i < 2 ^ 32" and "isRef v"
  shows "wordType (leNat (leBytes 4 i @ leBytes 4 (nanHead + typeFlag v))) = (if jsTypeOf v = TBigint then None else Some (jsTypeOf v))"
proof -
  note fixed = fixed_values [OF assms(1)]
  have known: "i = k" if "tb_values t ! k = v" "0 < k" "k < 7" for k using fixed_ids [OF assms(1,2)] that by blast
  note words = two_word_value [OF assms(3) typeFlag_less] wordType_boxed [OF assms(3) typeFlag_less]
  show ?thesis
  proof (cases v)
    case (VNum x)
    then have "i = 1" using assms(4) known [of 1] fixed(1) by (simp add: isRef_def)
    then show ?thesis unfolding words using VNum by (simp add: typeFlag_def)
  next
    case VNull
    then have "i = 2" using known [of 2] fixed(2) by simp
    then show ?thesis unfolding words using VNull by (simp add: typeFlag_def)
  next
    case (VBool b)
    then have "i = 3 \<or> i = 4" using known [of 3] known [of 4] fixed(3,4) by (cases b) auto
    then show ?thesis unfolding words using VBool by (auto simp: typeFlag_def)
  next
    case (VBig z)
    have "tb_values t ! j \<noteq> v" if "j < 5" "j \<noteq> 0" for j
    proof -
      have "j = 1 \<or> j = 2 \<or> j = 3 \<or> j = 4" using that by linarith
      then show ?thesis using fixed VBig by auto
    qed
    then have "5 \<le> i" by (intro other_ids [OF assms(1,2)]) blast
    then show ?thesis unfolding words using VBig by (simp add: typeFlag_def)
  qed (unfold words, use assms(4) in \<open>simp_all add: typeFlag_def isRef_def\<close>)
qed

section \<open>Correctness\<close>

text \<open>\<^bold>\<open>C9.\<close> The words written for a value carry its JavaScript type: whatever value is stored wherever eight bytes are free, reading the type off those
  bytes gives the type of the value, for numbers with all their special cases, undefined, null, booleans, strings, symbols, objects and functions. Big integers
  are the exception: they are boxed without a type flag, and no type can be read from their words.\<close>

theorem stored_type:
  assumes "ready g t h" and "inside (g_mem g) a 8" and "storable v"
  shows "\<exists>g' bs. storeValue a v g = (Inr (), g') \<and> viewGet (g_mem g') a 8 = Inr bs
    \<and> wordType (leNat bs) = (if jsTypeOf v = TBigint then None else Some (jsTypeOf v))"
proof -
  have r: "g_view g" "tableInv t h" using assms(1) by (simp_all add: ready_def)
  consider (ref) "isRef v" | (nan) "v = VNum NaN" | (number) x where "storeValue a v = setFloat64 a x" "representable x" "x \<noteq> NaN"
      "jsTypeOf v = (if x = Fin 0 then TUndefined else TNumber)"
  proof (cases v)
    case (VNum x)
    then show ?thesis using that(1,2) that(3) [of x] assms(3) by (cases "x = NaN \<or> x = Fin 0") (auto simp: isRef_def storeValue_def storable_def)
  next
    case VUndef
    then show ?thesis using that(3) [of "Fin 0"] representable_0 by (simp add: storeValue_def)
  qed (use that(1) in \<open>simp_all add: isRef_def\<close>)
  then show ?thesis
  proof cases
    case ref
    obtain m t' i where m: "storeRef a v g = (Inr (), g\<lparr>g_table := Some t', g_mem := m\<rparr>)" "storeId v t = (i, t')"
      "holds (g\<lparr>g_table := Some t', g_mem := m\<rparr>) a v" "length m = length (g_mem g)"
      "\<forall>b k. b + int k \<le> a \<or> a + 8 \<le> b \<longrightarrow> viewGet m b k = viewGet (g_mem g) b k"
      "i < 2 ^ 32" "viewGet m a 8 = Inr (leBytes 4 i @ leBytes 4 (nanHead + typeFlag v))"
      by (rule storeRef_stores [OF assms(1,2)])
    then show ?thesis using boxed_type [OF r(2) m(2,6) ref] storeValue_ref [OF ref] by auto
  next
    case nan
    have w: "inside (g_mem g) (a + 4) 4" "inside (g_mem g) a 4" "a + 4 + 4 \<le> a \<or> a + 4 \<le> a + 4" using assms(2) by (auto simp: inside_def)
    obtain m where m: "thenG (setUint32 (a + 4) nanHead) (setUint32 a 0) g = (Inr (), g\<lparr>g_mem := m\<rparr>)" "length m = length (g_mem g)"
      "viewGet m (a + 4) 4 = Inr (leBytes 4 nanHead)" "viewGet m a 4 = Inr (leBytes 4 0)"
      "\<forall>b k. (b + int k \<le> a + 4 \<or> a + 4 + 4 \<le> b) \<and> (b + int k \<le> a \<or> a + 4 \<le> b) \<longrightarrow> viewGet m b k = viewGet (g_mem g) b k"
      by (rule two_words [OF r(1) w])
    have "wordType (leNat (leBytes 4 0 @ leBytes 4 (nanHead + 0))) = Some TNumber"
      using two_word_value [of 0 0] wordType_boxed [of 0 0] by simp
    then show ?thesis using m(1) eight_bytes [OF m(4,3)] nan by (auto simp: storeValue_def)
  next
    case number
    obtain m where m: "setFloat64 a x g = (Inr (), g\<lparr>g_mem := m\<rparr>)" "holds (g\<lparr>g_mem := m\<rparr>) a (if x = Fin 0 then VUndef else VNum x)"
      "length m = length (g_mem g)" "\<forall>b k. b + int k \<le> a \<or> a + 8 \<le> b \<longrightarrow> viewGet m b k = viewGet (g_mem g) b k"
      "viewGet m a 8 = Inr (leBytes 8 (float64Bits x))"
      by (rule setFloat64_stores [OF r(1) assms(2) number(2,3)])
    have "leNat (leBytes 8 (float64Bits x)) = float64Bits x" using float64_round_trip(2) [OF number(2)] by simp
    moreover have "wordType (float64Bits x) = Some (jsTypeOf v)"
      using wordType_double [OF number(2,3)] number(4) by (auto simp: float64Bits_def wordType_def)
    ultimately show ?thesis using m(1,5) number(1,4) by auto
  qed
qed

theorem stored_type_witness:
  "\<exists>g' bs. storeValue 8 (VFun 3) (blankGo\<lparr>g_mem := replicate 64 0\<rparr>) = (Inr (), g') \<and> viewGet (g_mem g') 8 8 = Inr bs \<and> wordType (leNat bs) = Some TFunction"
  using stored_type [OF ready_blank, of "replicate 64 0" 8 "VFun 3"] by (auto simp: inside_def blankGo_def storable_def)

end
