(* ===== verification/Go_Imports.thy ===== *)
theory Go_Imports
  imports Go_Glue
begin

text \<open>
  The import object of \<^verbatim>\<open>wasm_exec.js\<close>, one definition per entry, with the small file system, process and path
  objects that stand in for those of Node. Every entry gets the stack pointer of the Go program, reads its
  arguments above it and writes its results there; after anything that may have run Go code the stack
  pointer is asked for again.
\<close>

section \<open>The surroundings\<close>

text \<open>\<^verbatim>\<open>TextEncoder\<close>: lone surrogates become the replacement character.\<close>

fun scalars :: "jstr \<Rightarrow> nat list" where
  "scalars [] = []"
| "scalars [c] = [if is_high c \<or> is_low c then 0xFFFD else c]"
| "scalars (c # d # cs) =
     (if is_high c \<and> is_low d then surrogatePair c d # scalars cs
      else (if is_high c \<or> is_low c then 0xFFFD else c) # scalars (d # cs))"

definition encodeUtf8 :: "jstr \<Rightarrow> byte list" where
  "encodeUtf8 s = map of_nat (concat (map utf8 (scalars s)))"

record Host =
  h_decode :: "byte list \<Rightarrow> jstr" \<comment> \<open>\<^verbatim>\<open>TextDecoder\<close>\<close>
  h_get :: "gval \<Rightarrow> gval \<Rightarrow> gval go" \<comment> \<open>\<^verbatim>\<open>Reflect.get\<close>\<close>
  h_set :: "gval \<Rightarrow> gval \<Rightarrow> gval \<Rightarrow> unit go"
  h_delete :: "gval \<Rightarrow> gval \<Rightarrow> unit go"
  h_apply :: "gval \<Rightarrow> gval \<Rightarrow> gval list \<Rightarrow> gval go"
  h_construct :: "gval \<Rightarrow> gval list \<Rightarrow> gval go"
  h_instanceof :: "gval \<Rightarrow> gval \<Rightarrow> bool go"
  h_member :: "gval \<Rightarrow> jstr \<Rightarrow> gval go" \<comment> \<open>\<^verbatim>\<open>v.name\<close>\<close>
  h_string :: "gval \<Rightarrow> jstr go" \<comment> \<open>\<^verbatim>\<open>String(v)\<close>\<close>
  h_arrayLike :: "gval \<Rightarrow> byte list go" \<comment> \<open>the elements of an array-like value, as bytes\<close>
  h_random :: "nat \<Rightarrow> byte list go"
  h_timeOrigin :: jsnum
  h_performance :: "jsnum go"
  h_time :: "jsnum go"
  h_getsp :: "int go"
  h_resume :: "unit go"
  h_run :: "nat \<Rightarrow> int \<Rightarrow> unit go"

definition unsigned32 :: "int \<Rightarrow> int" where
  "unsigned32 sp = sp mod 2 ^ 32"

definition currentSp :: "Host \<Rightarrow> int go" where
  "currentSp h = thenG theTable (bindG (h_getsp h) (\<lambda>sp. ret (unsigned32 sp)))"

definition loadString :: "Host \<Rightarrow> int \<Rightarrow> jstr go" where
  "loadString h addr =
     bindG (getInt64 (addr + 0)) (\<lambda>saddr. bindG (getInt64 (addr + 8)) (\<lambda>len.
     bindG (bufferRange saddr len) (\<lambda>s. bindG (sliceBytes s) (\<lambda>bs. ret (h_decode h bs)))))"

section \<open>File system, process and path\<close>

definition lastIndexOf :: "nat \<Rightarrow> jstr \<Rightarrow> int" where
  "lastIndexOf c s = int (length s) - 1 - int (length (takeWhile (\<lambda>x. x \<noteq> c) (rev s)))"

definition writeSync :: "Host \<Rightarrow> int \<Rightarrow> byte list \<Rightarrow> nat go" where
  "writeSync h fd buf =
     thenG (modifyG (\<lambda>g.
       let out = g_outputBuf g @ h_decode h buf; nl = lastIndexOf 10 out
       in if nl \<noteq> - 1
          then g\<lparr>g_console := g_console g @ [Log (take (nat nl) out)], g_outputBuf := drop (nat (nl + 1)) out\<rparr>
          else g\<lparr>g_outputBuf := out\<rparr>))
     (ret (length buf))"

text \<open>What a callback is given: the error \<^verbatim>\<open>ENOSYS\<close> or a result.\<close>

datatype callback = Enosys | Result "nat option"

definition fsWrite :: "Host \<Rightarrow> int \<Rightarrow> byte list \<Rightarrow> int \<Rightarrow> int \<Rightarrow> bool \<Rightarrow> callback go" where
  "fsWrite h fd buf offset len positionIsNull =
     (if offset \<noteq> 0 \<or> len \<noteq> int (length buf) \<or> \<not> positionIsNull then ret Enosys
      else bindG (writeSync h fd buf) (\<lambda>n. ret (Result (Some n))))"

definition fsStubs :: "string list" where
  "fsStubs = [''chmod'', ''chown'', ''close'', ''fchmod'', ''fchown'', ''fstat'', ''fsync'', ''ftruncate'', ''lchown'', ''link'',
     ''lstat'', ''mkdir'', ''open'', ''read'', ''readdir'', ''readlink'', ''rename'', ''rmdir'', ''stat'', ''symlink'', ''truncate'',
     ''unlink'', ''utimes'']"

definition fsStub :: "string \<Rightarrow> callback option" where
  "fsStub name = (if name \<notin> set fsStubs then None else if name = ''fsync'' then Some (Result None) else Some Enosys)"

definition processStub :: "string \<Rightarrow> (int res) option" where
  "processStub name =
     (if name \<in> {''getuid'', ''getgid'', ''geteuid'', ''getegid'', ''pid'', ''ppid''} then Some (Inr (- 1))
      else if name \<in> {''getgroups'', ''umask'', ''cwd'', ''chdir''} then Some (Inl (Error ''not implemented'')) else None)"

definition pathResolve :: "jstr list \<Rightarrow> jstr" where
  "pathResolve segments = joinWith (js ''/'') segments"

section \<open>The runtime\<close>

definition exitWith :: "int \<Rightarrow> unit go" where
  "exitWith code = (if code \<noteq> 0 then modifyG (\<lambda>g. g\<lparr>g_console := g_console g @ [Warn (js ''exit code:'') (Some code)]\<rparr>) else ret ())"

definition wasmExit :: "int \<Rightarrow> unit go" where
  "wasmExit sp =
     (let sp = unsigned32 sp
      in bindG (getInt32 (sp + 8)) (\<lambda>code.
         thenG (modifyG (\<lambda>g. g\<lparr>g_exited := True, g_table := None\<rparr>)) (exitWith code)))"

definition wasmWrite :: "Host \<Rightarrow> int \<Rightarrow> unit go" where
  "wasmWrite h sp =
     (let sp = unsigned32 sp
      in bindG (getInt64 (sp + 8)) (\<lambda>fd. bindG (getInt64 (sp + 16)) (\<lambda>p. bindG (getInt32 (sp + 24)) (\<lambda>n.
         bindG (bufferRange p n) (\<lambda>s. bindG (sliceBytes s) (\<lambda>bs. thenG (writeSync h fd bs) (ret ())))))))"

definition resetMemoryDataView :: "int \<Rightarrow> unit go" where
  "resetMemoryDataView sp = thenG theTable (modifyG (g_view_update (\<lambda>_. True)))"

definition nanotime1 :: "Host \<Rightarrow> int \<Rightarrow> unit go" where
  "nanotime1 h sp =
     (let sp = unsigned32 sp
      in bindG (h_performance h) (\<lambda>now. setInt64 (sp + 8) (numMul (numAdd (h_timeOrigin h) now) (Fin 1000000))))"

definition walltime :: "Host \<Rightarrow> int \<Rightarrow> unit go" where
  "walltime h sp =
     (let sp = unsigned32 sp
      in bindG (h_time h) (\<lambda>msec.
         thenG (setInt64 (sp + 8) (numDiv msec (Fin 1000)))
           (setUint32 (sp + 16) (toUint32 (numMul (numMod msec (Fin 1000)) (Fin 1000000))))))"

definition resume :: "Host \<Rightarrow> unit go" where
  "resume h =
     bindG (getsG g_exited) (\<lambda>exited.
       if exited then raiseG (Error ''Go program has already exited'')
       else thenG (h_resume h) (modifyG (\<lambda>g. if g_exited g then g\<lparr>g_resolved := True\<rparr> else g)))"

definition scheduleTimeoutEvent :: "int \<Rightarrow> unit go" where
  "scheduleTimeoutEvent sp =
     (let sp = unsigned32 sp
      in bindG (getsG g_nextTimeout) (\<lambda>i.
         thenG (modifyG (\<lambda>g. g\<lparr>g_nextTimeout := g_nextTimeout g + 1\<rparr>))
        (bindG (getInt64 (sp + 8)) (\<lambda>delay.
         thenG (modifyG (\<lambda>g. g\<lparr>g_timers := g_timers g @ [(i, delay)], g_scheduled := List.insert i (g_scheduled g)\<rparr>))
           (setUint32 (sp + 16) (nat (i mod 2 ^ 32)))))))"

text \<open>The browser fires the timer: the program is resumed, and again as long as it has not cleared the timeout. The
  loop may run forever.\<close>

partial_function (option) retryTimeout :: "Host \<Rightarrow> int \<Rightarrow> Go \<Rightarrow> ((gval + unit) \<times> Go) option" where
  "retryTimeout h i g =
     (if i \<in> set (g_scheduled g)
      then (case resume h (g\<lparr>g_console := g_console g @ [Warn (js ''scheduleTimeoutEvent: missed timeout event'') None]\<rparr>) of
              (Inl e, g) \<Rightarrow> Some (Inl e, g)
            | (Inr u, g) \<Rightarrow> retryTimeout h i g)
      else Some (Inr (), g))"

definition timeoutFires :: "Host \<Rightarrow> int \<Rightarrow> Go \<Rightarrow> ((gval + unit) \<times> Go) option" where
  "timeoutFires h i g =
     (case resume h (g\<lparr>g_timers := filter (\<lambda>(j, d). j \<noteq> i) (g_timers g)\<rparr>) of
        (Inl e, g) \<Rightarrow> Some (Inl e, g)
      | (Inr u, g) \<Rightarrow> retryTimeout h i g)"

definition clearTimeoutEvent :: "int \<Rightarrow> unit go" where
  "clearTimeoutEvent sp =
     (let sp = unsigned32 sp
      in bindG (getInt32 (sp + 8)) (\<lambda>i.
         modifyG (\<lambda>g. g\<lparr>g_timers := filter (\<lambda>(j, d). j \<noteq> i) (g_timers g), g_scheduled := removeAll i (g_scheduled g)\<rparr>)))"

definition getRandomData :: "Host \<Rightarrow> int \<Rightarrow> unit go" where
  "getRandomData h sp =
     (let sp = unsigned32 sp
      in bindG (loadSlice (sp + 8)) (\<lambda>s.
         if snd s > 65536 then raiseG (Error ''QuotaExceededError'')
         else bindG (h_random h (snd s)) (\<lambda>bs. fillSlice s bs)))"

text \<open>The wrapper of a Go function: the event is an object of its own, and what the program stores as its result
  is what the caller gets.\<close>

definition funcWrapper :: "Host \<Rightarrow> int \<Rightarrow> gval \<Rightarrow> gval list \<Rightarrow> gval go" where
  "funcWrapper h i this args =
     bindG (getsG g_nextObj) (\<lambda>e.
       thenG (modifyG (\<lambda>g. g\<lparr>g_nextObj := Suc e, g_events := (g_events g)(e \<mapsto> (i, this, args)), g_pending := Some e\<rparr>))
         (thenG (resume h) (h_member h (VObj e) (js ''result''))))"

section \<open>Values\<close>

definition finalizeRef :: "int \<Rightarrow> unit go" where
  "finalizeRef sp =
     (let sp = unsigned32 sp
      in bindG (getUint32 (sp + 8)) (\<lambda>i. bindG theTable (\<lambda>t. modifyG (g_table_update (\<lambda>_. Some (finalizeId i t))))))"

definition stringVal :: "Host \<Rightarrow> int \<Rightarrow> unit go" where
  "stringVal h sp = (let sp = unsigned32 sp in bindG (loadString h (sp + 8)) (\<lambda>s. storeValue (sp + 24) (VStr s)))"

definition valueGet :: "Host \<Rightarrow> int \<Rightarrow> unit go" where
  "valueGet h sp =
     (let sp = unsigned32 sp
      in bindG (loadValue (sp + 8)) (\<lambda>v. bindG (loadString h (sp + 16)) (\<lambda>p.
         bindG (h_get h v (VStr p)) (\<lambda>result.
         bindG (currentSp h) (\<lambda>sp. storeValue (sp + 32) result)))))"

definition valueSet :: "Host \<Rightarrow> int \<Rightarrow> unit go" where
  "valueSet h sp =
     (let sp = unsigned32 sp
      in bindG (loadValue (sp + 8)) (\<lambda>v. bindG (loadString h (sp + 16)) (\<lambda>p. bindG (loadValue (sp + 32)) (\<lambda>x.
         h_set h v (VStr p) x))))"

definition valueDelete :: "Host \<Rightarrow> int \<Rightarrow> unit go" where
  "valueDelete h sp =
     (let sp = unsigned32 sp
      in bindG (loadValue (sp + 8)) (\<lambda>v. bindG (loadString h (sp + 16)) (\<lambda>p. h_delete h v (VStr p))))"

definition indexKey :: "int \<Rightarrow> gval" where
  "indexKey i = VNum (Fin (of_int i))"

definition valueIndex :: "Host \<Rightarrow> int \<Rightarrow> unit go" where
  "valueIndex h sp =
     (let sp = unsigned32 sp
      in bindG (loadValue (sp + 8)) (\<lambda>v. bindG (getInt64 (sp + 16)) (\<lambda>i.
         bindG (h_get h v (indexKey i)) (\<lambda>x. storeValue (sp + 24) x))))"

definition valueSetIndex :: "Host \<Rightarrow> int \<Rightarrow> unit go" where
  "valueSetIndex h sp =
     (let sp = unsigned32 sp
      in bindG (loadValue (sp + 8)) (\<lambda>v. bindG (getInt64 (sp + 16)) (\<lambda>i. bindG (loadValue (sp + 24)) (\<lambda>x.
         h_set h v (indexKey i) x))))"

text \<open>The three calls write the result, or the value thrown, and a flag; where depends on the entry.\<close>

definition reportResult :: "Host \<Rightarrow> int \<Rightarrow> int \<Rightarrow> gval go \<Rightarrow> unit go" where
  "reportResult h slot flag call =
     tryG
       (bindG call (\<lambda>result. bindG (currentSp h) (\<lambda>sp. thenG (storeValue (sp + slot) result) (setUint8 (sp + flag) 1))))
       (\<lambda>err. bindG (currentSp h) (\<lambda>sp. thenG (storeValue (sp + slot) err) (setUint8 (sp + flag) 0)))"

definition valueCall :: "Host \<Rightarrow> int \<Rightarrow> unit go" where
  "valueCall h sp =
     (let sp = unsigned32 sp
      in reportResult h 56 64
          (bindG (loadValue (sp + 8)) (\<lambda>v. bindG (loadString h (sp + 16)) (\<lambda>p. bindG (h_get h v (VStr p)) (\<lambda>m.
           bindG (loadSliceOfValues (sp + 32)) (\<lambda>args. h_apply h m v args))))))"

definition valueInvoke :: "Host \<Rightarrow> int \<Rightarrow> unit go" where
  "valueInvoke h sp =
     (let sp = unsigned32 sp
      in reportResult h 40 48
          (bindG (loadValue (sp + 8)) (\<lambda>v. bindG (loadSliceOfValues (sp + 16)) (\<lambda>args. h_apply h v VUndef args))))"

definition valueNew :: "Host \<Rightarrow> int \<Rightarrow> unit go" where
  "valueNew h sp =
     (let sp = unsigned32 sp
      in reportResult h 40 48
          (bindG (loadValue (sp + 8)) (\<lambda>v. bindG (loadSliceOfValues (sp + 16)) (\<lambda>args. h_construct h v args))))"

text \<open>\<^verbatim>\<open>parseInt\<close> of a text: white space, a sign, a hexadecimal prefix, and as many digits as there are.\<close>

definition hexDigitValue :: "nat \<Rightarrow> nat" where
  "hexDigitValue c = (if isDigit c then c - 48 else if c < 97 then c - 55 else c - 87)"

definition parseInt :: "jstr \<Rightarrow> jsnum" where
  "parseInt s =
     (let s = dropWhile isSpace s; neg = (take 1 s = [45]);
          s = (if s \<noteq> [] \<and> hd s \<in> {43, 45} then tl s else s);
          hex = (take 2 s = [48, 120] \<or> take 2 s = [48, 88]);
          ds = (if hex then takeWhile isHexDigit (drop 2 s) else takeWhile isDigit s);
          n = foldl (\<lambda>v c. (if hex then 16 else 10) * v + hexDigitValue c) 0 ds
      in if ds = [] then NaN else toDouble (if neg then - of_nat n else of_nat n))"

definition valueLength :: "Host \<Rightarrow> int \<Rightarrow> unit go" where
  "valueLength h sp =
     (let sp = unsigned32 sp
      in bindG (loadValue (sp + 8)) (\<lambda>v. bindG (h_member h v (js ''length'')) (\<lambda>l. bindG (h_string h l) (\<lambda>s.
         setInt64 (sp + 16) (parseInt s)))))"

definition newBytes :: "byte list \<Rightarrow> gval go" where
  "newBytes bs g = (Inr (VObj (g_nextObj g)), g\<lparr>g_nextObj := Suc (g_nextObj g), g_bytes := (g_bytes g)(g_nextObj g \<mapsto> bs)\<rparr>)"

definition valuePrepareString :: "Host \<Rightarrow> int \<Rightarrow> unit go" where
  "valuePrepareString h sp =
     (let sp = unsigned32 sp
      in bindG (loadValue (sp + 8)) (\<lambda>v. bindG (h_string h v) (\<lambda>s. bindG (newBytes (encodeUtf8 s)) (\<lambda>str.
         thenG (storeValue (sp + 16) str) (setInt64 (sp + 24) (Fin (of_nat (length (encodeUtf8 s)))))))))"

definition bytesOf :: "gval \<Rightarrow> Go \<Rightarrow> byte list option" where
  "bytesOf v g = (case v of VObj n \<Rightarrow> g_bytes g n | _ \<Rightarrow> None)"

definition valueLoadString :: "Host \<Rightarrow> int \<Rightarrow> unit go" where
  "valueLoadString h sp =
     (let sp = unsigned32 sp
      in bindG (loadValue (sp + 8)) (\<lambda>str. bindG (loadSlice (sp + 16)) (\<lambda>s.
         bindG (getsG (bytesOf str)) (\<lambda>known.
         bindG (case known of Some bs \<Rightarrow> ret bs | None \<Rightarrow> h_arrayLike h str) (\<lambda>bs. fillSlice s bs)))))"

definition valueInstanceOf :: "Host \<Rightarrow> int \<Rightarrow> unit go" where
  "valueInstanceOf h sp =
     (let sp = unsigned32 sp
      in bindG (loadValue (sp + 8)) (\<lambda>v. bindG (loadValue (sp + 16)) (\<lambda>t. bindG (h_instanceof h v t) (\<lambda>b.
         setUint8 (sp + 24) (if b then 1 else 0)))))"

definition copyBytesToGo :: "int \<Rightarrow> unit go" where
  "copyBytesToGo sp =
     (let sp = unsigned32 sp
      in bindG (loadSlice (sp + 8)) (\<lambda>dst. bindG (loadValue (sp + 32)) (\<lambda>src. bindG (getsG (bytesOf src)) (\<lambda>known.
         case known of
           None \<Rightarrow> setUint8 (sp + 48) 0
         | Some bs \<Rightarrow>
             let toCopy = take (snd dst) bs
             in thenG (fillSlice dst toCopy) (thenG (setInt64 (sp + 40) (Fin (of_nat (length toCopy)))) (setUint8 (sp + 48) 1))))))"

definition setBytes :: "gval \<Rightarrow> byte list \<Rightarrow> unit go" where
  "setBytes v bs = modifyG (\<lambda>g. case v of VObj n \<Rightarrow> g\<lparr>g_bytes := (g_bytes g)(n \<mapsto> bs)\<rparr> | _ \<Rightarrow> g)"

definition copyBytesToJS :: "int \<Rightarrow> unit go" where
  "copyBytesToJS sp =
     (let sp = unsigned32 sp
      in bindG (loadValue (sp + 8)) (\<lambda>dst. bindG (loadSlice (sp + 16)) (\<lambda>src. bindG (getsG (bytesOf dst)) (\<lambda>known.
         case known of
           None \<Rightarrow> setUint8 (sp + 48) 0
         | Some bs \<Rightarrow>
             bindG (sliceBytes src) (\<lambda>all.
               let toCopy = take (length bs) all
               in thenG (setBytes dst (toCopy @ drop (length toCopy) bs))
                    (thenG (setInt64 (sp + 40) (Fin (of_nat (length toCopy)))) (setUint8 (sp + 48) 1)))))))"

definition debug :: "gval \<Rightarrow> unit go" where
  "debug v = modifyG (\<lambda>g. g\<lparr>g_console := g_console g @ [LogValue v]\<rparr>)"

section \<open>The console\<close>

fun writeAll :: "Host \<Rightarrow> byte list list \<Rightarrow> unit go" where
  "writeAll h [] = ret ()"
| "writeAll h (buf # bufs) = thenG (writeSync h 1 buf) (writeAll h bufs)"

text \<open>The text a reader of the console sees: each line logged ends with a line feed.\<close>

definition consoleText :: "consoleLine list \<Rightarrow> jstr" where
  "consoleText ls = concat (List.map_filter (\<lambda>l. case l of Log s \<Rightarrow> Some (s @ [10]) | _ \<Rightarrow> None) ls)"

lemma consoleText_snoc: "consoleText (ls @ [Log s]) = consoleText ls @ s @ [10]"
  by (simp add: consoleText_def map_filter_def)

lemma lastIndexOf_last: "c \<notin> set ys \<Longrightarrow> lastIndexOf c (xs @ c # ys) = int (length xs)"
proof -
  assume "c \<notin> set ys"
  then have "takeWhile (\<lambda>x. x \<noteq> c) (rev ys @ c # rev xs) = rev ys" by (subst takeWhile_append2) auto
  then show ?thesis by (simp add: lastIndexOf_def)
qed

lemma lastIndexOf_none: "c \<notin> set s \<Longrightarrow> lastIndexOf c s = - 1"
proof -
  assume "c \<notin> set s"
  then have "takeWhile (\<lambda>x. x \<noteq> c) (rev s) = rev s" by (intro takeWhile_eq_all_conv [THEN iffD2]) auto
  then show ?thesis unfolding lastIndexOf_def by (simp only: length_rev)
qed

lemma writeSync_text:
  "\<exists>g'. writeSync h fd buf g = (Inr (length buf), g')
     \<and> consoleText (g_console g') @ g_outputBuf g' = consoleText (g_console g) @ g_outputBuf g @ h_decode h buf
     \<and> 10 \<notin> set (g_outputBuf g')"
proof -
  define out where "out = g_outputBuf g @ h_decode h buf"
  show ?thesis
  proof (cases "10 \<in> set out")
    case True
    then obtain xs ys where out: "out = xs @ 10 # ys" "10 \<notin> set ys" by (metis split_list_last)
    have "lastIndexOf 10 out = int (length xs)" using lastIndexOf_last [OF out(2)] out(1) by simp
    then show ?thesis unfolding append_assoc [symmetric] out_def [symmetric]
      using out by (simp add: writeSync_def go_simps Let_def consoleText_snoc nat_add_distrib flip: out_def)
  next
    case False
    then show ?thesis unfolding append_assoc [symmetric]
      using lastIndexOf_none [OF False] by (simp add: writeSync_def go_simps Let_def flip: out_def)
  qed
qed

text \<open>\<^bold>\<open>C18.\<close> The console shows whole lines and loses nothing: after any writes, the lines logged so far followed by what is still
  buffered are exactly the texts written, in order, and the buffer never contains a line feed.\<close>

theorem console_complete:
  assumes "10 \<notin> set (g_outputBuf g)"
  shows "\<exists>g'. writeAll h bufs g = (Inr (), g')
    \<and> consoleText (g_console g') @ g_outputBuf g' = consoleText (g_console g) @ g_outputBuf g @ concat (map (h_decode h) bufs)
    \<and> 10 \<notin> set (g_outputBuf g')"
  using assms
proof (induction bufs arbitrary: g)
  case Nil
  then show ?case by (simp add: go_simps)
next
  case (Cons buf bufs)
  obtain g1 where g1: "writeSync h 1 buf g = (Inr (length buf), g1)"
    "consoleText (g_console g1) @ g_outputBuf g1 = consoleText (g_console g) @ g_outputBuf g @ h_decode h buf" "10 \<notin> set (g_outputBuf g1)"
    using writeSync_text [of h 1 buf g] by blast
  obtain g2 where g2: "writeAll h bufs g1 = (Inr (), g2)"
    "consoleText (g_console g2) @ g_outputBuf g2 = consoleText (g_console g1) @ g_outputBuf g1 @ concat (map (h_decode h) bufs)" "10 \<notin> set (g_outputBuf g2)"
    using Cons.IH [OF g1(3)] by blast
  show ?case using g1 g2 by (intro exI [of _ g2]) (simp add: go_simps)
qed

definition plainHost :: Host where
  "plainHost = \<lparr>h_decode = map unat, h_get = (\<lambda>_ _. ret VUndef), h_set = (\<lambda>_ _ _. ret ()), h_delete = (\<lambda>_ _. ret ()),
     h_apply = (\<lambda>f this args. if f = VFun 0 then raiseG (Error ''no'') else ret (VNum (Fin 7))), h_construct = (\<lambda>_ _. ret VNull), h_instanceof = (\<lambda>_ _. ret False),
     h_member = (\<lambda>_ _. ret VUndef), h_string = (\<lambda>_. ret []), h_arrayLike = (\<lambda>_. ret []), h_random = (\<lambda>n. ret (replicate n 4)),
     h_timeOrigin = Fin 0, h_performance = ret (Fin 0), h_time = ret (Fin 0), h_getsp = ret 64, h_resume = ret (), h_run = (\<lambda>_ _. ret ())\<rparr>"

theorem console_complete_witness:
  "\<exists>g'. writeAll plainHost [[104, 10], [105]] blankGo = (Inr (), g') \<and> consoleText (g_console g') @ g_outputBuf g' = [104, 10, 105]"
  using console_complete [of blankGo plainHost "[[104, 10], [105]]"] by (auto simp: blankGo_def plainHost_def consoleText_def map_filter_def)

section \<open>Calls\<close>

lemma holds_frame:
  assumes "holds g a v" and "g_view g" and "\<forall>k \<le> 8. viewGet m a k = viewGet (g_mem g) a k"
  shows "holds (g\<lparr>g_mem := m\<rparr>) a v"
proof -
  have "viewGet m a 8 = viewGet (g_mem g) a 8" "viewGet m a 4 = viewGet (g_mem g) a 4" using assms(3) by simp_all
  moreover obtain bs where "viewGet (g_mem g) a 8 = Inr bs"
    using assms(1,2) by (cases "viewGet (g_mem g) a 8")
      (auto simp: holds_def loadValue_def getFloat64_def readView_def bindG_def liftG_def raiseG_def)
  moreover obtain cs where "viewGet (g_mem g) a 4 = Inr cs"
    using calculation(3) by (auto simp: viewGet_def split: if_splits)
  ultimately show ?thesis using assms(1,2)
    by (cases "g_table g") (auto simp: holds_def loadValue_def getFloat64_def getUint32_def theTable_def raiseG_def go_simps split: if_splits)
qed

text \<open>What a call leaves for the program: the value in its slot, the flag behind it.\<close>

lemma answer_stored:
  assumes "ready g t h" and "inside (g_mem g) a 9" and "storable v" and "b < 256"
  shows "\<exists>g'. thenG (storeValue a v) (setUint8 (a + 8) b) g = (Inr (), g') \<and> loadValue a g' = (Inr v, g')
    \<and> viewGet (g_mem g') (a + 8) 1 = Inr [of_nat b]"
proof -
  have i: "inside (g_mem g) a 8" using assms(2) by (simp add: inside_def)
  obtain m t' h' where m: "storeValue a v g = (Inr (), g\<lparr>g_table := Some t', g_mem := m\<rparr>)" "holds (g\<lparr>g_table := Some t', g_mem := m\<rparr>) a v"
    "length m = length (g_mem g)" "\<forall>b k. b + int k \<le> a \<or> a + 8 \<le> b \<longrightarrow> viewGet m b k = viewGet (g_mem g) b k"
    "tableInv t' h'" "\<forall>j. live h j \<longrightarrow> valueAt t' j = valueAt t j"
    "if isRef v then \<exists>i. storeId v t = (i, t') \<and> h' = h(i := Suc (h i)) else t' = t \<and> h' = h"
    by (rule storeValue_stores [OF assms(1) i assms(3)])
  let ?g = "g\<lparr>g_table := Some t', g_mem := m\<rparr>"
  obtain m2 where m2: "viewSet m (a + 8) (leBytes 1 b) = Inr m2"
    using view.put_total [of "a + 8" "leBytes 1 b" m] assms(2) m(3) by (auto simp: inside_def)
  have v: "g_view g" using assms(1) by (simp add: ready_def)
  have "viewGet m2 a k = viewGet m a k" if "k \<le> 8" for k using view.get_other [OF m2, of a k] that by simp
  then have "holds (?g\<lparr>g_mem := m2\<rparr>) a v" using holds_frame [OF m(2), of m2] v by simp
  moreover have "thenG (storeValue a v) (setUint8 (a + 8) b) g = (Inr (), ?g\<lparr>g_mem := m2\<rparr>)"
    using m(1) m2 v by (simp add: setUint8_def go_simps)
  moreover have "viewGet m2 (a + 8) 1 = Inr [of_nat b]" using view.get_put [OF m2] by simp
  ultimately show ?thesis by (auto simp: holds_def)
qed

text \<open>How the program sees the answer: the result with the flag 1, or the value thrown with the flag 0.\<close>

definition answered :: "Go \<Rightarrow> int \<Rightarrow> gval + gval \<Rightarrow> bool" where
  "answered g a r \<longleftrightarrow> loadValue a g = (Inr (case r of Inl err \<Rightarrow> err | Inr result \<Rightarrow> result), g)
     \<and> viewGet (g_mem g) (a + 8) 1 = Inr [case r of Inl err \<Rightarrow> 0 | Inr result \<Rightarrow> 1]"

lemma reportResult_answers:
  assumes "call g = (r, g1)" and "ready g1 t h'" and "h_getsp h g1 = (Inr sp, g1)"
    and "inside (g_mem g1) (unsigned32 sp + slot) 9" and "storable (case r of Inl err \<Rightarrow> err | Inr result \<Rightarrow> result)"
  shows "\<exists>g'. reportResult h slot (slot + 8) call g = (Inr (), g') \<and> answered g' (unsigned32 sp + slot) r"
proof -
  have sp: "currentSp h g1 = (Inr (unsigned32 sp), g1)" using assms(2,3) by (simp add: currentSp_def theTable_def ready_def go_simps)
  show ?thesis
  proof (cases r)
    case (Inl err)
    then show ?thesis using answer_stored [OF assms(2,4), of err 0] assms(1,5) sp
      by (auto simp: reportResult_def answered_def tryG_def bindG_def add.assoc)
  next
    case (Inr result)
    then show ?thesis using answer_stored [OF assms(2,4), of result 1] assms(1,5) sp
      by (auto simp: reportResult_def answered_def tryG_def bindG_def add.assoc)
  qed
qed

text \<open>\<^bold>\<open>C17.\<close> A call from Go never throws. The entries for methods, functions and constructors read their operands from the frame,
  run the JavaScript code, and whether it returns or throws (the lookup of a method included), the value comes back in the slot of the
  result above the stack pointer of that moment, not of the call, with the flag 1 or 0 behind it.\<close>

theorem calls_report:
  assumes "ready g1 t h'" and "h_getsp h g1 = (Inr sp', g1)" and "inside (g_mem g1) (unsigned32 sp' + 40) 25"
    and "storable (case r of Inl err \<Rightarrow> err | Inr result \<Rightarrow> result)" and "holds g (unsigned32 sp + 8) v"
  shows "(loadString h (unsigned32 sp + 16) g = (Inr p, g) \<longrightarrow>
      (h_get h v (VStr p) g = (Inl err, g1) \<and> r = Inl err
        \<or> h_get h v (VStr p) g = (Inr f, g2) \<and> loadSliceOfValues (unsigned32 sp + 32) g2 = (Inr args, g2) \<and> h_apply h f v args g2 = (r, g1)) \<longrightarrow>
      (\<exists>g'. valueCall h sp g = (Inr (), g') \<and> answered g' (unsigned32 sp' + 56) r))
    \<and> (loadSliceOfValues (unsigned32 sp + 16) g = (Inr args, g) \<longrightarrow> h_apply h v VUndef args g = (r, g1) \<longrightarrow>
      (\<exists>g'. valueInvoke h sp g = (Inr (), g') \<and> answered g' (unsigned32 sp' + 40) r))
    \<and> (loadSliceOfValues (unsigned32 sp + 16) g = (Inr args, g) \<longrightarrow> h_construct h v args g = (r, g1) \<longrightarrow>
      (\<exists>g'. valueNew h sp g = (Inr (), g') \<and> answered g' (unsigned32 sp' + 40) r))"
proof -
  have i: "inside (g_mem g1) (unsigned32 sp' + 40) 9" "inside (g_mem g1) (unsigned32 sp' + 56) 9" using assms(3) by (auto simp: inside_def)
  note report = reportResult_answers [OF _ assms(1,2) i(1) assms(4), simplified] reportResult_answers [OF _ assms(1,2) i(2) assms(4), simplified]
  show ?thesis unfolding valueCall_def valueInvoke_def valueNew_def Let_def
    using assms(5) by (intro conjI impI report) (auto simp: bindG_def holds_def)
qed

lemma zero_frame:
  assumes "g = blankGo\<lparr>g_mem := replicate 256 0\<rparr>" and "0 \<le> a" and "a + 16 \<le> 256"
  shows "loadValue a g = (Inr VUndef, g)" and "loadSliceOfValues a g = (Inr [], g)"
proof -
  have z: "viewGet (g_mem g) b k = Inr (replicate k 0)" if "0 \<le> b" "b + int k \<le> 256" for b k
  proof -
    have "k \<le> 256 - nat b" using that by linarith
    then show ?thesis using that assms(1) by (simp add: viewGet_def min_def)
  qed
  have v: "g_view g" using assms(1) by (simp add: blankGo_def)
  have "doubleOf 0 = 0" by (simp add: doubleOf_def)
  moreover have "leNat (replicate k 0) = 0" for k by (induction k) simp_all
  ultimately show "loadValue a g = (Inr VUndef, g)" "loadSliceOfValues a g = (Inr [], g)"
    using z v assms(2,3) by (simp_all add: loadValue_def loadSliceOfValues_def getInt64_def getUint32_def getInt32_def signed32_def getFloat64_def float64Of_def roundInt_def go_simps)
qed

theorem calls_report_witness:
  "\<exists>g'. valueInvoke plainHost 0 (blankGo\<lparr>g_mem := replicate 256 0\<rparr>) = (Inr (), g') \<and> answered g' 104 (Inr (VNum (Fin 7)))"
proof -
  let ?g = "blankGo\<lparr>g_mem := replicate 256 0\<rparr>"
  have "storable (VNum (Fin 7))" using isDouble_of_int [of 7] by (simp add: storable_def representable_def)
  then show ?thesis
    using calls_report [OF ready_blank, of plainHost "replicate 256 0" 64 "Inr (VNum (Fin 7))" ?g 0 VUndef] zero_frame [OF refl, of 8] zero_frame [OF refl, of 16]
    by (simp add: plainHost_def holds_def go_simps unsigned32_def inside_def blankGo_def)
qed

section \<open>Timeouts\<close>

text \<open>The runs of the program, one after another: the first when the timer fires, each further one after a
  warning. A run misses the timeout when it neither throws nor clears the timeout nor ends the program.\<close>

definition warned :: "Go \<Rightarrow> Go" where
  "warned g = g\<lparr>g_console := g_console g @ [Warn (js ''scheduleTimeoutEvent: missed timeout event'') None]\<rparr>"

definition beforeRun :: "Host \<Rightarrow> int \<Rightarrow> Go \<Rightarrow> nat \<Rightarrow> Go" where
  "beforeRun h i g k = ((\<lambda>s. warned (snd (h_resume h s))) ^^ k) (g\<lparr>g_timers := filter (\<lambda>(j, d). j \<noteq> i) (g_timers g)\<rparr>)"

definition missedRun :: "Host \<Rightarrow> int \<Rightarrow> Go \<Rightarrow> nat \<Rightarrow> bool" where
  "missedRun h i g k \<longleftrightarrow>
     (case h_resume h (beforeRun h i g k) of (r, s) \<Rightarrow> r = Inr () \<and> i \<in> set (g_scheduled s) \<and> \<not> g_exited s)"

definition firing :: "Host \<Rightarrow> int \<Rightarrow> Go \<Rightarrow> ((gval + unit) \<times> Go) option" where
  "firing h i g = (case resume h g of (Inl e, g) \<Rightarrow> Some (Inl e, g) | (Inr u, g) \<Rightarrow> retryTimeout h i g)"

lemma firing_simps:
  "g_exited g \<Longrightarrow> firing h i g = Some (raiseG (Error ''Go program has already exited'') g)"
  "\<not> g_exited g \<Longrightarrow> h_resume h g = (Inl e, s) \<Longrightarrow> firing h i g = Some (Inl e, s)"
  "\<not> g_exited g \<Longrightarrow> h_resume h g = (Inr (), s) \<Longrightarrow> firing h i g = retryTimeout h i (if g_exited s then s\<lparr>g_resolved := True\<rparr> else s)"
  by (simp_all add: firing_def resume_def bindG_def thenG_def getsG_def modifyG_def raiseG_def)

lemma retryTimeout_step:
  "retryTimeout h i s = (if i \<in> set (g_scheduled s) then firing h i (warned s) else Some (Inr (), s))"
  by (subst retryTimeout.simps) (simp add: firing_def warned_def)

lemma beforeRun_Suc: "beforeRun h i g (Suc k) = warned (snd (h_resume h (beforeRun h i g k)))"
  by (simp add: beforeRun_def)

lemma missedRun_iff:
  "missedRun h i g k \<longleftrightarrow> (\<exists>s. h_resume h (beforeRun h i g k) = (Inr (), s) \<and> i \<in> set (g_scheduled s) \<and> \<not> g_exited s)"
  by (auto simp: missedRun_def split: prod.splits)

lemma running_before:
  assumes "\<not> g_exited g" and "\<forall>j < k. missedRun h i g j"
  shows "\<not> g_exited (beforeRun h i g k)"
proof (cases k)
  case 0
  then show ?thesis using assms(1) by (simp add: beforeRun_def)
next
  case (Suc l)
  then have "missedRun h i g l" using assms(2) by simp
  then show ?thesis by (auto simp: Suc beforeRun_Suc warned_def missedRun_iff)
qed

lemma firing_missed:
  assumes "\<not> g_exited (beforeRun h i g k)" and "missedRun h i g k"
  shows "firing h i (beforeRun h i g k) = retryTimeout h i (snd (h_resume h (beforeRun h i g k)))"
    and "retryTimeout h i (snd (h_resume h (beforeRun h i g k))) = firing h i (beforeRun h i g (Suc k))"
proof -
  obtain s where s: "h_resume h (beforeRun h i g k) = (Inr (), s)" "i \<in> set (g_scheduled s)" "\<not> g_exited s"
    using assms(2) unfolding missedRun_iff by blast
  show "firing h i (beforeRun h i g k) = retryTimeout h i (snd (h_resume h (beforeRun h i g k)))"
    using firing_simps(3) [OF assms(1) s(1)] s by simp
  show "retryTimeout h i (snd (h_resume h (beforeRun h i g k))) = firing h i (beforeRun h i g (Suc k))"
    using s retryTimeout_step [of h i s] by (simp add: beforeRun_Suc)
qed

lemma timeoutFires_runs:
  assumes "\<not> g_exited g"
  shows "\<forall>j < k. missedRun h i g j \<Longrightarrow> timeoutFires h i g = firing h i (beforeRun h i g k)"
proof (induction k)
  case 0
  then show ?case by (simp add: timeoutFires_def firing_def beforeRun_def)
next
  case (Suc k)
  then have "\<forall>j < k. missedRun h i g j" "missedRun h i g k" by simp_all
  then show ?case using Suc.IH firing_missed [OF running_before [OF assms]] by simp
qed

text \<open>The last run: it throws, it clears the timeout, or it ends the program, which cannot be resumed.\<close>

lemma firing_last:
  assumes "\<not> g_exited (beforeRun h i g k)" and "\<not> missedRun h i g k" and "h_resume h (beforeRun h i g k) = (r, s)"
  shows "r = Inl e \<Longrightarrow> firing h i (beforeRun h i g k) = Some (Inl e, s)"
    and "r = Inr () \<Longrightarrow> i \<notin> set (g_scheduled s) \<Longrightarrow> firing h i (beforeRun h i g k) = Some (Inr (), s\<lparr>g_resolved := g_resolved s \<or> g_exited s\<rparr>)"
    and "r = Inr () \<Longrightarrow> i \<in> set (g_scheduled s) \<Longrightarrow> g_exited s
      \<and> firing h i (beforeRun h i g k) = Some (raiseG (Error ''Go program has already exited'') (warned (s\<lparr>g_resolved := True\<rparr>)))"
proof -
  show "r = Inl e \<Longrightarrow> firing h i (beforeRun h i g k) = Some (Inl e, s)" using assms firing_simps(2) by simp
  show "firing h i (beforeRun h i g k) = Some (Inr (), s\<lparr>g_resolved := g_resolved s \<or> g_exited s\<rparr>)"
    if "r = Inr ()" "i \<notin> set (g_scheduled s)"
    using that assms(3) firing_simps(3) [OF assms(1), of h s i] retryTimeout_step [of h i s] retryTimeout_step [of h i "s\<lparr>g_resolved := True\<rparr>"]
    by (cases "g_exited s") simp_all
  show "g_exited s \<and> firing h i (beforeRun h i g k) = Some (raiseG (Error ''Go program has already exited'') (warned (s\<lparr>g_resolved := True\<rparr>)))"
    if r: "r = Inr ()" "i \<in> set (g_scheduled s)"
  proof -
    have e: "g_exited s" using r assms(2,3) by (simp add: missedRun_def)
    then have "firing h i (warned (s\<lparr>g_resolved := True\<rparr>)) = Some (raiseG (Error ''Go program has already exited'') (warned (s\<lparr>g_resolved := True\<rparr>)))"
      by (intro firing_simps(1)) (simp add: warned_def)
    then show ?thesis using e r assms(3) firing_simps(3) [OF assms(1), of h s i] retryTimeout_step [of h i "s\<lparr>g_resolved := True\<rparr>"] by simp
  qed
qed

lemma firing_returns: "\<not> g_exited (beforeRun h i g k) \<Longrightarrow> \<not> missedRun h i g k \<Longrightarrow> firing h i (beforeRun h i g k) \<noteq> None"
proof -
  assume a: "\<not> g_exited (beforeRun h i g k)" "\<not> missedRun h i g k"
  obtain r s where rs: "h_resume h (beforeRun h i g k) = (r, s)" by (cases "h_resume h (beforeRun h i g k)")
  show ?thesis
  proof (cases r)
    case (Inl e)
    then show ?thesis using firing_last(1) [OF a rs] by simp
  next
    case (Inr u)
    then show ?thesis using firing_last(2,3) [OF a rs] by (cases "i \<in> set (g_scheduled s)") simp_all
  qed
qed

lemma retryTimeout_not_missed:
  assumes "retryTimeout h i s = Some r"
  shows "\<forall>g k. \<not> g_exited g \<longrightarrow> s = snd (h_resume h (beforeRun h i g k)) \<longrightarrow> \<not> (\<forall>j. missedRun h i g j)"
proof (rule retryTimeout.raw_induct [OF _ assms, where
      P = "\<lambda>h i s r. \<forall>g k. \<not> g_exited g \<longrightarrow> s = snd (h_resume h (beforeRun h i g k)) \<longrightarrow> \<not> (\<forall>j. missedRun h i g j)"], intro allI impI)
  fix f h i r g k and s :: Go
  let ?g = "s\<lparr>g_console := g_console s @ [Warn (js ''scheduleTimeoutEvent: missed timeout event'') None]\<rparr>"
  assume ih: "\<And>h i s r. f h i s = Some r \<Longrightarrow>
      \<forall>g k. \<not> g_exited g \<longrightarrow> s = snd (h_resume h (beforeRun h i g k)) \<longrightarrow> \<not> (\<forall>j. missedRun h i g j)"
    and run: "(if i \<in> set (g_scheduled s)
      then (case resume h ?g of (Inl e, g) \<Rightarrow> Some (Inl e, g) | (Inr u, g) \<Rightarrow> f h i g) else Some (Inr (), s)) = Some r"
    and g: "\<not> g_exited g" and s: "s = snd (h_resume h (beforeRun h i g k))"
  show "\<not> (\<forall>j. missedRun h i g j)"
  proof
    assume all: "\<forall>j. missedRun h i g j"
    let ?b = "beforeRun h i g (Suc k)"
    have b: "?g = ?b" by (simp add: beforeRun_Suc s warned_def)
    obtain t where t: "h_resume h ?b = (Inr (), t)" "\<not> g_exited t"
      using all [rule_format, of "Suc k"] unfolding missedRun_iff by blast
    have "\<not> g_exited ?b" using running_before [OF g] all by blast
    then have "resume h ?g = (Inr (), t)" unfolding b using t by (simp add: resume_def bindG_def thenG_def getsG_def modifyG_def)
    moreover have "i \<in> set (g_scheduled s)" using all [rule_format, of k] by (auto simp: missedRun_iff s)
    ultimately have "f h i t = Some r" using run by simp
    from ih [OF this] have "\<not> g_exited g \<longrightarrow> t = snd (h_resume h ?b) \<longrightarrow> \<not> (\<forall>j. missedRun h i g j)" by (elim allE)
    then show False using g t(1) all by simp
  qed
qed

lemma timeoutFires_None:
  assumes g: "\<not> g_exited g"
  shows "timeoutFires h i g = None \<longleftrightarrow> (\<forall>k. missedRun h i g k)"
proof
  assume none: "timeoutFires h i g = None"
  show "\<forall>k. missedRun h i g k"
  proof (rule ccontr)
    assume "\<not> (\<forall>k. missedRun h i g k)"
    then obtain n where n: "\<not> missedRun h i g n" "\<forall>j < n. missedRun h i g j" using exists_least_iff [of "\<lambda>k. \<not> missedRun h i g k"] by auto
    then show False using none timeoutFires_runs [OF g n(2)] firing_returns [OF running_before [OF g n(2)] n(1)] by simp
  qed
next
  assume all: "\<forall>k. missedRun h i g k"
  have "timeoutFires h i g = retryTimeout h i (snd (h_resume h (beforeRun h i g 0)))"
    using timeoutFires_runs [OF g, of 0 h i] firing_missed(1) [of h i g 0] running_before [OF g, of 0 h i] all by simp
  moreover have "retryTimeout h i (snd (h_resume h (beforeRun h i g 0))) \<noteq> Some r" for r
    using retryTimeout_not_missed [of h i _ r] g all by blast
  ultimately show "timeoutFires h i g = None" by (simp only: not_Some_eq [symmetric]) blast
qed

lemma beforeRun_console:
  assumes "\<And>s. g_console (snd (h_resume h s)) = g_console s"
  shows "g_console (beforeRun h i g k) = g_console g @ replicate k (Warn (js ''scheduleTimeoutEvent: missed timeout event'') None)"
proof (induction k)
  case (Suc k)
  then show ?case using assms [of "beforeRun h i g k"] by (simp add: beforeRun_Suc warned_def replicate_append_same)
qed (simp add: beforeRun_def)

text \<open>\<^bold>\<open>C19.\<close> What happens when the timer of a timeout fires, said of the runs of the Go program itself. If the program has already
  exited, it is not run and the handler throws \<^verbatim>\<open>Go program has already exited\<close>. Otherwise the handler never returns exactly if
  every run misses the timeout: returns normally, without clearing it and without ending the program; that
  keeps the browser busy for good. At the first run that does not miss it, the handler throws what the run throws; or returns normally if the
  timeout was cleared, with the promise of \<^verbatim>\<open>run\<close> resolved if the program exited; or, if the program exited
  without clearing the timeout, resolves the promise, warns once more and throws \<^verbatim>\<open>Go program has already exited\<close>. A program that
  writes nothing to the console finds there one warning for each run that missed.\<close>

theorem timeout_returns:
  "(g_exited g \<longrightarrow> (\<exists>x g'. timeoutFires h i g = Some (Inl (VObj x), g') \<and> g_errors g' x = Some (Error ''Go program has already exited'')
        \<and> g_mem g' = g_mem g \<and> g_console g' = g_console g \<and> g_scheduled g' = g_scheduled g \<and> g_resolved g' = g_resolved g))
    \<and> (\<not> g_exited g \<and> (\<forall>k < n. missedRun h i g k) \<and> \<not> missedRun h i g n \<and> h_resume h (beforeRun h i g n) = (r, s) \<longrightarrow>
        (case r of
           Inl e \<Rightarrow> timeoutFires h i g = Some (Inl e, s)
         | Inr _ \<Rightarrow>
             if i \<notin> set (g_scheduled s) then timeoutFires h i g = Some (Inr (), s\<lparr>g_resolved := g_resolved s \<or> g_exited s\<rparr>)
             else \<exists>x g'. timeoutFires h i g = Some (Inl (VObj x), g') \<and> g_errors g' x = Some (Error ''Go program has already exited'')
               \<and> g_exited s \<and> g_resolved g' \<and> g_console g' = g_console s @ [Warn (js ''scheduleTimeoutEvent: missed timeout event'') None]))
    \<and> (\<not> g_exited g \<longrightarrow> (timeoutFires h i g = None \<longleftrightarrow> (\<forall>k. missedRun h i g k)))
    \<and> ((\<forall>u. g_console (snd (h_resume h u)) = g_console u) \<longrightarrow>
        g_console (beforeRun h i g n) = g_console g @ replicate n (Warn (js ''scheduleTimeoutEvent: missed timeout event'') None))"
proof (intro conjI impI)
  assume "g_exited g"
  then have "timeoutFires h i g = Some (raiseG (Error ''Go program has already exited'') (g\<lparr>g_timers := filter (\<lambda>(j, d). j \<noteq> i) (g_timers g)\<rparr>))"
    using firing_simps(1) [of "g\<lparr>g_timers := filter (\<lambda>(j, d). j \<noteq> i) (g_timers g)\<rparr>" h i] by (simp add: timeoutFires_def firing_def)
  then show "\<exists>x g'. timeoutFires h i g = Some (Inl (VObj x), g') \<and> g_errors g' x = Some (Error ''Go program has already exited'')
        \<and> g_mem g' = g_mem g \<and> g_console g' = g_console g \<and> g_scheduled g' = g_scheduled g \<and> g_resolved g' = g_resolved g"
    by (simp add: raiseG_def)
next
  assume first: "\<not> g_exited g \<and> (\<forall>k < n. missedRun h i g k) \<and> \<not> missedRun h i g n \<and> h_resume h (beforeRun h i g n) = (r, s)"
  have run: "timeoutFires h i g = firing h i (beforeRun h i g n)" using first by (intro timeoutFires_runs) blast+
  have "\<not> g_exited (beforeRun h i g n)" using first by (intro running_before) blast+
  note last = firing_last [OF this, of r s]
  show "case r of
           Inl e \<Rightarrow> timeoutFires h i g = Some (Inl e, s)
         | Inr _ \<Rightarrow>
             if i \<notin> set (g_scheduled s) then timeoutFires h i g = Some (Inr (), s\<lparr>g_resolved := g_resolved s \<or> g_exited s\<rparr>)
             else \<exists>x g'. timeoutFires h i g = Some (Inl (VObj x), g') \<and> g_errors g' x = Some (Error ''Go program has already exited'')
               \<and> g_exited s \<and> g_resolved g' \<and> g_console g' = g_console s @ [Warn (js ''scheduleTimeoutEvent: missed timeout event'') None]"
  proof (cases r)
    case (Inl e)
    then show ?thesis using first run last(1) by simp
  next
    case (Inr u)
    then show ?thesis using first run last(2,3) by (cases "i \<in> set (g_scheduled s)") (simp_all add: raiseG_def warned_def)
  qed
qed (use timeoutFires_None beforeRun_console in blast)+

text \<open>A program that clears the timeout only when it finds the warning: the timer it scheduled fires, the first run misses it, the
  second clears it.\<close>

definition lateHost :: Host where
  "lateHost = plainHost\<lparr>h_resume := bindG (getsG g_console) (\<lambda>c. if c = [] then ret () else clearTimeoutEvent 8)\<rparr>"

lemma schedule_blank:
  obtains m d where "scheduleTimeoutEvent 0 (blankGo\<lparr>g_mem := replicate 256 0\<rparr>)
      = (Inr (), blankGo\<lparr>g_mem := m, g_nextTimeout := 2, g_timers := [(1, d)], g_scheduled := [1]\<rparr>)"
    and "viewGet m 16 4 = Inr (leBytes 4 1)"
proof -
  have z: "viewGet (replicate 256 0) b k = Inr (replicate k 0)" if "0 \<le> b" "b + int k \<le> 256" for b k
  proof -
    have "k \<le> 256 - nat b" using that by linarith
    then show ?thesis using that by (simp add: viewGet_def min_def)
  qed
  obtain m where m: "viewSet (replicate 256 0) 16 (leBytes 4 1) = Inr m"
    using view.put_total [of 16 "leBytes 4 1" "replicate 256 0"] by auto
  have "viewGet m 16 4 = Inr (leBytes 4 1)" using view.get_put [OF m] by simp
  moreover have "\<exists>d. scheduleTimeoutEvent 0 (blankGo\<lparr>g_mem := replicate 256 0\<rparr>)
      = (Inr (), blankGo\<lparr>g_mem := m, g_nextTimeout := 2, g_timers := [(1, d)], g_scheduled := [1]\<rparr>)"
    using z m by (simp add: scheduleTimeoutEvent_def getInt64_def getUint32_def getInt32_def setUint32_def go_simps unsigned32_def blankGo_def)
  ultimately show thesis using that by blast
qed

theorem timeout_returns_witness:
  "\<exists>g1 g2. scheduleTimeoutEvent 0 (blankGo\<lparr>g_mem := replicate 256 0\<rparr>) = (Inr (), g1) \<and> g_scheduled g1 = [1]
     \<and> timeoutFires lateHost 1 g1 = Some (Inr (), g2) \<and> g_scheduled g2 = []
     \<and> g_console g2 = [Warn (js ''scheduleTimeoutEvent: missed timeout event'') None]
     \<and> timeoutFires plainHost 1 g1 = None"
proof -
  obtain m d where g1: "scheduleTimeoutEvent 0 (blankGo\<lparr>g_mem := replicate 256 0\<rparr>)
      = (Inr (), blankGo\<lparr>g_mem := m, g_nextTimeout := 2, g_timers := [(1, d)], g_scheduled := [1]\<rparr>)"
    and m: "viewGet m 16 4 = Inr (leBytes 4 1)"
    by (rule schedule_blank)
  define g where "g = blankGo\<lparr>g_mem := m, g_nextTimeout := 2, g_timers := [(1, d)], g_scheduled := [1]\<rparr>"
  have g: "\<not> g_exited g" "g_console g = []" "g_scheduled g = [1]" "g_view g" "g_mem g = m" "\<not> g_resolved g" by (simp_all add: g_def blankGo_def)
  let ?g = "g\<lparr>g_timers := []\<rparr>"
  have t: "filter (\<lambda>(j, d). j \<noteq> 1) (g_timers g) = []" by (simp add: g_def)
  have h: "h_resume lateHost s = (if g_console s = [] then (Inr (), s) else clearTimeoutEvent 8 s)" for s
    by (simp add: lateHost_def go_simps)
  have b: "beforeRun lateHost 1 g 0 = ?g" "beforeRun lateHost 1 g (Suc 0) = warned ?g"
    using g(2) by (simp_all add: beforeRun_def t h)
  have "missedRun lateHost 1 g 0" using g by (simp add: missedRun_def b h)
  then have all: "\<forall>k < Suc 0. missedRun lateHost 1 g k" by simp
  let ?s = "(warned ?g)\<lparr>g_scheduled := []\<rparr>"
  have "leNat (leBytes 4 1) = 1" by code_simp
  then have r: "h_resume lateHost (warned ?g) = (Inr (), ?s)"
    using g m by (simp add: h warned_def clearTimeoutEvent_def unsigned32_def getInt32_def getUint32_def signed32_def go_simps)
  then have last: "\<not> missedRun lateHost 1 g (Suc 0)" by (simp add: missedRun_def b)
  have "timeoutFires lateHost 1 g = Some (Inr (), ?s\<lparr>g_resolved := g_resolved ?s \<or> g_exited ?s\<rparr>)"
    using timeout_returns [of g lateHost 1 "Suc 0" "Inr ()" ?s] g(1) all last r b by simp
  moreover have "h_resume plainHost s = (Inr (), s)" for s by (simp add: plainHost_def go_simps)
  then have "beforeRun plainHost 1 g k = (warned ^^ k) ?g" for k by (simp add: beforeRun_def t)
  moreover have "g_scheduled ((warned ^^ k) s) = g_scheduled s \<and> g_exited ((warned ^^ k) s) = g_exited s" for k s
    by (induction k) (simp_all add: warned_def)
  ultimately have "\<forall>k. missedRun plainHost 1 g k" using g \<open>\<And>s. h_resume plainHost s = (Inr (), s)\<close> by (simp add: missedRun_def)
  then have "timeoutFires plainHost 1 g = None" using timeout_returns [of g plainHost 1] g(1) by blast
  moreover note \<open>timeoutFires lateHost 1 g = _\<close>
  ultimately show ?thesis using g1 g by (auto simp: g_def [symmetric] warned_def)
qed

end
