(* ===== verification/Go_Run.thy ===== *)
theory Go_Run
  imports Go_Imports "HOL-Library.List_Lexorder" "HOL-Library.Multiset"
begin

text \<open>
  \<^verbatim>\<open>Go.run\<close>: the arguments and the environment are written into the memory of the instance below the data of the
  program, as C strings followed by a table of pointers, and the program is started. The lemmas say what the
  program finds there.
\<close>

section \<open>The start\<close>

definition align8 :: "int \<Rightarrow> int" where
  "align8 offset = (if offset mod 8 \<noteq> 0 then offset + (8 - offset mod 8) else offset)"

definition cString :: "jstr \<Rightarrow> byte list" where
  "cString str = encodeUtf8 (str @ [0])"

definition strPtr :: "jstr \<Rightarrow> int \<Rightarrow> (int \<times> int) go" where
  "strPtr str offset = thenG (writeView offset (cString str)) (ret (offset, align8 (offset + int (length (cString str)))))"

fun strPtrs :: "jstr list \<Rightarrow> int \<Rightarrow> (int list \<times> int) go" where
  "strPtrs [] offset = ret ([], offset)"
| "strPtrs (str # strs) offset =
     bindG (strPtr str offset) (\<lambda>(ptr, offset). bindG (strPtrs strs offset) (\<lambda>(ptrs, offset). ret (ptr # ptrs, offset)))"

fun putPointers :: "int list \<Rightarrow> int \<Rightarrow> int go" where
  "putPointers [] offset = ret offset"
| "putPointers (ptr # ptrs) offset =
     thenG (thenG (setUint32 offset (nat (ptr mod 2 ^ 32))) (setUint32 (offset + 4) 0)) (putPointers ptrs (offset + 8))"

definition envStrings :: "(jstr \<times> jstr) list \<Rightarrow> jstr list" where
  "envStrings env = map (\<lambda>key. key @ js ''='' @ the (map_of env key)) (sort (map fst env))"

definition wasmMinDataAddr :: int where
  "wasmMinDataAddr = 4096 + 8192"

definition layoutArgs :: "jstr list \<Rightarrow> (jstr \<times> jstr) list \<Rightarrow> (nat \<times> int) go" where
  "layoutArgs argv env =
     bindG (strPtrs argv 4096) (\<lambda>(ptrs, offset).
     bindG (strPtrs (envStrings env) offset) (\<lambda>(eptrs, offset).
     bindG (putPointers (ptrs @ [0] @ eptrs @ [0]) offset) (\<lambda>limit.
       if limit \<ge> wasmMinDataAddr
       then raiseG (Error ''total length of command line and environment variables exceeds limit'')
       else ret (length argv, offset))))"

definition goRun :: "Host \<Rightarrow> byte list option \<Rightarrow> jstr list \<Rightarrow> (jstr \<times> jstr) list \<Rightarrow> unit go" where
  "goRun h inst argv env =
     (case inst of
        None \<Rightarrow> raiseG (Error ''Go.run: WebAssembly.Instance expected'')
      | Some m \<Rightarrow>
          thenG (modifyG (\<lambda>g. g\<lparr>g_mem := m, g_view := True, g_table := Some startTable, g_exited := False\<rparr>))
            (bindG (layoutArgs argv env) (\<lambda>(argc, a).
               thenG (h_run h argc a) (modifyG (\<lambda>g. if g_exited g then g\<lparr>g_resolved := True\<rparr> else g)))))"

section \<open>What is in memory\<close>

fun endOf :: "jstr list \<Rightarrow> int \<Rightarrow> int" where
  "endOf [] offset = offset"
| "endOf (str # strs) offset = endOf strs (align8 (offset + int (length (cString str))))"

fun ptrsOf :: "jstr list \<Rightarrow> int \<Rightarrow> int list" where
  "ptrsOf [] offset = []"
| "ptrsOf (str # strs) offset = offset # ptrsOf strs (align8 (offset + int (length (cString str))))"

lemma align8_ge: "offset \<le> align8 offset" "align8 offset mod 8 = 0"
  by (auto simp: align8_def) presburger

lemma endOf_ge: "offset \<le> endOf strs offset"
proof (induction strs arbitrary: offset)
  case (Cons str strs)
  have "offset \<le> align8 (offset + int (length (cString str)))" using align8_ge(1) [of "offset + int (length (cString str))"] by linarith
  then show ?case using Cons [of "align8 (offset + int (length (cString str)))"] by (simp del: align8_ge)
qed simp

lemma length_ptrsOf [simp]: "length (ptrsOf strs offset) = length strs"
  by (induction strs arbitrary: offset) auto

lemma endOf_append: "endOf (xs @ ys) offset = endOf ys (endOf xs offset)"
  by (induction xs arbitrary: offset) auto

lemma ptrsOf_append: "ptrsOf (xs @ ys) offset = ptrsOf xs offset @ ptrsOf ys (endOf xs offset)"
  by (induction xs arbitrary: offset) auto

lemma ptrsOf_bounds: "p \<in> set (ptrsOf strs offset) \<Longrightarrow> offset \<le> p \<and> p \<le> endOf strs offset"
proof (induction strs arbitrary: offset)
  case (Cons str strs)
  let ?o = "align8 (offset + int (length (cString str)))"
  have o: "offset \<le> ?o" using align8_ge(1) [of "offset + int (length (cString str))"] by linarith
  show ?case
  proof (cases "p = offset")
    case True
    then show ?thesis using endOf_ge [of ?o strs] o by simp
  next
    case False
    then have "?o \<le> p \<and> p \<le> endOf strs ?o" using Cons by (intro Cons.IH) auto
    then show ?thesis using o by simp
  qed
qed simp

definition stringsAt :: "byte list \<Rightarrow> int list \<Rightarrow> jstr list \<Rightarrow> bool" where
  "stringsAt m ptrs strs \<longleftrightarrow> list_all2 (\<lambda>p s. viewGet m p (length (cString s)) = Inr (cString s)) ptrs strs"

definition unchanged :: "byte list \<Rightarrow> byte list \<Rightarrow> int \<Rightarrow> int \<Rightarrow> bool" where
  "unchanged m m' low high \<longleftrightarrow> length m' = length m \<and> (\<forall>b k. b + int k \<le> low \<or> high \<le> b \<longrightarrow> viewGet m' b k = viewGet m b k)"

lemma unchanged_trans:
  "unchanged m m1 a b \<Longrightarrow> unchanged m1 m2 b c \<Longrightarrow> a \<le> b \<Longrightarrow> b \<le> c \<Longrightarrow> unchanged m m2 a c"
  unfolding unchanged_def by (metis order_trans)

lemma strPtrs_stores:
  assumes "g_view g" and "0 \<le> offset" and "endOf strs offset \<le> int (length (g_mem g))"
  shows "\<exists>m. strPtrs strs offset g = (Inr (ptrsOf strs offset, endOf strs offset), g\<lparr>g_mem := m\<rparr>)
    \<and> stringsAt m (ptrsOf strs offset) strs \<and> unchanged (g_mem g) m offset (endOf strs offset)"
  using assms
proof (induction strs arbitrary: g offset)
  case Nil
  then show ?case by (intro exI [of _ "g_mem g"]) (simp add: go_simps stringsAt_def unchanged_def)
next
  case (Cons str strs)
  let ?bs = "cString str" and ?e = "offset + int (length (cString str))"
  let ?o = "align8 ?e"
  have o: "?e \<le> ?o" "?o \<le> endOf strs ?o" using align8_ge(1) endOf_ge by blast+
  have fits: "?e \<le> int (length (g_mem g))" using Cons.prems(3) o by simp
  obtain m1 where m1: "viewSet (g_mem g) offset ?bs = Inr m1"
    using view.put_total [of offset ?bs "g_mem g"] Cons.prems(2) fits by blast
  let ?g = "g\<lparr>g_mem := m1\<rparr>"
  have len: "length m1 = length (g_mem g)" using view.put_size [OF m1] .
  obtain m where m: "strPtrs strs ?o ?g = (Inr (ptrsOf strs ?o, endOf strs ?o), ?g\<lparr>g_mem := m\<rparr>)"
    "stringsAt m (ptrsOf strs ?o) strs" "unchanged m1 m ?o (endOf strs ?o)"
    using Cons.IH [of ?g ?o] Cons.prems o len by auto
  have "viewGet m offset (length ?bs) = viewGet m1 offset (length ?bs)" using m(3) o(1) by (simp add: unchanged_def)
  then have own: "viewGet m offset (length ?bs) = Inr ?bs" using view.get_put [OF m1] by simp
  have "unchanged (g_mem g) m1 offset ?o" using view.get_other [OF m1] o(1) len by (auto simp: unchanged_def)
  then have "unchanged (g_mem g) m offset (endOf strs ?o)" using m(3) o Cons.prems(2) by (auto intro: unchanged_trans)
  moreover have "strPtrs (str # strs) offset g = (Inr (offset # ptrsOf strs ?o, endOf strs ?o), g\<lparr>g_mem := m\<rparr>)"
    using m(1) m1 Cons.prems(1) by (simp add: strPtr_def go_simps)
  ultimately show ?case using own m(2) by (intro exI [of _ m]) (simp add: stringsAt_def)
qed

lemma putPointers_stores:
  assumes "g_view g" and "0 \<le> offset" and "offset + 8 * int (length ps) \<le> int (length (g_mem g))" and "\<forall>p \<in> set ps. 0 \<le> p \<and> p < 2 ^ 32"
  shows "\<exists>m. putPointers ps offset g = (Inr (offset + 8 * int (length ps)), g\<lparr>g_mem := m\<rparr>)
    \<and> (\<forall>i < length ps. int64At m (offset + 8 * int i) (ps ! i)) \<and> unchanged (g_mem g) m offset (offset + 8 * int (length ps))"
  using assms
proof (induction ps arbitrary: g offset)
  case Nil
  then show ?case by (intro exI [of _ "g_mem g"]) (simp add: go_simps unchanged_def)
next
  case (Cons p ps)
  have w: "inside (g_mem g) offset 4" "inside (g_mem g) (offset + 4) 4" "offset + 4 \<le> offset + 4 \<or> offset + 4 + 4 \<le> offset"
    using Cons.prems(2,3) by (auto simp: inside_def)
  obtain m1 where m1: "thenG (setUint32 offset (nat (p mod 2 ^ 32))) (setUint32 (offset + 4) 0) g = (Inr (), g\<lparr>g_mem := m1\<rparr>)"
    "length m1 = length (g_mem g)" "viewGet m1 offset 4 = Inr (leBytes 4 (nat (p mod 2 ^ 32)))" "viewGet m1 (offset + 4) 4 = Inr (leBytes 4 0)"
    "\<forall>b k. (b + int k \<le> offset \<or> offset + 4 \<le> b) \<and> (b + int k \<le> offset + 4 \<or> offset + 4 + 4 \<le> b) \<longrightarrow> viewGet m1 b k = viewGet (g_mem g) b k"
    by (rule two_words [OF Cons.prems(1) w])
  let ?g = "g\<lparr>g_mem := m1\<rparr>"
  obtain m where m: "putPointers ps (offset + 8) ?g = (Inr (offset + 8 + 8 * int (length ps)), ?g\<lparr>g_mem := m\<rparr>)"
    "\<forall>i < length ps. int64At m (offset + 8 + 8 * int i) (ps ! i)" "unchanged m1 m (offset + 8) (offset + 8 + 8 * int (length ps))"
    using Cons.IH [of ?g "offset + 8"] Cons.prems m1(2) by auto
  have p: "p div 2 ^ 32 = 0" using Cons.prems(4) by simp
  have "viewGet m offset 4 = viewGet m1 offset 4" "viewGet m (offset + 4) 4 = viewGet m1 (offset + 4) 4" using m(3) by (simp_all add: unchanged_def)
  then have own: "int64At m offset p" using m1(3,4) p by (simp add: int64At_def)
  have "unchanged (g_mem g) m1 offset (offset + 8)" using m1(2,5) by (auto simp: unchanged_def)
  then have "unchanged (g_mem g) m offset (offset + 8 + 8 * int (length ps))" using m(3) by (rule unchanged_trans) auto
  moreover have "int64At m (offset + 8 * int i) ((p # ps) ! i)" if "i < length (p # ps)" for i
    using that own m(2) by (cases i) (auto simp: algebra_simps)
  ultimately show ?case using m(1) m1(1) by (intro exI [of _ m]) (simp add: thenG_def [of _ "putPointers _ _"] bindG_def algebra_simps)
qed

lemma stringsAt_unchanged:
  assumes "stringsAt m (ptrsOf strs offset) strs" and "unchanged m m' low high" and "endOf strs offset \<le> low"
  shows "stringsAt m' (ptrsOf strs offset) strs"
  using assms(1,3)
proof (induction strs arbitrary: offset)
  case (Cons str strs)
  let ?e = "offset + int (length (cString str))"
  have "?e \<le> align8 ?e" "align8 ?e \<le> endOf strs (align8 ?e)" using align8_ge(1) endOf_ge by blast+
  then have "?e \<le> low" using Cons.prems(2) by simp
  then have "viewGet m' offset (length (cString str)) = viewGet m offset (length (cString str))" using assms(2) by (simp add: unchanged_def)
  then show ?case using Cons by (simp add: stringsAt_def)
qed (simp add: stringsAt_def)

section \<open>Strings as the program sees them\<close>

lemma scalars_snoc_zero: "scalars (s @ [0]) = scalars s @ [0]"
  by (induction s rule: scalars.induct) (auto simp: is_high_def is_low_def)

lemma cString_terminated: "cString s = encodeUtf8 s @ [0]"
  by (simp add: cString_def encodeUtf8_def scalars_snoc_zero utf8_def)

lemma scalars_codePoints: "codePoints s = Some cps \<Longrightarrow> scalars s = cps"
  by (induction s arbitrary: cps rule: scalars.induct) (auto split: if_splits)

lemma layoutArgs_stores:
  fixes argv env
  defines "es \<equiv> envStrings env"
  defines "a \<equiv> endOf (argv @ es) 4096"
  defines "ps \<equiv> ptrsOf argv 4096 @ [0] @ ptrsOf es (endOf argv 4096) @ [0]"
  assumes "g_view g" and "a + 8 * int (length ps) \<le> int (length (g_mem g))" and "a < 2 ^ 32"
  obtains m where "layoutArgs argv env g =
      (if wasmMinDataAddr \<le> a + 8 * int (length ps)
       then raiseG (Error ''total length of command line and environment variables exceeds limit'') (g\<lparr>g_mem := m\<rparr>)
       else (Inr (length argv, a), g\<lparr>g_mem := m\<rparr>))"
    "stringsAt m (ptrsOf argv 4096) argv" "stringsAt m (ptrsOf es (endOf argv 4096)) es"
    "\<forall>i < length ps. int64At m (a + 8 * int i) (ps ! i)" "unchanged (g_mem g) m 4096 (a + 8 * int (length ps))"
proof -
  let ?b = "endOf argv 4096"
  have a: "a = endOf es ?b" by (simp add: a_def endOf_append)
  have le: "4096 \<le> ?b" "?b \<le> a" using endOf_ge [of 4096 argv] endOf_ge [of ?b es] by (simp_all add: a)
  obtain m1 where m1: "strPtrs argv 4096 g = (Inr (ptrsOf argv 4096, ?b), g\<lparr>g_mem := m1\<rparr>)"
    "stringsAt m1 (ptrsOf argv 4096) argv" "unchanged (g_mem g) m1 4096 ?b"
    using strPtrs_stores [OF assms(4), of 4096 argv] assms(5) le by auto
  let ?g1 = "g\<lparr>g_mem := m1\<rparr>"
  have l1: "length m1 = length (g_mem g)" using m1(3) by (simp add: unchanged_def)
  obtain m2 where m2: "strPtrs es ?b ?g1 = (Inr (ptrsOf es ?b, a), ?g1\<lparr>g_mem := m2\<rparr>)"
    "stringsAt m2 (ptrsOf es ?b) es" "unchanged m1 m2 ?b a"
    using strPtrs_stores [of ?g1 ?b es] assms(4,5) le l1 by (auto simp: a)
  let ?g2 = "g\<lparr>g_mem := m2\<rparr>"
  have l2: "length m2 = length (g_mem g)" using m2(3) l1 by (simp add: unchanged_def)
  have small: "\<forall>p \<in> set ps. 0 \<le> p \<and> p < 2 ^ 32"
  proof
    fix p assume "p \<in> set ps"
    then consider "p = 0" | "p \<in> set (ptrsOf argv 4096)" | "p \<in> set (ptrsOf es ?b)" by (auto simp: ps_def)
    then have "0 \<le> p \<and> p \<le> a"
      using ptrsOf_bounds [of p argv 4096] ptrsOf_bounds [of p es ?b] le by cases (auto simp: a)
    then show "0 \<le> p \<and> p < 2 ^ 32" using assms(6) by simp
  qed
  obtain m where m: "putPointers ps a ?g2 = (Inr (a + 8 * int (length ps)), ?g2\<lparr>g_mem := m\<rparr>)"
    "\<forall>i < length ps. int64At m (a + 8 * int i) (ps ! i)" "unchanged m2 m a (a + 8 * int (length ps))"
    using putPointers_stores [of ?g2 a ps] assms(4,5) le l2 small by auto
  show thesis
  proof
    show "layoutArgs argv env g =
      (if wasmMinDataAddr \<le> a + 8 * int (length ps)
       then raiseG (Error ''total length of command line and environment variables exceeds limit'') (g\<lparr>g_mem := m\<rparr>)
       else (Inr (length argv, a), g\<lparr>g_mem := m\<rparr>))"
      using m1(1) m2(1) m(1) by (simp add: layoutArgs_def es_def [symmetric] bindG_def ps_def ret_def)
    show "stringsAt m (ptrsOf es ?b) es" by (rule stringsAt_unchanged [OF m2(2) m(3)]) (simp add: a)
    have "stringsAt m2 (ptrsOf argv 4096) argv" by (rule stringsAt_unchanged [OF m1(2) m2(3)]) simp
    then show "stringsAt m (ptrsOf argv 4096) argv" by (rule stringsAt_unchanged [OF _ m(3)]) (rule le)
    have "unchanged (g_mem g) m2 4096 a" using m1(3) m2(3) le by (rule unchanged_trans)
    then show "unchanged (g_mem g) m 4096 (a + 8 * int (length ps))" by (rule unchanged_trans [OF _ m(3)]) (use le in auto)
  qed (rule m(2))
qed

lemma goRun_layout:
  assumes "a = endOf (argv @ envStrings env) 4096"
    and "ps = ptrsOf argv 4096 @ [0] @ ptrsOf (envStrings env) (endOf argv 4096) @ [0]"
    and "a + 8 * int (length ps) \<le> int (length m0)" and "length m0 \<le> 2 ^ 32"
  shows "(a + 8 * int (length ps) < 12288 \<longrightarrow>
      (\<exists>m. goRun h (Some m0) argv env g =
          thenG (h_run h (length argv) a) (modifyG (\<lambda>g. if g_exited g then g\<lparr>g_resolved := True\<rparr> else g))
            (g\<lparr>g_mem := m, g_view := True, g_table := Some startTable, g_exited := False\<rparr>)
        \<and> stringsAt m (ptrsOf argv 4096) argv \<and> stringsAt m (ptrsOf (envStrings env) (endOf argv 4096)) (envStrings env)
        \<and> (\<forall>i < length ps. int64At m (a + 8 * int i) (ps ! i)) \<and> unchanged m0 m 4096 12288))
    \<and> (12288 \<le> a + 8 * int (length ps) \<longrightarrow>
      (\<exists>e g'. goRun h (Some m0) argv env g = (Inl (VObj e), g')
        \<and> g_errors g' e = Some (Error ''total length of command line and environment variables exceeds limit'')))"
proof -
  let ?g = "g\<lparr>g_mem := m0, g_view := True, g_table := Some startTable, g_exited := False\<rparr>"
  have small: "endOf (argv @ envStrings env) 4096 < 2 ^ 32"
  proof -
    have "a + 8 * int (length ps) \<le> 2 ^ 32" using assms(3,4) by simp
    moreover have "2 \<le> length ps" by (simp add: assms(2))
    ultimately show ?thesis unfolding assms(1) [symmetric] by linarith
  qed
  obtain m where m: "layoutArgs argv env ?g =
      (if wasmMinDataAddr \<le> a + 8 * int (length ps)
       then raiseG (Error ''total length of command line and environment variables exceeds limit'') (?g\<lparr>g_mem := m\<rparr>)
       else (Inr (length argv, a), ?g\<lparr>g_mem := m\<rparr>))"
    "stringsAt m (ptrsOf argv 4096) argv" "stringsAt m (ptrsOf (envStrings env) (endOf argv 4096)) (envStrings env)"
    "\<forall>i < length ps. int64At m (a + 8 * int i) (ps ! i)" "unchanged (g_mem ?g) m 4096 (a + 8 * int (length ps))"
    using layoutArgs_stores [of ?g argv env] assms(3) small unfolding assms(1,2) by auto
  have run: "goRun h (Some m0) argv env g = bindG (layoutArgs argv env) (\<lambda>(argc, a).
      thenG (h_run h argc a) (modifyG (\<lambda>g. if g_exited g then g\<lparr>g_resolved := True\<rparr> else g))) ?g"
    by (simp add: goRun_def thenG_def [of "modifyG _"] bindG_def [of "modifyG _"] modifyG_def [of _ g])
  have eq: "?g\<lparr>g_mem := m\<rparr> = g\<lparr>g_mem := m, g_view := True, g_table := Some startTable, g_exited := False\<rparr>" by (cases g) simp
  show ?thesis
  proof (cases "wasmMinDataAddr \<le> a + 8 * int (length ps)")
    case True
    then show ?thesis unfolding run using m(1) by (simp add: bindG_def raiseG_def wasmMinDataAddr_def)
  next
    case False
    then have "unchanged m0 m 4096 12288" using m(5) by (auto simp: unchanged_def wasmMinDataAddr_def)
    then show ?thesis unfolding run using m(1) [unfolded eq] m(2-4) False by (intro conjI impI exI [of _ m]) (simp_all add: bindG_def wasmMinDataAddr_def)
  qed
qed

section \<open>The addresses\<close>

text \<open>The room a string takes: its bytes and the terminating zero, in words of eight bytes. The strings stand in this
  room one after another from 4096 on.\<close>

definition room :: "jstr \<Rightarrow> int" where
  "room s = 8 * ((int (length (encodeUtf8 s)) + 8) div 8)"

definition addressOf :: "jstr list \<Rightarrow> nat \<Rightarrow> int" where
  "addressOf strs i = 4096 + sum_list (map room (take i strs))"

lemma align8_room: "offset mod 8 = 0 \<Longrightarrow> align8 (offset + int (length (cString s))) = offset + room s"
  unfolding align8_def room_def cString_terminated by (simp add: add.commute) presburger

lemma room_mod: "offset mod 8 = 0 \<Longrightarrow> (offset + room s) mod 8 = 0"
  unfolding room_def by presburger

lemma endOf_rooms: "offset mod 8 = 0 \<Longrightarrow> endOf strs offset = offset + sum_list (map room strs)"
  by (induction strs arbitrary: offset) (simp_all add: align8_room room_mod)

lemma nth_ptrsOf:
  "offset mod 8 = 0 \<Longrightarrow> i < length strs \<Longrightarrow> ptrsOf strs offset ! i = offset + sum_list (map room (take i strs))"
proof (induction strs arbitrary: offset i)
  case (Cons s strs)
  then show ?case by (cases i) (simp_all add: align8_room room_mod)
qed simp

lemma ptrsOf_addresses:
  "ptrsOf xs 4096 @ [0] @ ptrsOf ys (endOf xs 4096) @ [0]
    = map (addressOf (xs @ ys)) [0..<length xs] @ [0] @ map (addressOf (xs @ ys)) [length xs..<length (xs @ ys)] @ [0]"
proof -
  have "ptrsOf (xs @ ys) 4096 = map (addressOf (xs @ ys)) [0..<length (xs @ ys)]"
    by (rule nth_equalityI) (simp_all add: nth_ptrsOf addressOf_def)
  then have "ptrsOf xs 4096 @ ptrsOf ys (endOf xs 4096)
      = map (addressOf (xs @ ys)) [0..<length xs] @ map (addressOf (xs @ ys)) [length xs..<length (xs @ ys)]"
    unfolding ptrsOf_append map_append [symmetric] by (simp only: length_append upt_add_eq_append [OF le0, symmetric])
  then show ?thesis by (simp add: append_eq_append_conv)
qed

lemma addressOf_aligned: "8 dvd addressOf strs i"
proof -
  have "8 dvd sum_list (map room xs)" for xs by (induction xs) (simp_all add: room_def)
  then show ?thesis by (simp add: addressOf_def)
qed

lemma stringsAt_addresses:
  assumes "stringsAt m (ptrsOf xs 4096) xs" and "stringsAt m (ptrsOf ys (endOf xs 4096)) ys" and "i < length (xs @ ys)"
  shows "viewGet m (addressOf (xs @ ys) i) (length (encodeUtf8 ((xs @ ys) ! i)) + 1) = Inr (encodeUtf8 ((xs @ ys) ! i) @ [0])"
proof -
  have "stringsAt m (ptrsOf (xs @ ys) 4096) (xs @ ys)" using assms(1,2) by (simp add: stringsAt_def ptrsOf_append list_all2_appendI)
  then show ?thesis
    using list_all2_nthD2 [OF _ assms(3)] nth_ptrsOf [OF _ assms(3), of 4096] by (fastforce simp: stringsAt_def addressOf_def cString_terminated)
qed

section \<open>Correctness\<close>

text \<open>\<^bold>\<open>C10.\<close> What \<^verbatim>\<open>Go.run\<close> leaves for the program. The strings are the arguments and, in the order of the keys, each \<^verbatim>\<open>key=value\<close> of
  the environment. Each of them is in memory as UTF-8 bytes with a terminating zero, from 4096 on, each in as many whole words of
  eight bytes as it needs. Directly after them is the table of pointers, eight bytes each: the arguments, a null pointer, the environment and
  a null pointer. All these addresses are divisible by eight. The memory below 4096 and from 12288 on, where the data of the program
  starts, is untouched and the program is started with the number of arguments and the address of the table. If the table would reach
  that data, nothing is started and the error says so.\<close>

theorem args_layout:
  assumes keys: "mset keys = mset (map fst env)" "sorted keys"
    and strs: "strs = argv @ map (\<lambda>key. key @ js ''='' @ the (map_of env key)) keys"
    and a: "a = addressOf strs (length strs)"
    and ps: "ps = map (addressOf strs) [0..<length argv] @ [0] @ map (addressOf strs) [length argv..<length strs] @ [0]"
    and "a + 8 * int (length ps) \<le> int (length m0)" and "length m0 \<le> 2 ^ 32"
  shows "8 dvd a \<and> (\<forall>p \<in> set ps. 8 dvd p)
    \<and> (a + 8 * int (length ps) < 12288 \<longrightarrow>
      (\<exists>m. goRun h (Some m0) argv env g =
          thenG (h_run h (length argv) a) (modifyG (\<lambda>g. if g_exited g then g\<lparr>g_resolved := True\<rparr> else g))
            (g\<lparr>g_mem := m, g_view := True, g_table := Some startTable, g_exited := False\<rparr>)
        \<and> (\<forall>i < length strs. viewGet m (addressOf strs i) (length (encodeUtf8 (strs ! i)) + 1) = Inr (encodeUtf8 (strs ! i) @ [0]))
        \<and> (\<forall>i < length ps. int64At m (a + 8 * int i) (ps ! i)) \<and> unchanged m0 m 4096 12288))
    \<and> (12288 \<le> a + 8 * int (length ps) \<longrightarrow>
      (\<exists>e g'. goRun h (Some m0) argv env g = (Inl (VObj e), g')
        \<and> g_errors g' e = Some (Error ''total length of command line and environment variables exceeds limit'')))"
proof -
  have "sort (map fst env) = keys" using keys by (rule properties_for_sort)
  then have s: "strs = argv @ envStrings env" by (simp add: strs envStrings_def)
  have "a = endOf (argv @ envStrings env) 4096" unfolding a s by (simp add: endOf_rooms addressOf_def)
  note layout = goRun_layout [OF this ps [unfolded s, folded ptrsOf_addresses] assms(6,7), of h g]
  have "8 dvd a \<and> (\<forall>p \<in> set ps. 8 dvd p)" unfolding a ps by (auto intro: addressOf_aligned)
  moreover have "\<forall>i < length strs. viewGet m (addressOf strs i) (length (encodeUtf8 (strs ! i)) + 1) = Inr (encodeUtf8 (strs ! i) @ [0])"
    if "stringsAt m (ptrsOf argv 4096) argv" "stringsAt m (ptrsOf (envStrings env) (endOf argv 4096)) (envStrings env)" for m
    using stringsAt_addresses [OF that] unfolding s by blast
  ultimately show ?thesis using layout by blast
qed

theorem args_layout_witness:
  "\<exists>m. viewGet m 4096 3 = Inr (encodeUtf8 (js ''js'') @ [0]) \<and> viewGet m 4104 4 = Inr (encodeUtf8 (js ''k=v'') @ [0])
     \<and> int64At m 4112 4096 \<and> int64At m 4120 0 \<and> int64At m 4128 4104 \<and> int64At m 4136 0
     \<and> fst (goRun plainHost (Some (replicate 16384 0)) [js ''js''] [(js ''k'', js ''v'')] blankGo) = Inr ()"
proof -
  let ?s = "[js ''js'', js ''k=v'']" and ?p = "[4096, 0, 4104, 0] :: int list"
  have l: "length (encodeUtf8 (js ''js'')) = 2" "length (encodeUtf8 (js ''k=v'')) = 3"
    by (simp_all add: encodeUtf8_def js_def utf8_def is_high_def is_low_def)
  have ad: "addressOf ?s 0 = 4096" "addressOf ?s 1 = 4104" "addressOf ?s 2 = 4112" by (simp_all add: addressOf_def room_def l)
  have t: "int64At m 4112 4096 \<and> int64At m 4120 0 \<and> int64At m 4128 4104 \<and> int64At m 4136 0"
    if "\<forall>i < length ?p. int64At m (4112 + 8 * int i) (?p ! i)" for m
    using that [rule_format, of 0] that [rule_format, of 1] that [rule_format, of 2] that [rule_format, of 3] by simp
  have v: "viewGet m 4096 3 = Inr (encodeUtf8 (js ''js'') @ [0]) \<and> viewGet m 4104 4 = Inr (encodeUtf8 (js ''k=v'') @ [0])"
    if "\<forall>i < length ?s. viewGet m (addressOf ?s i) (length (encodeUtf8 (?s ! i)) + 1) = Inr (encodeUtf8 (?s ! i) @ [0])" for m
    using that [rule_format, of 0] that [rule_format, of 1] ad by (simp add: l)
  have strs: "?s = [js ''js''] @ map (\<lambda>key. key @ js ''='' @ the (map_of [(js ''k'', js ''v'')] key)) [js ''k'']" by (simp add: js_def)
  have ps: "?p = map (addressOf ?s) [0..<length [js ''js'']] @ [0] @ map (addressOf ?s) [length [js ''js'']..<length ?s] @ [0]"
    using ad by (simp add: upt_rec)
  have a: "4112 = addressOf ?s (length ?s)" using ad(3) by (simp add: numeral_2_eq_2)
  obtain m where m: "goRun plainHost (Some (replicate 16384 0)) [js ''js''] [(js ''k'', js ''v'')] blankGo =
      thenG (h_run plainHost (length [js ''js'']) 4112) (modifyG (\<lambda>g. if g_exited g then g\<lparr>g_resolved := True\<rparr> else g))
        (blankGo\<lparr>g_mem := m, g_view := True, g_table := Some startTable, g_exited := False\<rparr>)"
    "\<forall>i < length ?s. viewGet m (addressOf ?s i) (length (encodeUtf8 (?s ! i)) + 1) = Inr (encodeUtf8 (?s ! i) @ [0])"
    "\<forall>i < length ?p. int64At m (4112 + 8 * int i) (?p ! i)"
    using args_layout [OF _ _ strs a ps, of "replicate 16384 0" plainHost blankGo] by auto
  then show ?thesis using t [OF m(3)] v [OF m(2)] by (intro exI [of _ m]) (simp add: plainHost_def go_simps)
qed

end
