(* ===== verification/Go_Load.thy ===== *)
theory Go_Load
  imports Go_Run
begin

text \<open>
  Loading \<^verbatim>\<open>wasm_exec.js\<close>: the stand-ins for a file system, a process and paths, the interfaces the browser must have, the
  object a page constructs, and the two imports with which the Go project tests its compiler.
\<close>

section \<open>The global object\<close>

datatype provider = Absent | Native | StandIn

record Globals =
  gl_fs :: provider
  gl_process :: provider
  gl_path :: provider
  gl_crypto :: provider
  gl_performance :: provider
  gl_TextEncoder :: provider
  gl_TextDecoder :: provider
  gl_Go :: provider

definition standIn :: "provider \<Rightarrow> provider" where
  "standIn p = (if p = Absent then StandIn else p)"

definition standIns :: "Globals \<Rightarrow> Globals" where
  "standIns w = w\<lparr>gl_fs := standIn (gl_fs w), gl_process := standIn (gl_process w), gl_path := standIn (gl_path w)\<rparr>"

text \<open>The checks come after the stand-ins and stop at the first interface that is missing.\<close>

definition missing :: "Globals \<Rightarrow> js_error option" where
  "missing w =
     (if gl_crypto w = Absent then Some (Error ''globalThis.crypto is not available, polyfill required (crypto.getRandomValues only)'')
      else if gl_performance w = Absent then Some (Error ''globalThis.performance is not available, polyfill required (performance.now only)'')
      else if gl_TextEncoder w = Absent then Some (Error ''globalThis.TextEncoder is not available, polyfill required'')
      else if gl_TextDecoder w = Absent then Some (Error ''globalThis.TextDecoder is not available, polyfill required'')
      else None)"

definition loadScript :: "Globals \<Rightarrow> js_error option \<times> Globals" where
  "loadScript w =
     (let w = standIns w
      in case missing w of Some e \<Rightarrow> (Some e, w) | None \<Rightarrow> (None, w\<lparr>gl_Go := StandIn\<rparr>))"

section \<open>The object\<close>

definition newArgv :: "jstr list" where
  "newArgv = [js ''js'']"

definition newGo :: Go where
  "newGo = \<lparr>g_mem = [], g_view = False, g_table = None, g_bytes = Map.empty, g_nextObj = 2, g_errors = Map.empty,
     g_console = [], g_outputBuf = [], g_pending = None, g_events = Map.empty, g_scheduled = [], g_timers = [], g_nextTimeout = 1,
     g_exited = False, g_resolved = False\<rparr>"

definition gotestAdd :: "jsnum \<Rightarrow> jsnum \<Rightarrow> jsnum" where
  "gotestAdd a b = numAdd a b"

text \<open>The exports it calls belong to the program.\<close>

definition testCallExport :: "unit go \<Rightarrow> (jsnum \<Rightarrow> jsnum \<Rightarrow> jsnum go) \<Rightarrow> jsnum \<Rightarrow> jsnum \<Rightarrow> jsnum go" where
  "testCallExport testExport0 testExport a b = thenG testExport0 (testExport a b)"

section \<open>Facts\<close>

text \<open>Loading succeeds exactly when the four interfaces are there; what the page had before is kept either way, and a second
  load changes nothing.\<close>

lemma missing_standIns: "missing (standIns w) = missing w" "missing (w\<lparr>gl_Go := p\<rparr>) = missing w"
  by (simp_all add: missing_def standIns_def)

lemma standIns_idem: "standIns (standIns w) = standIns w" "standIns ((standIns w)\<lparr>gl_Go := p\<rparr>) = (standIns w)\<lparr>gl_Go := p\<rparr>"
  by (simp_all add: standIns_def standIn_def)

lemma loadScript_ok:
  "fst (loadScript w) = None \<longleftrightarrow> Absent \<notin> {gl_crypto w, gl_performance w, gl_TextEncoder w, gl_TextDecoder w}"
proof -
  have "fst (loadScript w) = None \<longleftrightarrow> missing w = None" by (cases "missing w") (simp_all add: loadScript_def missing_standIns)
  then show ?thesis by (auto simp: missing_def)
qed

lemma loadScript_keeps:
  assumes "loadScript w = (e, w')"
  shows "gl_fs w' = standIn (gl_fs w) \<and> gl_process w' = standIn (gl_process w) \<and> gl_path w' = standIn (gl_path w)"
    and "loadScript w' = (e, w')"
proof -
  consider "missing w = None" "w' = (standIns w)\<lparr>gl_Go := StandIn\<rparr>" "e = None" | d where "missing w = Some d" "w' = standIns w" "e = Some d"
    using assms by (cases "missing w") (auto simp: loadScript_def missing_standIns Let_def)
  then have "(gl_fs w' = standIn (gl_fs w) \<and> gl_process w' = standIn (gl_process w) \<and> gl_path w' = standIn (gl_path w)) \<and> loadScript w' = (e, w')"
    by cases (simp_all add: loadScript_def standIns_idem missing_standIns, simp_all add: standIns_def)
  then show "gl_fs w' = standIn (gl_fs w) \<and> gl_process w' = standIn (gl_process w) \<and> gl_path w' = standIn (gl_path w)" "loadScript w' = (e, w')"
    by blast+
qed

text \<open>Before it runs a program, the object has no memory: everything that reads or writes it throws.\<close>

lemma newGo_no_memory: "\<exists>e g. readView a k newGo = (Inl e, g)" "\<exists>e g. writeView a bs newGo = (Inl e, g)"
  by (simp_all add: readView_def writeView_def newGo_def raiseG_def)

end
