(* ===== verification/Site_Canvas.thy ===== *)
theory Site_Canvas
  imports Js_Number
begin

text \<open>
  Two-dimensional canvas contexts, as the scripts of the site use them, and the arithmetic operators on doubles. A drawing is
  a list of commands; the context that executes them keeps the styles between commands, ignores values the
  standard says to ignore, and throws when a circle has a negative radius, which ends the drawing. Colours and fonts are
  kept as the texts assigned.
\<close>

section \<open>Operators\<close>

instantiation jsnum :: "{plus, minus, uminus, times, inverse, modulo, ord}"
begin

definition plus_jsnum_def: "x + y = numAdd x y"
definition minus_jsnum_def: "x - y = numSub x y"
definition uminus_jsnum_def: "- x = numNeg x"
definition times_jsnum_def: "x * y = numMul x y"
definition divide_jsnum_def: "x div y = numDiv x y"
definition inverse_jsnum_def: "inverse x = numDiv (Fin 1) x"
definition modulo_jsnum_def: "x mod y = numMod x y"
definition less_jsnum_def: "x < y \<longleftrightarrow> numLess x y"
definition less_eq_jsnum_def: "x \<le> y \<longleftrightarrow> x \<noteq> NaN \<and> y \<noteq> NaN \<and> \<not> numLess y x"

instance ..

end

text \<open>A decimal literal.\<close>

definition dec :: "rat \<Rightarrow> jsnum" where
  "dec q = toDouble q"

definition num :: "nat \<Rightarrow> jsnum" where
  "num n = Fin (of_nat n)"

definition mathPI :: jsnum where
  "mathPI = dec (3141592653589793 / 10 ^ 15)"

text \<open>The functions of \<^verbatim>\<open>Math\<close> whose results the standard leaves to the implementation.\<close>

record Maths =
  ma_sin :: "jsnum \<Rightarrow> jsnum"
  ma_cos :: "jsnum \<Rightarrow> jsnum"
  ma_pow :: "jsnum \<Rightarrow> jsnum \<Rightarrow> jsnum"
  ma_log10 :: "jsnum \<Rightarrow> jsnum"
  ma_hypot :: "jsnum \<Rightarrow> jsnum \<Rightarrow> jsnum"

definition numAbs :: "jsnum \<Rightarrow> jsnum" where
  "numAbs x = (if x < Fin 0 then - x else x)"

text \<open>The size of a canvas in its own pixels, and the pixel ratio.\<close>

record Screen =
  scW :: jsnum
  scH :: jsnum
  scD :: jsnum

section \<open>The context\<close>

datatype ctxCmd =
    CSize jsnum jsnum \<comment> \<open>assignment to width and height of the canvas\<close>
  | CClear jsnum jsnum
  | CBegin | CMove jsnum jsnum | CLine jsnum jsnum
  | CArc jsnum jsnum jsnum jsnum jsnum \<comment> \<open>centre, radius, angles\<close>
  | CArcTo jsnum jsnum jsnum jsnum jsnum \<comment> \<open>two points, radius\<close>
  | CEllipse jsnum jsnum jsnum jsnum \<comment> \<open>centre, radii; the whole ellipse\<close>
  | CClose | CFill | CStroke | CText jstr jsnum jsnum
  | CFillStyle jstr | CStrokeStyle jstr | CLineWidth jsnum | CAlpha jsnum
  | CDash "jsnum list" | CDashOffset jsnum | CCap string | CAlign string | CBaseline string | CFont jstr

datatype domError = IndexSizeError

record Ctx =
  cx_fill :: jstr
  cx_stroke :: jstr
  cx_width :: jsnum
  cx_alpha :: jsnum
  cx_dash :: "jsnum list"
  cx_dashOffset :: jsnum
  cx_cap :: string
  cx_align :: string
  cx_baseline :: string
  cx_font :: jstr
  cx_path :: "ctxCmd list"
  cx_ink :: "(ctxCmd list \<times> jstr \<times> jsnum) list" \<comment> \<open>what was painted: path or text, style and opacity\<close>

text \<open>A fresh context, also after an assignment to the size of its canvas.\<close>

definition freshCtx :: Ctx where
  "freshCtx = \<lparr>cx_fill = js ''#000000'', cx_stroke = js ''#000000'', cx_width = Fin 1, cx_alpha = Fin 1, cx_dash = [], cx_dashOffset = Fin 0,
     cx_cap = ''butt'', cx_align = ''start'', cx_baseline = ''alphabetic'', cx_font = js ''10px sans-serif'', cx_path = [], cx_ink = []\<rparr>"

definition isFinite :: "jsnum \<Rightarrow> bool" where
  "isFinite x \<longleftrightarrow> (case x of Fin _ \<Rightarrow> True | _ \<Rightarrow> False)"

text \<open>Commands with an argument that is not finite do nothing; otherwise a negative radius is an error.\<close>

fun throws :: "ctxCmd \<Rightarrow> bool" where
  "throws (CArc x y r a b) \<longleftrightarrow> list_all isFinite [x, y, r, a, b] \<and> r < Fin 0"
| "throws (CArcTo x y x' y' r) \<longleftrightarrow> list_all isFinite [x, y, x', y', r] \<and> r < Fin 0"
| "throws (CEllipse x y r s) \<longleftrightarrow> list_all isFinite [x, y, r, s] \<and> (r < Fin 0 \<or> s < Fin 0)"
| "throws _ \<longleftrightarrow> False"

fun execCmd :: "ctxCmd \<Rightarrow> Ctx \<Rightarrow> Ctx" where
  "execCmd CBegin c = c\<lparr>cx_path := []\<rparr>"
| "execCmd (CMove x y) c = (if list_all isFinite [x, y] then c\<lparr>cx_path := cx_path c @ [CMove x y]\<rparr> else c)"
| "execCmd (CLine x y) c = (if list_all isFinite [x, y] then c\<lparr>cx_path := cx_path c @ [CLine x y]\<rparr> else c)"
| "execCmd (CArc x y r a b) c = (if list_all isFinite [x, y, r, a, b] then c\<lparr>cx_path := cx_path c @ [CArc x y r a b]\<rparr> else c)"
| "execCmd (CArcTo x y x' y' r) c = (if list_all isFinite [x, y, x', y', r] then c\<lparr>cx_path := cx_path c @ [CArcTo x y x' y' r]\<rparr> else c)"
| "execCmd (CEllipse x y r s) c = (if list_all isFinite [x, y, r, s] then c\<lparr>cx_path := cx_path c @ [CEllipse x y r s]\<rparr> else c)"
| "execCmd CClose c = c\<lparr>cx_path := cx_path c @ [CClose]\<rparr>"
| "execCmd (CSize w h) c = freshCtx"
| "execCmd (CClear w h) c = c\<lparr>cx_ink := []\<rparr>"
| "execCmd CFill c = c\<lparr>cx_ink := cx_ink c @ [(cx_path c, cx_fill c, cx_alpha c)]\<rparr>"
| "execCmd CStroke c = c\<lparr>cx_ink := cx_ink c @ [(cx_path c, cx_stroke c, cx_alpha c)]\<rparr>"
| "execCmd (CText s x y) c = (if list_all isFinite [x, y] then c\<lparr>cx_ink := cx_ink c @ [([CText s x y], cx_fill c, cx_alpha c)]\<rparr> else c)"
| "execCmd (CFillStyle s) c = c\<lparr>cx_fill := s\<rparr>"
| "execCmd (CStrokeStyle s) c = c\<lparr>cx_stroke := s\<rparr>"
| "execCmd (CLineWidth w) c = (if isFinite w \<and> Fin 0 < w then c\<lparr>cx_width := w\<rparr> else c)"
| "execCmd (CAlpha a) c = (if Fin 0 \<le> a \<and> a \<le> Fin 1 then c\<lparr>cx_alpha := a\<rparr> else c)"
| "execCmd (CDash ds) c = (if list_all (\<lambda>d. isFinite d \<and> Fin 0 \<le> d) ds then c\<lparr>cx_dash := (if even (length ds) then ds else ds @ ds)\<rparr> else c)"
| "execCmd (CDashOffset x) c = (if isFinite x then c\<lparr>cx_dashOffset := x\<rparr> else c)"
| "execCmd (CCap s) c = c\<lparr>cx_cap := s\<rparr>"
| "execCmd (CAlign s) c = c\<lparr>cx_align := s\<rparr>"
| "execCmd (CBaseline s) c = c\<lparr>cx_baseline := s\<rparr>"
| "execCmd (CFont s) c = c\<lparr>cx_font := s\<rparr>"

fun paint :: "ctxCmd list \<Rightarrow> Ctx \<Rightarrow> domError option \<times> Ctx" where
  "paint [] c = (None, c)"
| "paint (cmd # cmds) c = (if throws cmd then (Some IndexSizeError, c) else paint cmds (execCmd cmd c))"

text \<open>Texts of styles.\<close>

definition rgba :: "string \<Rightarrow> jsnum \<Rightarrow> jstr" where
  "rgba rgb a = js ''rgba('' @ js rgb @ js '','' @ numberToString a @ js '')''"

definition pxFont :: "jsnum \<Rightarrow> string \<Rightarrow> jstr" where
  "pxFont px family = numberToString px @ js ''px '' @ js family"

section \<open>Signs\<close>

text \<open>Not below a bound: NaN counts, since nothing compares below with it.\<close>

definition notBelow :: "rat \<Rightarrow> jsnum \<Rightarrow> bool" where
  "notBelow b x \<longleftrightarrow> \<not> x < Fin b"

abbreviation nn :: "jsnum \<Rightarrow> bool" where
  "nn \<equiv> notBelow 0"

lemmas js_ops = plus_jsnum_def minus_jsnum_def uminus_jsnum_def times_jsnum_def divide_jsnum_def modulo_jsnum_def less_jsnum_def less_eq_jsnum_def

lemma slash_jsnum: "x / y = numDiv x y" for x y :: jsnum
  by (simp add: divide_jsnum_def)

lemma roundEven_minus: "roundEven (- y) = - roundEven y"
proof -
  define f where "f = \<lfloor>y\<rfloor>"
  have f: "of_int f \<le> y" "y < of_int f + 1" unfolding f_def by linarith+
  show ?thesis
  proof (cases "y = of_int f")
    case True
    then show ?thesis using roundEven_of_int [of f] roundEven_of_int [of "- f"] by simp
  next
    case False
    then have "\<lfloor>- y\<rfloor> = - f - 1" using f by (intro floor_unique) auto
    then show ?thesis using f unfolding roundEven_def f_def [symmetric] by (auto simp: Let_def)
  qed
qed

lemma doubleOf_minus: "doubleOf (- x) = - doubleOf x"
  using roundEven_minus [of "x / ulp x"] by (simp add: doubleOf_def ulp_def)

lemma doubleOf_mono_le: "isDouble y \<Longrightarrow> x \<le> y \<Longrightarrow> doubleOf x \<le> y"
  using doubleOf_le [of y x] doubleOf_ge [of "- y" "- x"] doubleOf_nonneg [of "- x"] isDouble_minus [of y]
  by (cases "0 \<le> x"; cases "0 \<le> y") (auto simp: doubleOf_minus)

lemma doubleOf_mono_ge: "isDouble y \<Longrightarrow> y \<le> x \<Longrightarrow> y \<le> doubleOf x"
  using doubleOf_mono_le [of "- y" "- x"] isDouble_minus [of y] by (simp add: doubleOf_minus)

lemma notBelow_Fin [simp]: "notBelow b (Fin q) \<longleftrightarrow> b \<le> q"
  by (auto simp: notBelow_def js_ops)

lemma notBelow_NaN [simp]: "notBelow b NaN"
  by (simp add: notBelow_def js_ops)

lemma notBelow_Infinite [simp]: "notBelow b (Infinite n) \<longleftrightarrow> \<not> n"
  by (simp add: notBelow_def js_ops)

lemma notBelow_toDouble: "isDouble b \<Longrightarrow> b \<le> q \<Longrightarrow> - (2 ^ 1023) \<le> b \<Longrightarrow> notBelow b (toDouble q)"
proof -
  assume a: "isDouble b" "b \<le> q" "- (2 ^ 1023) \<le> b"
  have d: "b \<le> doubleOf q" using a by (intro doubleOf_mono_ge)
  show ?thesis
  proof (cases "toDouble q = Fin (doubleOf q)")
    case False
    then have big: "2 ^ 1024 \<le> \<bar>doubleOf q\<bar>" and inf: "toDouble q = Infinite (q < 0)" by (auto simp: toDouble_def Let_def split: if_splits)
    have "- (2 ^ 1024) < b" using a(3) by (rule less_le_trans [rotated]) simp
    then have "0 < doubleOf q" using big d by linarith
    then have "\<not> q < 0" using doubleOf_nonneg [of "- q"] by (auto simp: doubleOf_minus)
    then show ?thesis using inf by simp
  qed (use d in simp)
qed

lemma isDouble_0 [simp]: "isDouble 0" using isDouble_of_int [of 0] by simp

lemma nn_toDouble: "0 \<le> q \<Longrightarrow> nn (toDouble q)"
  by (rule notBelow_toDouble) simp_all

named_theorems sign_intros \<open>numbers that are not negative\<close>

lemma nn_dec [sign_intros]: "0 \<le> q \<Longrightarrow> nn (dec q)"
  by (simp add: dec_def nn_toDouble)

lemma nn_num [sign_intros]: "nn (num n)"
  by (simp add: num_def)

lemma nn_plus [sign_intros]: "nn x \<Longrightarrow> nn y \<Longrightarrow> nn (x + y)"
  by (cases x; cases y) (auto simp: plus_jsnum_def nn_toDouble)

lemma nn_times [sign_intros]: "nn x \<Longrightarrow> nn y \<Longrightarrow> nn (x * y)"
  by (cases x; cases y) (auto simp: times_jsnum_def nn_toDouble)

lemma nn_divide [sign_intros]: "nn x \<Longrightarrow> nn y \<Longrightarrow> nn (x / y)"
  by (cases x; cases y) (auto simp: divide_jsnum_def nn_toDouble)

lemma nn_minus [sign_intros]: "\<not> x < y \<Longrightarrow> nn (x - y)"
  by (cases x; cases y) (auto simp: js_ops numSub_def nn_toDouble)

lemma nn_mod [sign_intros]: "nn x \<Longrightarrow> nn y \<Longrightarrow> nn (x mod y)"
proof (cases x; cases y)
  fix p q assume a: "nn x" "nn y" "x = Fin p" "y = Fin q"
  have "q * of_int \<lfloor>p / q\<rfloor> \<le> p" if "0 < q" using that by (metis floor_correct mult.commute pos_le_divide_eq)
  then show ?thesis using a by (auto simp: modulo_jsnum_def numMod_def numTrunc_def divide_less_0_iff)
qed (auto simp: modulo_jsnum_def numMod_def)

lemma nn_numMin [sign_intros]: "nn x \<Longrightarrow> nn y \<Longrightarrow> nn (numMin x y)"
  by (simp add: numMin_def)

lemma nn_numMax [sign_intros]: "nn x \<Longrightarrow> nn (numMax x y)"
  by (cases x; cases y) (auto simp: numMax_def)

lemma nn_numFloor [sign_intros]: "nn x \<Longrightarrow> nn (numFloor x)"
  by (cases x) (auto simp: numFloor_def)

text \<open>A number from -1 up, scaled and shifted by the same constant.\<close>

lemma nn_swing:
  assumes "notBelow (- 1) s" and "isDouble c" and "0 \<le> c" and "c \<le> 2 ^ 1023"
  shows "nn (Fin c + s * Fin c)" and "nn (Fin c + Fin c * s)"
proof -
  have c: "isDouble (- c)" "- (2 ^ 1023) \<le> - c" using assms(2,4) isDouble_minus [of c] by simp_all
  have down: "notBelow (- c) (s * Fin c)"
  proof (cases s)
    case (Fin q)
    then have "- 1 * c \<le> q * c" using assms(1,3) by (intro mult_right_mono) simp_all
    then show ?thesis using Fin c by (simp add: times_jsnum_def notBelow_toDouble)
  qed (use assms(1,3) in \<open>auto simp: times_jsnum_def\<close>)
  moreover have "nn (Fin c + x)" if "notBelow (- c) x" for x using that by (cases x) (auto simp: plus_jsnum_def nn_toDouble)
  ultimately show "nn (Fin c + s * Fin c)" by simp
  moreover have "Fin c * s = s * Fin c" by (cases s) (auto simp: times_jsnum_def mult.commute)
  ultimately show "nn (Fin c + Fin c * s)" by simp
qed

section \<open>Drawing\<close>

lemma paint_throws: "fst (paint cmds c) = (if list_ex throws cmds then Some IndexSizeError else None)"
  by (induction cmds arbitrary: c) simp_all

lemma paint_safe: "list_all (\<lambda>cmd. \<not> throws cmd) cmds \<Longrightarrow> paint cmds c = (None, fold execCmd cmds c)"
  by (induction cmds arbitrary: c) simp_all

text \<open>Radii that are not negative are enough.\<close>

fun okCmd :: "ctxCmd \<Rightarrow> bool" where
  "okCmd (CArc x y r a b) \<longleftrightarrow> nn r"
| "okCmd (CArcTo x y x' y' r) \<longleftrightarrow> nn r"
| "okCmd (CEllipse x y r s) \<longleftrightarrow> nn r \<and> nn s"
| "okCmd _ \<longleftrightarrow> True"

lemma okCmd_not_throws: "okCmd cmd \<Longrightarrow> \<not> throws cmd"
  by (cases cmd) (auto simp: notBelow_def)

lemma paint_ok: "list_all okCmd cmds \<Longrightarrow> paint cmds c = (None, fold execCmd cmds c)"
  by (rule paint_safe) (auto simp: list_all_iff okCmd_not_throws)

named_theorems ok_simps \<open>which commands a drawing is made of\<close>

lemma ok_concat [ok_simps]: "list_all P (concat (map f xs)) \<longleftrightarrow> (\<forall>x \<in> set xs. list_all P (f x))"
  by (auto simp: list_all_iff)

section \<open>Swings and bounds\<close>

lemma isDouble_one_half: "isDouble (1 / 2)"
  unfolding isDouble_def by (rule exI [of _ 1], rule exI [of _ "- 1"]) (simp add: power_int_minus)

lemma dec_half: "dec (1 / 2) = Fin (1 / 2)"
  using doubleOf_exact [of "1 / 2"] isDouble_one_half by (simp add: dec_def toDouble_def)

lemma nn_pulse [sign_intros]: "notBelow (- 1) x \<Longrightarrow> nn (dec (1 / 2) + dec (1 / 2) * x)"
  unfolding dec_half by (rule nn_swing(2)) (simp_all add: isDouble_one_half)

lemma nn_swing_num [sign_intros]: "notBelow (- 1) x \<Longrightarrow> n \<le> 2 ^ 53 \<Longrightarrow> nn (num n + x * num n)"
  unfolding num_def using isDouble_of_int [of "int n"] by (intro nn_swing(1)) auto

text \<open>Finite numbers, with a bound that survives rounding.\<close>

definition bounded :: "nat \<Rightarrow> jsnum \<Rightarrow> bool" where
  "bounded n x \<longleftrightarrow> (\<exists>q. x = Fin q \<and> \<bar>q\<bar> \<le> 2 ^ n)"

lemma isDouble_power: "n \<le> 1000 \<Longrightarrow> isDouble (2 ^ n)"
  unfolding isDouble_def by (rule exI [of _ 1], rule exI [of _ "int n"]) simp

lemma bounded_toDouble:
  assumes "\<bar>q\<bar> \<le> 2 ^ n" and "n \<le> 1000"
  shows "bounded n (toDouble q)"
proof -
  have "isDouble (2 ^ n)" "isDouble (- (2 ^ n))" using isDouble_power [OF assms(2)] isDouble_minus by blast+
  then have d: "\<bar>doubleOf q\<bar> \<le> 2 ^ n" using doubleOf_mono_le [of "2 ^ n" q] doubleOf_mono_ge [of "- (2 ^ n)" q] assms(1) by (auto simp: abs_le_iff)
  also have "(2::rat) ^ n < 2 ^ 1024" using assms(2) by (intro power_strict_increasing) auto
  finally have "toDouble q = Fin (doubleOf q)" by (simp add: toDouble_def Let_def del: power_numeral)
  then show ?thesis using d by (simp add: bounded_def)
qed

named_theorems bound_intros \<open>bounds of sums, products and quotients\<close>

lemma bounded_plus [bound_intros]: "bounded n x \<Longrightarrow> bounded n y \<Longrightarrow> n < 1000 \<Longrightarrow> bounded (Suc n) (x + y)"
  unfolding bounded_def [of n] by (auto simp: plus_jsnum_def intro!: bounded_toDouble)

lemma bounded_minus [bound_intros]: "bounded n x \<Longrightarrow> bounded n y \<Longrightarrow> n < 1000 \<Longrightarrow> bounded (Suc n) (x - y)"
  unfolding bounded_def [of n] by (auto simp: minus_jsnum_def numSub_def intro!: bounded_toDouble)

lemma bounded_times [bound_intros]: "bounded a x \<Longrightarrow> bounded b y \<Longrightarrow> a + b \<le> 1000 \<Longrightarrow> bounded (a + b) (x * y)"
proof -
  assume a: "bounded a x" "bounded b y" "a + b \<le> 1000"
  then obtain p q where pq: "x = Fin p" "\<bar>p\<bar> \<le> 2 ^ a" "y = Fin q" "\<bar>q\<bar> \<le> 2 ^ b" by (auto simp: bounded_def)
  then have "\<bar>p * q\<bar> \<le> 2 ^ (a + b)" unfolding abs_mult power_add by (intro mult_mono) simp_all
  then show ?thesis using pq(1,3) bounded_toDouble [OF _ a(3)] by (simp add: times_jsnum_def)
qed

lemma bounded_divide [bound_intros]: "bounded n x \<Longrightarrow> 1 \<le> m \<Longrightarrow> n \<le> 1000 \<Longrightarrow> bounded n (x / num m)"
proof -
  assume a: "bounded n x" "1 \<le> m" "n \<le> 1000"
  then obtain q where q: "x = Fin q" "\<bar>q\<bar> \<le> 2 ^ n" by (auto simp: bounded_def)
  have m: "(1::rat) \<le> of_nat m" using a(2) by simp
  then have "\<bar>q\<bar> * 1 \<le> \<bar>q\<bar> * of_nat m" by (intro mult_left_mono) simp_all
  then have "\<bar>q / of_nat m\<bar> \<le> \<bar>q\<bar>" using m by (simp add: abs_divide pos_divide_le_eq)
  then have "bounded n (toDouble (q / of_nat m))" using q(2) a(3) by (intro bounded_toDouble) linarith
  then show ?thesis using m q(1) by (simp add: divide_jsnum_def num_def)
qed

lemma bounded_num [bound_intros]: "m \<le> 2 ^ n \<Longrightarrow> bounded n (num m)"
proof -
  assume "m \<le> 2 ^ n"
  then have "rat_of_nat m \<le> of_nat (2 ^ n)" by (simp only: of_nat_le_iff)
  then show ?thesis by (simp add: bounded_def num_def)
qed

lemma bounded_dec [bound_intros]: "\<bar>q\<bar> \<le> 2 ^ n \<Longrightarrow> n \<le> 1000 \<Longrightarrow> bounded n (dec q)"
  by (simp add: dec_def bounded_toDouble)

lemma bounded_mono: "bounded n x \<Longrightarrow> n \<le> n' \<Longrightarrow> bounded n' x"
proof -
  assume a: "bounded n x" "n \<le> n'"
  then obtain q where q: "x = Fin q" "\<bar>q\<bar> \<le> 2 ^ n" by (auto simp: bounded_def)
  have "(2::rat) ^ n \<le> 2 ^ n'" using a(2) by (intro power_increasing) simp_all
  then have "\<bar>q\<bar> \<le> 2 ^ n'" using q(2) by (rule order_trans [rotated])
  then show ?thesis using q(1) by (simp add: bounded_def)
qed

lemma bounded_isFinite: "bounded n x \<Longrightarrow> isFinite x"
  by (auto simp: bounded_def isFinite_def)

definition plainMaths :: Maths where
  "plainMaths = \<lparr>ma_sin = (\<lambda>_. Fin 0), ma_cos = (\<lambda>_. Fin 1), ma_pow = (\<lambda>_ _. Fin 1), ma_log10 = (\<lambda>_. Fin 0), ma_hypot = (\<lambda>_ _. Fin 0)\<rparr>"

end
