(* ===== verification/Site_Showcase.thy ===== *)
theory Site_Showcase
  imports Js_Number Event_System
begin

text \<open>
  The carousel of the public site (\<^verbatim>\<open>website/assets/showcase.js\<close>): thirteen slides, autoplay, dots and arrows,
  a pause while the pointer is over the card, and a stop while it is not visible. Time stamps are doubles
  the browser supplies with each event; the drawing of a slide is recorded by its number and its time,
  and what it draws is in \<^verbatim>\<open>Site_Slides\<close>.
\<close>

section \<open>The slides\<close>

text \<open>Tag, title and text of each slide.\<close>

type_synonym slideText = "jstr \<times> jstr \<times> jstr"

definition slideAnonymity :: slideText where
  "slideAnonymity = (js ''Privacy'', js ''Global anonymity set'',
     js ''Every spend hides among ALL outputs '' @ [0x2014] @ js '' not 16 decoys. The set is the whole chain.'')"

definition slideStealth :: slideText where
  "slideStealth = (js ''Recipient privacy'', js ''Stealth addresses'',
     js ''A fresh one-time key for every payment. Your address never appears on-chain.'')"

definition slideAmounts :: slideText where
  "slideAmounts = (js ''Amount privacy'', js ''Confidential amounts'',
     js ''Values are sealed in Pedersen commitments. Range proofs keep them honest.'')"

definition slideAccumulator :: slideText where
  "slideAccumulator = (js ''Trustless'', js ''No trusted setup'',
     js ''An accumulator over a group of unknown order '' @ [0x2014] @ js '' class-group needs no ceremony.'')"

definition slideSubaddresses :: slideText where
  "slideSubaddresses = (js ''Wallet'', js ''Subaddresses'',
     js ''Unlimited unlinkable receive addresses from a single seed.'')"

definition slideViewOnly :: slideText where
  "slideViewOnly = (js ''Auditing'', js ''View-only wallets'',
     js ''Share a view key: an auditor sees incoming funds but can never spend them.'')"

definition slideProofs :: slideText where
  "slideProofs = (js ''Proofs'', js ''Payment proofs'',
     js ''Prove you paid '' @ [0x2014] @ js '' or were paid '' @ [0x2014] @ js '' a specific amount. Verifiable fully offline.'')"

definition slideFees :: slideText where
  "slideFees = (js ''Fees'', js ''Dynamic fees & replace-by-fee'',
     js ''Smart fee estimation, fee-aware mining, and bump a stuck payment any time.'')"

definition slideSwaps :: slideText where
  "slideSwaps = (js ''Cross-chain'', js ''Atomic XMR '' @ [0x2194] @ js '' OBX swaps'',
     js ''Trustless swaps with Monero via adaptor signatures. No bridge, no custodian.'')"

definition slideEncrypted :: slideText where
  "slideEncrypted = (js ''Security'', js ''Encrypted wallet'',
     js ''Seed and state sealed with Argon2id + XChaCha20-Poly1305. Rotate any time.'')"

definition slideMnemonic :: slideText where
  "slideMnemonic = (js ''Backup'', js ''24-word mnemonic'',
     js ''A checksummed seed phrase recovers your wallet '' @ [0x2014] @ js '' typos are caught, not cashed.'')"

definition slideNetwork :: slideText where
  "slideNetwork = (js ''Network'', js ''Tor & Dandelion++'',
     js ''Stem-then-fluff relay and optional onion transport hide where a tx was born.'')"

definition slideMining :: slideText where
  "slideMining = (js ''Consensus'', js ''RandomX-style VM mining'',
     js ''A memory-hard, randomized-VM PoW (ASIC-resistant). 120s blocks, smooth emission with a perpetual tail.'')"

definition slides :: "slideText list" where
  "slides = [slideAnonymity, slideStealth, slideAmounts, slideAccumulator, slideSubaddresses, slideViewOnly,
     slideProofs, slideFees, slideSwaps, slideEncrypted, slideMnemonic, slideNetwork, slideMining]"

definition AUTOPLAY :: jsnum where
  "AUTOPLAY = Fin 5000"

lemma length_slides [simp]: "length slides = 13"
  by (simp add: slides_def)

section \<open>The controller\<close>

record Show =
  sh_idx :: int
  sh_start :: jsnum
  sh_running :: bool
  sh_paused :: bool
  sh_pauseAt :: jsnum
  sh_tag :: jstr
  sh_title :: jstr
  sh_desc :: jstr
  sh_kicks :: nat \<comment> \<open>how often the animation of the title was started\<close>
  sh_dots :: "bool list" \<comment> \<open>which dots are marked active\<close>
  sh_bar :: "jsnum option" \<comment> \<open>width of the progress bar in per cent, once set\<close>
  sh_drawn :: "(int \<times> jsnum) list" \<comment> \<open>slides drawn, with the time handed to them\<close>

text \<open>The callers give \<open>-1\<close> at least, so the dividend of \<^verbatim>\<open>%\<close> is not negative and the remainder is that of \<open>mod\<close>.\<close>

definition setSlide :: "int \<Rightarrow> jsnum \<Rightarrow> Show \<Rightarrow> Show" where
  "setSlide i clock s =
     (let idx = (i + int (length slides)) mod int (length slides); (tag, title, desc) = slides ! nat idx
      in s\<lparr>sh_idx := idx, sh_tag := tag, sh_title := title, sh_desc := desc,
           sh_dots := map (\<lambda>j. int j = idx) [0..<length slides], sh_start := clock,
           sh_kicks := Suc (sh_kicks s)\<rparr>)"

definition frame :: "jsnum \<Rightarrow> jsnum \<Rightarrow> Show \<Rightarrow> Show" where
  "frame now clock s =
     (if \<not> sh_running s then s
      else let t = numDiv (numSub now (sh_start s)) (Fin 1000);
               s = (if sh_paused s then s
                    else let prog = numDiv (numSub now (sh_start s)) AUTOPLAY;
                             s = s\<lparr>sh_bar := Some (numMin (Fin 100) (numMul prog (Fin 100)))\<rparr>
                         in if prog \<noteq> NaN \<and> \<not> numLess prog (Fin 1) then setSlide (sh_idx s + 1) clock s else s)
           in s\<lparr>sh_drawn := sh_drawn s @ [(sh_idx s, t)]\<rparr>)"

text \<open>The page after the script has run: the dots with the first one active, and slide 0.\<close>

definition startShow :: "jsnum \<Rightarrow> Show" where
  "startShow clock = setSlide 0 clock
     \<lparr>sh_idx = 0, sh_start = Fin 0, sh_running = False, sh_paused = False, sh_pauseAt = Fin 0, sh_tag = [], sh_title = [], sh_desc = [],
      sh_kicks = 0, sh_dots = map (\<lambda>i. i = 0) [0..<length slides], sh_bar = None, sh_drawn = []\<rparr>"

datatype showEvent =
    Frame jsnum jsnum \<comment> \<open>time of the frame, and the clock while it runs\<close>
  | Dot nat jsnum | Prev jsnum | Next jsnum | PointerEnter jsnum | PointerLeave jsnum
  | Observe bool \<comment> \<open>the card enters or leaves the view\<close>
  | Visibility bool \<comment> \<open>\<^verbatim>\<open>document.hidden\<close>\<close>

fun showHandle :: "showEvent \<Rightarrow> Show \<Rightarrow> Show option" where
  "showHandle (Frame now clock) s = Some (frame now clock s)"
| "showHandle (Dot i clock) s = (if i < length slides then Some (setSlide (int i) clock s) else None)"
| "showHandle (Prev clock) s = Some (setSlide (sh_idx s - 1) clock s)"
| "showHandle (Next clock) s = Some (setSlide (sh_idx s + 1) clock s)"
| "showHandle (PointerEnter clock) s = Some (s\<lparr>sh_paused := True, sh_pauseAt := clock\<rparr>)"
| "showHandle (PointerLeave clock) s =
     Some (let s = (if sh_paused s then s\<lparr>sh_start := numAdd (sh_start s) (numSub clock (sh_pauseAt s))\<rparr> else s) in s\<lparr>sh_paused := False\<rparr>)"
| "showHandle (Observe visible) s = Some (s\<lparr>sh_running := visible\<rparr>)"
| "showHandle (Visibility hidden) s = Some (if hidden then s\<lparr>sh_running := False\<rparr> else s)"

section \<open>What is shown\<close>

definition showInv :: "Show \<Rightarrow> bool" where
  "showInv s \<longleftrightarrow> 0 \<le> sh_idx s \<and> sh_idx s < 13 \<and> (sh_tag s, sh_title s, sh_desc s) = slides ! nat (sh_idx s)
     \<and> sh_dots s = map (\<lambda>j. int j = sh_idx s) [0..<13] \<and> list_all (\<lambda>(i, t). 0 \<le> i \<and> i < 13) (sh_drawn s)"

lemma setSlide_inv: "list_all (\<lambda>(i, t). 0 \<le> i \<and> i < 13) (sh_drawn s) \<Longrightarrow> showInv (setSlide i clock s)"
  by (auto simp: showInv_def setSlide_def Let_def split: prod.splits)

lemma showInv_drawn: "showInv s \<Longrightarrow> list_all (\<lambda>(i, t). 0 \<le> i \<and> i < 13) (sh_drawn s)"
  by (simp add: showInv_def)

lemma frame_inv: "showInv s \<Longrightarrow> showInv (frame now clock s)"
proof -
  assume s: "showInv s"
  have bar: "showInv (s\<lparr>sh_bar := b\<rparr>)" for b using s by (simp add: showInv_def)
  have drawn: "showInv (u\<lparr>sh_drawn := sh_drawn u @ [(sh_idx u, t)]\<rparr>)" if "showInv u" for u t using that by (simp add: showInv_def)
  show ?thesis using s bar drawn setSlide_inv [OF showInv_drawn [OF bar]] by (simp add: frame_def Let_def)
qed

lemma showHandle_inv:
  assumes "showInv s" and "showHandle e s = Some s'"
  shows "showInv s'"
proof (cases e)
  case (Frame now clock)
  then show ?thesis using assms frame_inv by auto
next
  case (Dot i clock)
  then show ?thesis using assms setSlide_inv showInv_drawn by (auto split: if_splits)
qed (use assms setSlide_inv showInv_drawn in \<open>auto simp: showInv_def Let_def\<close>)

lemma showInv_range: "showInv s \<Longrightarrow> 0 \<le> sh_idx s \<and> sh_idx s < 13"
  by (simp add: showInv_def)

interpretation carousel: abstraction showHandle showInv sh_idx "\<lambda>_ j. 0 \<le> j \<and> j < 13"
proof
  fix s e s' assume "showInv s" "showHandle e s = Some s'"
  then show "showInv s'" by (rule showHandle_inv)
  then show "0 \<le> sh_idx s' \<and> sh_idx s' < 13" by (rule showInv_range)
qed

lemma quotient_below: "q < 0 \<Longrightarrow> numLess (numDiv (Fin (of_int q)) (Fin 5000)) (Fin 1)"
proof -
  assume "q < 0"
  then have "rat_of_int q / 5000 / ulp (of_int q / 5000) \<le> of_int 0" by (simp add: divide_nonpos_nonneg less_imp_le)
  then have "roundEven (rat_of_int q / 5000 / ulp (of_int q / 5000)) \<le> 0" by (rule roundEven_le)
  then have "doubleOf (of_int q / 5000) \<le> 0" by (simp add: doubleOf_def mult_nonpos_nonneg less_imp_le)
  then show ?thesis using \<open>q < 0\<close> by (auto simp: toDouble_def Let_def)
qed

text \<open>A slide chosen while the pointer rests on the card, and a frame after the pointer has left it.\<close>

lemma future_choice:
  assumes "0 \<le> p" and "p < c" and "c \<le> l" and "l \<le> 2 ^ 52" and "l \<le> now" and "now < c + (l - p)" and "sh_running s"
    and "\<forall>u. showHandle e u = Some (setSlide i (Fin (of_int c)) u)"
  shows "\<exists>s'. runEvents showHandle [PointerEnter (Fin (of_int p)), e, PointerLeave (Fin (of_int l)), Frame (Fin (of_int now)) clock] s = Some s'
    \<and> sh_start s' = Fin (of_int (c + (l - p))) \<and> sh_idx s' = i mod 13
    \<and> last (sh_drawn s') = (sh_idx s', numDiv (Fin (of_int (now - (c + (l - p))))) (Fin 1000))"
proof -
  let ?st = "c + (l - p)"
  have a: "numSub (Fin (of_int l)) (Fin (of_int p)) = Fin (of_int (l - p))" using assms by (intro numSub_int) auto
  have "\<bar>?st\<bar> \<le> 2 ^ 53" using assms by simp
  then have b: "numAdd (Fin (of_int c)) (Fin (of_int (l - p))) = Fin (of_int ?st)"
    unfolding numAdd.simps of_int_add [symmetric] by (rule toDouble_of_int)
  have d: "numSub (Fin (of_int now)) (Fin (of_int ?st)) = Fin (of_int (now - ?st))" using assms by (intro numSub_int) auto
  have "numLess (numDiv (Fin (of_int (now - ?st))) (Fin 5000)) (Fin 1)" by (rule quotient_below) (use assms in auto)
  moreover have "sh_running (setSlide i k u) = sh_running u" "sh_paused (setSlide i k u) = sh_paused u" "sh_pauseAt (setSlide i k u) = sh_pauseAt u"
      "sh_start (setSlide i k u) = k" "sh_idx (setSlide i k u) = (i + 13) mod 13" for i k u
    by (simp_all add: setSlide_def Let_def split: prod.splits)
  ultimately show ?thesis using assms(6-8) a b d by (simp add: frame_def Let_def AUTOPLAY_def)
qed

section \<open>Correctness\<close>

text \<open>\<^bold>\<open>C35.\<close> Whatever the visitor and the browser do, the carousel shows one of its slides: tag, title and text belong to the current
  slide, exactly its dot is active, and only existing slides are drawn. The arrows undo each other, around the ends too, and a frame that
  comes five seconds or more after the start of a slide moves on by one.\<close>

theorem showcase_shows:
  assumes "runEvents showHandle es (startShow clock0) = Some s"
  shows "showInv s
    \<and> sh_idx (setSlide (sh_idx (setSlide (sh_idx s + 1) c s) - 1) d (setSlide (sh_idx s + 1) c s)) = sh_idx s
    \<and> sh_idx (setSlide (sh_idx (setSlide (sh_idx s - 1) c s) + 1) d (setSlide (sh_idx s - 1) c s)) = sh_idx s
    \<and> (sh_running s \<longrightarrow> \<not> sh_paused s \<longrightarrow> numDiv (numSub now (sh_start s)) AUTOPLAY \<noteq> NaN \<longrightarrow>
        \<not> numLess (numDiv (numSub now (sh_start s)) AUTOPLAY) (Fin 1) \<longrightarrow>
        sh_idx (frame now clock s) = (sh_idx s + 1) mod 13 \<and> sh_start (frame now clock s) = clock)"
proof -
  have "showInv (startShow clock0)" by (simp add: startShow_def setSlide_inv)
  then have inv: "showInv s" using carousel.run_inv assms by blast
  then have i: "0 \<le> sh_idx s" "sh_idx s < 13" using showInv_range by blast+
  have idx: "sh_idx (setSlide j c u) = (j + 13) mod 13" for j c u by (simp add: setSlide_def Let_def split: prod.splits)
  have start: "sh_start (setSlide j c u) = c" for j c u by (simp add: setSlide_def Let_def split: prod.splits)
  have around: "((k + 1 + 13) mod 13 - 1 + 13) mod 13 = k" "((k - 1 + 13) mod 13 + 1 + 13) mod 13 = k" if "0 \<le> k" "k < 13" for k :: int
  proof -
    have "(26 + k) mod 13 = k" using that mod_mult_self1 [of k 2 13] by (simp add: add.commute mod_pos_pos_trivial)
    then show "((k + 1 + 13) mod 13 - 1 + 13) mod 13 = k" "((k - 1 + 13) mod 13 + 1 + 13) mod 13 = k" by (simp_all add: mod_simps)
  qed
  show ?thesis
  proof (intro conjI impI inv)
    show "sh_idx (setSlide (sh_idx (setSlide (sh_idx s + 1) c s) - 1) d (setSlide (sh_idx s + 1) c s)) = sh_idx s"
      "sh_idx (setSlide (sh_idx (setSlide (sh_idx s - 1) c s) + 1) d (setSlide (sh_idx s - 1) c s)) = sh_idx s"
      unfolding idx by (rule around [OF i])+
    assume go: "sh_running s" "\<not> sh_paused s" "numDiv (numSub now (sh_start s)) AUTOPLAY \<noteq> NaN" "\<not> numLess (numDiv (numSub now (sh_start s)) AUTOPLAY) (Fin 1)"
    then show "sh_start (frame now clock s) = clock" by (simp add: start frame_def Let_def)
    have "sh_idx (frame now clock s) = sh_idx (setSlide (sh_idx s + 1) clock
        (s\<lparr>sh_bar := Some (numMin (Fin 100) (numMul (numDiv (numSub now (sh_start s)) AUTOPLAY) (Fin 100)))\<rparr>))"
      using go by (simp add: frame_def Let_def)
    then have "sh_idx (frame now clock s) = (sh_idx s + 1 + 13) mod 13" by (simp only: idx)
    then show "sh_idx (frame now clock s) = (sh_idx s + 1) mod 13" by (simp only: mod_add_self2)
  qed
qed

theorem showcase_shows_witness:
  "\<exists>s. runEvents showHandle [Prev (Fin 1), Observe True, Frame (Fin 2) (Fin 2)] (startShow (Fin 0)) = Some s \<and> showInv s"
proof -
  obtain s where s: "runEvents showHandle [Prev (Fin 1), Observe True, Frame (Fin 2) (Fin 2)] (startShow (Fin 0)) = Some s" by simp
  then show ?thesis using showcase_shows [OF s] by blast
qed

text \<open>\<^bold>\<open>C36.\<close> A page that was hidden stays still: hiding it stops the carousel, showing it again does not restart it, and until the observer
  reports that the card crosses the edge of the view no frame draws anything.\<close>

theorem showcase_stays_stopped:
  assumes "runEvents showHandle (Visibility True # Visibility False # es) s = Some s'" and "\<forall>v. Observe v \<notin> set es"
  shows "\<not> sh_running s' \<and> sh_drawn s' = sh_drawn s \<and> sh_bar s' = sh_bar s"
proof -
  have stopped: "\<not> sh_running u' \<and> sh_drawn u' = sh_drawn u \<and> sh_bar u' = sh_bar u"
    if "runEvents showHandle es u = Some u'" "\<not> sh_running u" "\<forall>v. Observe v \<notin> set es" for u u'
    using that
  proof (induction es arbitrary: u)
    case (Cons e es)
    then obtain w where w: "showHandle e u = Some w" "runEvents showHandle es w = Some u'" by (auto simp: bind_eq_Some_conv)
    have "\<not> sh_running w \<and> sh_drawn w = sh_drawn u \<and> sh_bar w = sh_bar u"
      using w(1) Cons.prems(2,3) by (cases e) (auto simp: setSlide_def frame_def Let_def split: if_splits prod.splits)
    then show ?case using Cons.IH [OF w(2)] Cons.prems(3) by auto
  qed simp
  show ?thesis using stopped [of "s\<lparr>sh_running := False\<rparr>" s'] assms by simp
qed

theorem showcase_stays_stopped_witness:
  "\<exists>s'. runEvents showHandle [Visibility True, Visibility False, Frame (Fin 9000) (Fin 9000)] ((startShow (Fin 0))\<lparr>sh_running := True\<rparr>) = Some s' \<and> \<not> sh_running s'"
proof -
  let ?s = "(startShow (Fin 0))\<lparr>sh_running := True\<rparr>"
  obtain s' where "runEvents showHandle [Visibility True, Visibility False, Frame (Fin 9000) (Fin 9000)] ?s = Some s'" by simp
  then show ?thesis using showcase_stays_stopped [of "[Frame (Fin 9000) (Fin 9000)]" ?s s'] by auto
qed

end
