(* ===== verification/Site_Slides.thy ===== *)
theory Site_Slides
  imports Site_Canvas Site_Showcase
begin

text \<open>
  What the slides of the carousel draw (\<^verbatim>\<open>website/assets/showcase.js\<close>), one definition per slide, as commands for the canvas: the
  size of the canvas, the time handed to the slide, and the results of \<^verbatim>\<open>Math.sin\<close>, \<^verbatim>\<open>Math.cos\<close> and \<^verbatim>\<open>Math.random\<close> are
  arguments. The theorems say when a slide can be drawn at all, and what it leaves behind for the next one.
\<close>

section \<open>Helpers\<close>

definition TEAL :: jstr where "TEAL = js ''#00e6c3''"
definition VIOLET :: jstr where "VIOLET = js ''#8b6cff''"
definition PINK :: jstr where "PINK = js ''#ff7ad9''"
definition GOLD :: jstr where "GOLD = js ''#f4b728''"
definition MUTE :: jstr where "MUTE = js ''rgba(150,156,182,.4)''"

text \<open>The size from the layout and the pixel ratio of the device (0 or NaN stand for 1).\<close>

definition fit :: "jsnum \<Rightarrow> jsnum \<Rightarrow> jsnum \<Rightarrow> Screen" where
  "fit width height dpr =
     (let D = numMin (if dpr = Fin 0 \<or> dpr = NaN then num 1 else dpr) (num 2)
      in \<lparr>scW = numMax (num 1) (width * D), scH = numMax (num 1) (height * D), scD = D\<rparr>)"

definition dot :: "jsnum \<Rightarrow> jsnum \<Rightarrow> jsnum \<Rightarrow> jstr \<Rightarrow> ctxCmd list" where
  "dot x y r c = [CBegin, CArc x y r (num 0) (num 7), CFillStyle c, CFill]"

definition ring :: "Screen \<Rightarrow> jsnum \<Rightarrow> jsnum \<Rightarrow> jsnum \<Rightarrow> jstr \<Rightarrow> jsnum option \<Rightarrow> ctxCmd list" where
  "ring s x y r c lw =
     [CBegin, CArc x y r (num 0) (num 7), CStrokeStyle c,
      CLineWidth ((case lw of Some l \<Rightarrow> if l = Fin 0 \<or> l = NaN then num 2 else l | None \<Rightarrow> num 2) * scD s), CStroke]"

definition loop :: "jsnum \<Rightarrow> jsnum \<Rightarrow> jsnum" where
  "loop t p = (t mod p) / p"

definition roundRect :: "Screen \<Rightarrow> jsnum \<Rightarrow> jsnum \<Rightarrow> jsnum \<Rightarrow> jsnum \<Rightarrow> jsnum \<Rightarrow> jstr option \<Rightarrow> jstr option \<Rightarrow> ctxCmd list" where
  "roundRect s x y w h r fill stroke =
     [CBegin, CMove (x + r) y,
      CArcTo (x + w) y (x + w) (y + h) r, CArcTo (x + w) (y + h) x (y + h) r,
      CArcTo x (y + h) x y r, CArcTo x y (x + w) y r, CClose]
     @ (case fill of Some f \<Rightarrow> [CFillStyle f, CFill] | None \<Rightarrow> [])
     @ (case stroke of Some f \<Rightarrow> [CStrokeStyle f, CLineWidth (num 2 * scD s), CStroke] | None \<Rightarrow> [])"

definition line :: "Screen \<Rightarrow> jsnum \<Rightarrow> jsnum \<Rightarrow> jsnum \<Rightarrow> jsnum \<Rightarrow> jstr \<Rightarrow> jsnum \<Rightarrow> ctxCmd list" where
  "line s x1 y1 x2 y2 c a =
     [CStrokeStyle c, CAlpha a, CLineWidth (dec (3 / 2) * scD s), CBegin, CMove x1 y1, CLine x2 y2, CStroke, CAlpha (num 1)]"

definition labels :: "Screen \<Rightarrow> jstr list \<Rightarrow> jsnum list \<Rightarrow> jsnum \<Rightarrow> ctxCmd list" where
  "labels s arr xs y =
     [CAlign ''center'', CFillStyle (js ''#969cb6''), CFont (pxFont (num 11 * scD s) ''ui-monospace'')]
     @ map (\<lambda>(t, x). CText t x y) (zip arr xs)"

section \<open>The slides\<close>

definition drawAnonymity :: "Maths \<Rightarrow> Screen \<Rightarrow> jsnum \<Rightarrow> ctxCmd list" where
  "drawAnonymity m s t =
     (let W = scW s; H = scH s; D = scD s; padX = W * dec (8 / 100); padY = H * dec (16 / 100);
          gx = (W - padX * num 2) / num 15; gy = (H - padY * num 2) / num 8; k = loop t (dec (32 / 10))
      in concat (map (\<lambda>r. concat (map (\<lambda>c.
           let i = 16 * r + c; x = padX + num c * gx; y = padY + num r * gy;
               pulse = dec (1 / 2) + dec (1 / 2) * ma_sin m (t * num 2 + num i)
           in dot x y ((dec (26 / 10) + pulse) * D) (rgba ''0,230,195'' (dec (35 / 100) + pulse * dec (4 / 10)))
              @ (if i = 70 \<and> k < dec (1 / 2)
                 then let f = num 1 - k / dec (1 / 2)
                      in dot x y ((num 3 + f * num 7) * D) (rgba ''139,108,255'' f)
                         @ ring s x y (k * W * dec (1 / 2)) (rgba ''139,108,255'' (f * dec (8 / 10))) None
                 else [])) [0..<16])) [0..<9]))"

definition drawStealth :: "Maths \<Rightarrow> Screen \<Rightarrow> jsnum \<Rightarrow> ctxCmd list" where
  "drawStealth m s t =
     (let W = scW s; H = scH s; D = scD s; y = H / num 2; k = loop t (dec (16 / 10)); idx = numFloor (t / dec (16 / 10));
          off = ((idx * num 53) mod num 7 - num 3) * num 14 * D; f = ma_sin m (k * mathPI)
      in [CDash [num 7 * D, num 6 * D], CDashOffset ((- (t * num 40 * D)) mod num 13), CStrokeStyle VIOLET, CLineWidth (num 2 * D),
          CBegin, CMove (W * dec (15 / 100)) y, CLine (W * dec (85 / 100)) y, CStroke, CDash []]
         @ dot (W * dec (15 / 100)) y (num 9 * D) PINK
         @ ring s (W * dec (1 / 2)) y (num 12 * D) MUTE (Some (num 2))
         @ dot (W * dec (85 / 100)) (y + off) ((num 5 + f * num 5) * D) TEAL
         @ [CAlpha f] @ ring s (W * dec (85 / 100)) (y + off) ((num 8 + f * num 8) * D) TEAL (Some (num 2)) @ [CAlpha (num 1)]
         @ labels s [js ''R'', js ''you'', js ''fresh P''] [W * dec (15 / 100), W * dec (1 / 2), W * dec (85 / 100)] (y + num 30 * D))"

text \<open>The four digits shown come from \<^verbatim>\<open>Math.random()\<close>.\<close>

definition drawAmounts :: "jsnum \<Rightarrow> Screen \<Rightarrow> jsnum \<Rightarrow> ctxCmd list" where
  "drawAmounts random s t =
     (let W = scW s; H = scH s; D = scD s; cx = W / num 2; cy = H / num 2; bw = num 150 * D; bh = num 64 * D; k = loop t (num 3)
      in roundRect s (cx - bw / num 2) (cy - bh / num 2) bw bh (num 14 * D) (Some (js ''rgba(0,230,195,.08)'')) (Some TEAL)
         @ [CAlign ''center'', CBaseline ''middle'', CFont (pxFont (num 20 * D) ''ui-monospace, monospace'')]
         @ (if k < dec (1 / 2)
            then [CFillStyle (js ''#cfd3e6''), CText (numberToString (numFloor (num 1000 + random * num 9000)) @ js '' OBX'') cx cy]
            else [CFillStyle TEAL, CText ([0xD83D, 0xDD12, 32] @ replicate 6 0x2022) cx cy])
         @ [CFont (pxFont (num 12 * D) ''\"Space Grotesk\", sans-serif''), CFillStyle (js ''#969cb6''),
            CText (js ''C = a'' @ [0xB7] @ js ''G + v'' @ [0xB7] @ js ''H'') cx (cy + bh / num 2 + num 22 * D)])"

definition drawAccumulator :: "Maths \<Rightarrow> Screen \<Rightarrow> jsnum \<Rightarrow> ctxCmd list" where
  "drawAccumulator m s t =
     (let W = scW s; H = scH s; D = scD s; cx = W * dec (72 / 100); cy = H / num 2; pulse = dec (1 / 2) + dec (1 / 2) * ma_sin m (t * num 3)
      in concat (map (\<lambda>i.
           let k = loop (t + num i * dec (4 / 10)) (dec (22 / 10));
               x = W * dec (12 / 100) + k * (cx - W * dec (12 / 100));
               y = cy + ma_sin m (num i * dec (17 / 10)) * num 50 * D * (num 1 - k)
           in dot x y (dec (35 / 10) * D) (rgba ''0,230,195'' (num 1 - k))) [0..<9])
         @ ring s cx cy ((num 26 + pulse * num 4) * D) VIOLET (Some (num 3))
         @ dot cx cy (num 16 * D) (js ''rgba(139,108,255,.5)'')
         @ [CAlign ''center'', CFillStyle (js ''#cfd3e6''), CFont (pxFont (num 12 * D) ''ui-monospace''), CText (js ''accumulator'') cx (cy + num 44 * D)])"

definition drawSubaddresses :: "Maths \<Rightarrow> Screen \<Rightarrow> jsnum \<Rightarrow> ctxCmd list" where
  "drawSubaddresses m s t =
     (let W = scW s; H = scH s; D = scD s; cx = W * dec (2 / 10); cy = H / num 2
      in dot cx cy (num 12 * D) VIOLET
         @ [CAlign ''center'', CFillStyle (js ''#969cb6''), CFont (pxFont (num 11 * D) ''ui-monospace''), CText (js ''seed'') cx (cy + num 30 * D)]
         @ concat (map (\<lambda>i.
             let appear = numMin (num 1) (numMax (num 0) (loop t (num 4) * num 7 - num i));
                 ang = - dec (7 / 10) + (num i / num 6) * dec (14 / 10);
                 ex = cx + ma_cos m ang * (W * dec (55 / 100)) * appear;
                 ey = cy + ma_sin m ang * (H * dec (32 / 100)) * appear
             in [CStrokeStyle (rgba ''0,230,195'' (dec (3 / 10) * appear)), CLineWidth (dec (3 / 2) * D), CBegin, CMove cx cy, CLine ex ey, CStroke]
                @ dot ex ey (num 6 * D * appear) TEAL) [0..<7]))"

definition drawViewOnly :: "Screen \<Rightarrow> jsnum \<Rightarrow> ctxCmd list" where
  "drawViewOnly s t =
     (let W = scW s; H = scH s; D = scD s; cx = W / num 2; cy = H / num 2; k = loop t (num 2)
      in [CStrokeStyle TEAL, CLineWidth (num 3 * D), CBegin, CEllipse cx cy (num 70 * D) (num 38 * D), CStroke]
         @ dot cx cy (num 16 * D) (js ''rgba(0,230,195,.6)'') @ dot cx cy (num 7 * D) (js ''#06060c'')
         @ dot cx (cy - num 90 * D + k * num 90 * D) (num 6 * D) GOLD
         @ [CAlign ''center'', CFont (pxFont (num 13 * D) ''\"Space Grotesk\"''), CFillStyle PINK,
            CText ([0x2715] @ js '' cannot spend'') cx (cy + num 64 * D)])"

definition drawProofs :: "Screen \<Rightarrow> jsnum \<Rightarrow> ctxCmd list" where
  "drawProofs s t =
     (let W = scW s; H = scH s; D = scD s; cx = W / num 2; cy = H / num 2; bw = num 130 * D; bh = num 80 * D;
          k = loop t (dec (26 / 10)); p = numMin (num 1) (k / dec (6 / 10)); ax = cx + num 6 * D; ay = cy + num 22 * D
      in roundRect s (cx - bw / num 2) (cy - bh / num 2) bw bh (num 10 * D) (Some (js ''rgba(255,255,255,.03)'')) (Some MUTE)
         @ [CStrokeStyle (js ''rgba(150,156,182,.5)''), CLineWidth (num 2 * D)]
         @ concat (map (\<lambda>i. let y = cy - num 16 * D + num i * num 14 * D
                            in [CBegin, CMove (cx - num 40 * D) y, CLine (cx + num 20 * D) y, CStroke]) [0..<3])
         @ [CStrokeStyle TEAL, CLineWidth (num 4 * D), CCap ''round'', CBegin, CMove (ax - num 14 * D) (ay - num 6 * D)]
         @ (if num 0 < p then [CLine (ax - num 14 * D + num 8 * D * numMin (num 1) (p / dec (4 / 10))) (ay + num 2 * D * numMin (num 1) (p / dec (4 / 10)))] else [])
         @ (if dec (4 / 10) < p
            then [CLine (ax - num 6 * D + num 18 * D * ((p - dec (4 / 10)) / dec (6 / 10))) (ay + num 2 * D - num 16 * D * ((p - dec (4 / 10)) / dec (6 / 10)))] else [])
         @ [CStroke, CCap ''butt'', CAlign ''center'', CFillStyle (js ''#969cb6''), CFont (pxFont (num 11 * D) ''ui-monospace''),
            CText (js ''DLEQ verified'') cx (cy + bh / num 2 + num 20 * D)])"

definition drawFees :: "Screen \<Rightarrow> jsnum \<Rightarrow> ctxCmd list" where
  "drawFees s t =
     (let W = scW s; H = scH s; D = scD s; y = H / num 2; k = loop t (num 3);
          x = (if k < dec (1 / 2) then W * dec (12 / 100) + (k / dec (1 / 2)) * (W * dec (4 / 10))
               else W * dec (52 / 100) + ((k - dec (1 / 2)) / dec (1 / 2)) * (W * dec (36 / 100)));
          fast = (dec (1 / 2) \<le> k)
      in [CStrokeStyle (js ''rgba(255,255,255,.08)''), CLineWidth (num 14 * D), CBegin, CMove (W * dec (12 / 100)) y, CLine (W * dec (88 / 100)) y, CStroke]
         @ roundRect s (x - num 16 * D) (y - num 9 * D) (num 32 * D) (num 18 * D) (num 5 * D)
             (Some (js (if fast then ''rgba(0,230,195,.85)'' else ''rgba(139,108,255,.7)''))) None
         @ [CAlign ''center'', CFillStyle (if fast then TEAL else js ''#969cb6''), CFont (pxFont (num 12 * D) ''\"Space Grotesk\"''),
            CText (if fast then [0x2191] @ js '' bumped '' @ [0x2014] @ js '' confirms fast''
                   else js ''low fee '' @ [0x2014] @ js '' stuck'' @ [0x2026]) (W / num 2) (y + num 38 * D)]
         @ dot (W * dec (88 / 100)) y (num 5 * D) GOLD)"

definition drawSwaps :: "Maths \<Rightarrow> Screen \<Rightarrow> jsnum \<Rightarrow> ctxCmd list" where
  "drawSwaps m s t =
     (let W = scW s; H = scH s; D = scD s; k = loop t (num 3); cy = H / num 2;
          xm = W * dec (2 / 10) + k * (W * dec (6 / 10)); om = W * dec (8 / 10) - k * (W * dec (6 / 10));
          arc = ma_sin m (k * mathPI) * num 50 * D
      in dot xm (cy - arc) (num 14 * D) PINK @ dot om (cy + arc) (num 14 * D) TEAL
         @ [CAlign ''center'', CFont (pxFont (num 11 * D) ''ui-monospace''),
            CFillStyle PINK, CText (js ''XMR'') (W * dec (2 / 10)) (cy + num 70 * D),
            CFillStyle TEAL, CText (js ''OBX'') (W * dec (8 / 10)) (cy + num 70 * D),
            CFillStyle (js ''#969cb6''), CText (js ''adaptor signatures'') (W / num 2) (cy - num 76 * D)])"

definition drawEncrypted :: "Screen \<Rightarrow> jsnum \<Rightarrow> ctxCmd list" where
  "drawEncrypted s t =
     (let W = scW s; H = scH s; D = scD s; cx = W / num 2; cy = H / num 2 + num 8 * D; k = loop t (num 3); shut = numMin (num 1) (k / dec (1 / 2));
          upper = cy - num 6 * D - (num 1 - shut) * num 22 * D - num 18 * D
      in roundRect s (cx - num 34 * D) (cy - num 6 * D) (num 68 * D) (num 52 * D) (num 9 * D) (Some (js ''rgba(139,108,255,.18)'')) (Some VIOLET)
         @ [CStrokeStyle TEAL, CLineWidth (num 6 * D), CCap ''round'', CBegin, CArc cx upper (num 18 * D) mathPI (num 0), CStroke, CCap ''butt'',
            CAlign ''center'', CFillStyle (js ''#969cb6''), CFont (pxFont (num 11 * D) ''ui-monospace''),
            CText (if num 1 \<le> shut then js ''Argon2id '' @ [0xB7] @ js '' encrypted'' else js ''sealing'' @ [0x2026]) cx (cy + num 64 * D)])"

definition drawMnemonic :: "Screen \<Rightarrow> jsnum \<Rightarrow> ctxCmd list" where
  "drawMnemonic s t =
     (let W = scW s; H = scH s; D = scD s; padX = W * dec (14 / 100); padY = H * dec (24 / 100);
          gx = (W - padX * num 2) / num 6; gy = (H - padY * num 2) / num 4; shown = numFloor (loop t (num 4) * num 25)
      in concat (map (\<lambda>r. concat (map (\<lambda>c.
           let i = 6 * r + c; x = padX + num c * gx; y = padY + num r * gy; on = (num i < shown)
           in roundRect s (x + num 3 * D) (y + num 3 * D) (gx - num 8 * D) (gy - num 8 * D) (num 6 * D)
                (Some (js (if on then ''rgba(0,230,195,.12)'' else ''rgba(255,255,255,.03)'')))
                (Some (js (if on then ''rgba(0,230,195,.5)'' else ''rgba(255,255,255,.07)'')))) [0..<6])) [0..<4])
         @ [CAlign ''center'', CFillStyle (js ''#969cb6''), CFont (pxFont (num 11 * D) ''ui-monospace''),
            CText (js ''gabe '' @ [0xB7] @ js '' hano '' @ [0xB7] @ js '' gima '' @ [0xB7, 32, 0x2026]) (W / num 2) (H - padY * dec (1 / 2))])"

text \<open>An element beyond the three of \<^verbatim>\<open>stem\<close> is undefined, and NaN in the sum.\<close>

definition stemAt :: "Screen \<Rightarrow> jsnum \<Rightarrow> jsnum" where
  "stemAt s i = (if i = num 0 then scW s * dec (12 / 100) else if i = num 1 then scW s * dec (32 / 100) else if i = num 2 then scW s * dec (1 / 2) else NaN)"

definition drawNetwork :: "Maths \<Rightarrow> Screen \<Rightarrow> jsnum \<Rightarrow> ctxCmd list" where
  "drawNetwork m s t =
     (let W = scW s; H = scH s; D = scD s; y = H / num 2; k = loop t (dec (32 / 10));
          seg = numMin (dec (2999 / 1000)) (k * num 4); si = numFloor seg; fr = seg - si
      in concat (map (\<lambda>i. dot (stemAt s (num i)) y (num 7 * D) (if i = 0 then GOLD else VIOLET)
                   @ (if i \<noteq> 0 then line s (stemAt s (num (i - 1))) y (stemAt s (num i)) y VIOLET (dec (1 / 2)) else [])) [0..<3])
         @ (if si < num 2
            then dot (stemAt s si + (stemAt s (si + num 1) - stemAt s si) * fr) y (num 5 * D) TEAL
            else concat (map (\<lambda>j.
              let a = (num j / num 9) * mathPI * num 2; rr = fr * W * dec (32 / 100)
              in dot (W * dec (1 / 2) + ma_cos m a * rr) (y + ma_sin m a * rr * dec (7 / 10)) (num 4 * D) (rgba ''0,230,195'' (num 1 - fr))) [0..<9]))
         @ [CAlign ''center'', CFillStyle (js ''#969cb6''), CFont (pxFont (num 11 * D) ''ui-monospace''),
            CText (js ''stem '' @ [0x2192] @ js '' fluff'') (W * dec (31 / 100)) (y + num 34 * D)])"

definition drawMining :: "Screen \<Rightarrow> jsnum \<Rightarrow> ctxCmd list" where
  "drawMining s t =
     (let W = scW s; H = scH s; D = scD s; y = H / num 2; bw = num 46 * D; gap = num 22 * D;
          total = num 5 * bw + num 4 * gap; x0 = (W - total) / num 2; newOne = loop t (dec (24 / 10))
      in concat (map (\<lambda>i.
           let x = x0 + num i * (bw + gap); isNew = (i = 4); a = (if isNew then newOne else num 1)
           in roundRect s x (y - num 22 * D) bw (num 44 * D) (num 7 * D)
                (Some (rgba ''0,230,195'' (dec (12 / 100) * a))) (Some (rgba ''0,230,195'' (dec (6 / 10) * a)))
              @ (if i \<noteq> 0 then line s (x0 + num i * (bw + gap) - gap) y x y (js ''rgba(255,255,255,.12)'') (num 1) else [])
              @ (if isNew \<and> dec (85 / 100) < newOne
                 then ring s (x + bw / num 2) y ((newOne - dec (85 / 100)) * num 200 * D) (rgba ''244,183,40'' (num 1 - newOne)) None else [])) [0..<5])
         @ [CAlign ''center'', CFillStyle (js ''#969cb6''), CFont (pxFont (num 11 * D) ''ui-monospace''),
            CText ([0x26CF] @ js '' new block'') (W / num 2) (y + num 44 * D)])"

definition drawSlide :: "Maths \<Rightarrow> jsnum \<Rightarrow> Screen \<Rightarrow> int \<Rightarrow> jsnum \<Rightarrow> ctxCmd list" where
  "drawSlide m random s i t =
     [drawAnonymity m s t, drawStealth m s t, drawAmounts random s t, drawAccumulator m s t, drawSubaddresses m s t, drawViewOnly s t,
      drawProofs s t, drawFees s t, drawSwaps m s t, drawEncrypted s t, drawMnemonic s t, drawNetwork m s t, drawMining s t] ! nat i"

text \<open>What a running frame does to the canvas.\<close>

definition paintFrame :: "Maths \<Rightarrow> jsnum \<Rightarrow> Screen \<Rightarrow> int \<Rightarrow> jsnum \<Rightarrow> ctxCmd list" where
  "paintFrame m random s i t = CClear (scW s) (scH s) # drawSlide m random s i t"

section \<open>Radii\<close>

lemma ok_dot [ok_simps]: "list_all okCmd (dot x y r c) \<longleftrightarrow> nn r"
  by (simp add: dot_def)

lemma ok_ring [ok_simps]: "list_all okCmd (ring s x y r c lw) \<longleftrightarrow> nn r"
  by (simp add: ring_def)

lemma ok_roundRect [ok_simps]: "list_all okCmd (roundRect s x y w h r fill stroke) \<longleftrightarrow> nn r"
  by (auto simp: roundRect_def split: option.split)

lemma ok_line [ok_simps]: "list_all okCmd (line s x1 y1 x2 y2 c a)"
  by (simp add: line_def)

lemma ok_labels [ok_simps]: "list_all okCmd (labels s arr xs y)"
  by (auto simp: labels_def list_all_iff)

lemma nn_loop [sign_intros]: "nn t \<Longrightarrow> nn p \<Longrightarrow> nn (loop t p)"
  by (simp add: loop_def sign_intros)

lemma half_left: "k < dec (1 / 2) \<Longrightarrow> nn (num 1 - k / dec (1 / 2))"
proof (rule nn_minus)
  assume "k < dec (1 / 2)"
  then show "\<not> num 1 < k / dec (1 / 2)"
  proof (cases k)
    case (Fin q)
    then have "q * 2 \<le> 1" using \<open>k < dec (1 / 2)\<close> by (simp add: dec_half less_jsnum_def)
    then have "doubleOf (q * 2) \<le> 1" by (intro doubleOf_mono_le) (use isDouble_of_int [of 1] in simp_all)
    moreover have "q < 0 \<or> 0 \<le> doubleOf (q * 2)" using doubleOf_nonneg [of "q * 2"] by linarith
    ultimately show ?thesis using Fin by (auto simp: dec_half num_def js_ops toDouble_def Let_def)
  qed (auto simp: dec_half num_def js_ops)
qed

lemma anonymity_ok:
  assumes "\<forall>x. notBelow (- 1) (ma_sin m x)" and "nn t" and "nn (scW s)" and "nn (scD s)"
  shows "list_all okCmd (drawAnonymity m s t)"
  unfolding drawAnonymity_def Let_def using assms by (auto simp: ok_simps sign_intros half_left [simplified])

lemma stealth_ok:
  assumes "\<forall>x. notBelow (- 1) (ma_sin m x)" and "nn (scD s)"
  shows "list_all okCmd (drawStealth m s t)"
  unfolding drawStealth_def Let_def using assms by (auto simp: ok_simps sign_intros)

lemma amounts_ok: "nn (scD s) \<Longrightarrow> list_all okCmd (drawAmounts random s t)"
  unfolding drawAmounts_def Let_def by (auto simp: ok_simps sign_intros)

lemma accumulator_ok:
  assumes "\<forall>x. notBelow (- 1) (ma_sin m x)" and "nn (scD s)"
  shows "list_all okCmd (drawAccumulator m s t)"
  unfolding drawAccumulator_def Let_def using assms by (auto simp: ok_simps sign_intros)

lemma subaddresses_ok: "nn (scD s) \<Longrightarrow> list_all okCmd (drawSubaddresses m s t)"
  unfolding drawSubaddresses_def Let_def by (auto simp: ok_simps sign_intros)

lemma viewOnly_ok: "nn (scD s) \<Longrightarrow> list_all okCmd (drawViewOnly s t)"
  unfolding drawViewOnly_def Let_def by (auto simp: ok_simps sign_intros)

lemma proofs_ok: "nn (scD s) \<Longrightarrow> list_all okCmd (drawProofs s t)"
  unfolding drawProofs_def Let_def by (auto simp: ok_simps sign_intros)

lemma fees_ok: "nn (scD s) \<Longrightarrow> list_all okCmd (drawFees s t)"
  unfolding drawFees_def Let_def by (auto simp: ok_simps sign_intros)

lemma swaps_ok: "nn (scD s) \<Longrightarrow> list_all okCmd (drawSwaps m s t)"
  unfolding drawSwaps_def Let_def by (auto simp: ok_simps sign_intros)

lemma encrypted_ok: "nn (scD s) \<Longrightarrow> list_all okCmd (drawEncrypted s t)"
  unfolding drawEncrypted_def Let_def by (auto simp: ok_simps sign_intros)

lemma mnemonic_ok: "nn (scD s) \<Longrightarrow> list_all okCmd (drawMnemonic s t)"
  unfolding drawMnemonic_def Let_def by (auto simp: ok_simps sign_intros)

lemma network_ok: "nn (scD s) \<Longrightarrow> list_all okCmd (drawNetwork m s t)"
  unfolding drawNetwork_def Let_def by (auto simp: ok_simps sign_intros)

lemma less_not_less: "x < y \<Longrightarrow> \<not> y < x" for x y :: jsnum
  by (cases x; cases y) (auto simp: js_ops)

lemma mining_ok: "nn (scD s) \<Longrightarrow> list_all okCmd (drawMining s t)"
  unfolding drawMining_def Let_def by (auto simp: ok_simps sign_intros less_not_less)

lemma drawSlide_cases:
  assumes "0 \<le> i" and "i < 13"
    and "P 0 (drawAnonymity m s t)" and "P 1 (drawStealth m s t)" and "P 2 (drawAmounts random s t)" and "P 3 (drawAccumulator m s t)"
    and "P 4 (drawSubaddresses m s t)" and "P 5 (drawViewOnly s t)" and "P 6 (drawProofs s t)" and "P 7 (drawFees s t)" and "P 8 (drawSwaps m s t)"
    and "P 9 (drawEncrypted s t)" and "P 10 (drawMnemonic s t)" and "P 11 (drawNetwork m s t)" and "P 12 (drawMining s t)"
  shows "P i (drawSlide m random s i t)"
proof -
  define xs where "xs = [drawAnonymity m s t, drawStealth m s t, drawAmounts random s t, drawAccumulator m s t, drawSubaddresses m s t, drawViewOnly s t,
    drawProofs s t, drawFees s t, drawSwaps m s t, drawEncrypted s t, drawMnemonic s t, drawNetwork m s t, drawMining s t]"
  have "list_all2 P [0..12] xs" using assms(3-) by (simp add: xs_def upto.simps)
  then have "P ([0..12] ! nat i) (xs ! nat i)" by (rule list_all2_nthD) (use assms(1,2) in simp)
  then show ?thesis using assms(1,2) by (simp add: drawSlide_def xs_def [symmetric])
qed

lemma drawSlide_ok:
  assumes "\<forall>x. notBelow (- 1) (ma_sin m x)" and "nn t" and "nn (scW s)" and "nn (scD s)" and "0 \<le> i" and "i < 13"
  shows "list_all okCmd (drawSlide m random s i t)"
  using assms(5,6) by (rule drawSlide_cases [where P = "\<lambda>_. list_all okCmd"])
    (use assms in \<open>simp_all add: anonymity_ok stealth_ok amounts_ok accumulator_ok subaddresses_ok viewOnly_ok proofs_ok fees_ok swaps_ok
       encrypted_ok mnemonic_ok network_ok mining_ok\<close>)

lemma fit_nn: "nn (scW (fit width height dpr))" "nn dpr \<Longrightarrow> nn (scD (fit width height dpr))"
  by (simp_all add: fit_def Let_def sign_intros)

section \<open>What a slide leaves behind\<close>

text \<open>The state of a context that the drawings rely on without setting it.\<close>

definition settled :: "Ctx \<Rightarrow> bool" where
  "settled c \<longleftrightarrow> cx_alpha c = Fin 1 \<and> cx_dash c = [] \<and> cx_cap c = ''butt''"

fun quiet :: "ctxCmd \<Rightarrow> bool" where
  "quiet (CAlpha _) = False"
| "quiet (CDash _) = False"
| "quiet (CCap _) = False"
| "quiet (CBaseline _) = False"
| "quiet (CSize _ _) = False"
| "quiet _ = True"

text \<open>A drawing that settles what it unsettles, and leaves the baseline alone.\<close>

definition tidy :: "ctxCmd list \<Rightarrow> bool" where
  "tidy cmds \<longleftrightarrow> (\<forall>c. settled c \<longrightarrow> settled (fold execCmd cmds c) \<and> cx_baseline (fold execCmd cmds c) = cx_baseline c)"

lemma execCmd_quiet:
  assumes "quiet cmd"
  shows "cx_alpha (execCmd cmd c) = cx_alpha c" and "cx_dash (execCmd cmd c) = cx_dash c" and "cx_cap (execCmd cmd c) = cx_cap c"
    and "cx_baseline (execCmd cmd c) = cx_baseline c"
  using assms by (cases cmd; simp)+

lemma fold_quiet:
  assumes "list_all quiet cmds"
  shows "cx_alpha (fold execCmd cmds c) = cx_alpha c \<and> cx_dash (fold execCmd cmds c) = cx_dash c \<and> cx_cap (fold execCmd cmds c) = cx_cap c
    \<and> cx_baseline (fold execCmd cmds c) = cx_baseline c"
  using assms by (induction cmds arbitrary: c) (simp_all add: execCmd_quiet)

lemma tidy_quiet: "list_all quiet cmds \<Longrightarrow> tidy cmds"
  using fold_quiet by (simp add: tidy_def settled_def)

lemma tidy_append: "tidy xs \<Longrightarrow> tidy ys \<Longrightarrow> tidy (xs @ ys)"
  by (simp add: tidy_def)

lemma tidy_concat: "\<forall>x \<in> set xs. tidy (f x) \<Longrightarrow> tidy (concat (map f xs))"
  by (induction xs) (simp_all add: tidy_append tidy_quiet)

lemma tidy_alpha: "list_all quiet xs \<Longrightarrow> tidy ([CAlpha a] @ xs @ [CAlpha (num 1)])"
  using fold_quiet by (auto simp: tidy_def settled_def num_def js_ops)

lemma tidy_dash: "list_all quiet xs \<Longrightarrow> tidy ([CDash ds] @ xs @ [CDash []])"
  using fold_quiet by (auto simp: tidy_def settled_def)

lemma tidy_cap: "list_all quiet xs \<Longrightarrow> tidy ([CCap a] @ xs @ [CCap ''butt''])"
  using fold_quiet by (auto simp: tidy_def settled_def)

named_theorems quiet_simps \<open>drawings that leave opacity, dashes, caps and baseline alone\<close>

lemma quiet_dot [quiet_simps]: "list_all quiet (dot x y r c)"
  by (simp add: dot_def)

lemma quiet_ring [quiet_simps]: "list_all quiet (ring s x y r c lw)"
  by (simp add: ring_def)

lemma quiet_roundRect [quiet_simps]: "list_all quiet (roundRect s x y w h r fill stroke)"
  by (auto simp: roundRect_def split: option.split)

lemma quiet_labels [quiet_simps]: "list_all quiet (labels s arr xs y)"
  by (auto simp: labels_def list_all_iff)

lemma tidy_line: "tidy (line s x1 y1 x2 y2 c a)"
proof -
  have "tidy ([CStrokeStyle c] @ ([CAlpha a] @ [CLineWidth (dec (3 / 2) * scD s), CBegin, CMove x1 y1, CLine x2 y2, CStroke] @ [CAlpha (num 1)]))"
    by (intro tidy_append tidy_alpha tidy_quiet) simp_all
  then show ?thesis by (simp add: line_def)
qed

lemmas quiet_slide = tidy_quiet ok_concat quiet_simps Let_def

lemma exec_state:
  "cx_alpha (execCmd (CDash ds) c) = cx_alpha c" "cx_alpha (execCmd (CCap k) c) = cx_alpha c" "cx_alpha (execCmd (CBaseline k) c) = cx_alpha c"
  "cx_dash (execCmd (CAlpha a) c) = cx_dash c" "cx_dash (execCmd (CCap k) c) = cx_dash c" "cx_dash (execCmd (CBaseline k) c) = cx_dash c"
  "cx_cap (execCmd (CAlpha a) c) = cx_cap c" "cx_cap (execCmd (CDash ds) c) = cx_cap c" "cx_cap (execCmd (CBaseline k) c) = cx_cap c"
  "cx_baseline (execCmd (CAlpha a) c) = cx_baseline c" "cx_baseline (execCmd (CDash ds) c) = cx_baseline c" "cx_baseline (execCmd (CCap k) c) = cx_baseline c"
  "cx_alpha (execCmd (CAlpha (Fin 1)) c) = Fin 1" "cx_dash (execCmd (CDash []) c) = []" "cx_cap (execCmd (CCap k) c) = k" "cx_baseline (execCmd (CBaseline k) c) = k"
  by (simp_all add: js_ops)

lemmas state_simps = exec_state execCmd_quiet fold_quiet quiet_simps ok_concat settled_def Let_def

lemma num_1: "num (Suc 0) = Fin 1"
  by (simp add: num_def)

lemma stealth_tidy: "tidy (drawStealth m s t)"
  by (simp add: tidy_def drawStealth_def state_simps num_1 del: execCmd.simps)

lemma proofs_tidy: "tidy (drawProofs s t)"
  by (simp add: tidy_def drawProofs_def state_simps del: execCmd.simps)

lemma encrypted_tidy: "tidy (drawEncrypted s t)"
  by (simp add: tidy_def drawEncrypted_def state_simps del: execCmd.simps)

lemma network_tidy: "tidy (drawNetwork m s t)"
  unfolding drawNetwork_def Let_def by (intro tidy_append tidy_concat ballI) (auto simp: tidy_append tidy_line tidy_quiet ok_concat quiet_simps Let_def)

lemma mining_tidy: "tidy (drawMining s t)"
  unfolding drawMining_def Let_def by (intro tidy_append tidy_concat ballI) (auto simp: tidy_append tidy_line tidy_quiet quiet_simps)

lemma amounts_state:
  "settled c \<Longrightarrow> settled (fold execCmd (drawAmounts random s t) c) \<and> cx_baseline (fold execCmd (drawAmounts random s t) c) = ''middle''"
  by (simp add: drawAmounts_def state_simps del: execCmd.simps)

lemma drawSlide_tidy:
  assumes "0 \<le> i" and "i < 13" and "i \<noteq> 2"
  shows "tidy (drawSlide m random s i t)"
proof -
  have "list_all quiet (drawAnonymity m s t)" "list_all quiet (drawAccumulator m s t)" "list_all quiet (drawSubaddresses m s t)"
    "list_all quiet (drawViewOnly s t)" "list_all quiet (drawFees s t)" "list_all quiet (drawSwaps m s t)" "list_all quiet (drawMnemonic s t)"
    by (simp_all add: drawAnonymity_def drawAccumulator_def drawSubaddresses_def drawViewOnly_def drawFees_def drawSwaps_def drawMnemonic_def
        Let_def quiet_simps ok_concat)
  then have "i \<noteq> 2 \<longrightarrow> tidy (drawSlide m random s i t)"
    using assms(1,2) by (intro drawSlide_cases [where P = "\<lambda>i cmds. i \<noteq> 2 \<longrightarrow> tidy cmds"])
      (simp_all add: tidy_quiet stealth_tidy proofs_tidy encrypted_tidy network_tidy mining_tidy)
  then show ?thesis using assms(3) by simp
qed

section \<open>A slide before its time\<close>

text \<open>The place of an output in the grid of the first slide.\<close>

lemma grid_place:
  assumes "bounded 20 W" and "0 \<le> f" and "f \<le> 1" and "1 \<le> n" and "c \<le> 16"
  shows "isFinite (W * dec f + num c * ((W - W * dec f * num 2) / num n))"
proof -
  have p: "bounded 20 (W * dec f)" using bounded_times [OF assms(1) bounded_dec [of f 0]] assms(2,3) by simp
  then have "bounded 22 (W * dec f * num 2)" using bounded_times [OF p bounded_num [of 2 2]] by simp
  then have "bounded 23 (W - W * dec f * num 2)" using bounded_minus [OF bounded_mono [OF assms(1)], of 22] by simp
  then have "bounded 23 ((W - W * dec f * num 2) / num n)" using assms(4) by (intro bounded_divide) simp_all
  then have "bounded 27 (num c * ((W - W * dec f * num 2) / num n))" using bounded_times [OF bounded_num [of c 4]] assms(5) by fastforce
  then have "bounded 28 (W * dec f + num c * ((W - W * dec f * num 2) / num n))" using bounded_plus [OF bounded_mono [OF p], of 27] by simp
  then show ?thesis by (rule bounded_isFinite)
qed

lemma below_toDouble:
  assumes "q \<le> b" and "isDouble b" and "\<bar>q\<bar> \<le> 2 ^ 100"
  obtains d where "toDouble q = Fin d" "d \<le> b" "\<bar>d\<bar> \<le> 2 ^ 100"
proof -
  obtain d where d: "toDouble q = Fin d" "\<bar>d\<bar> \<le> 2 ^ 100" using bounded_toDouble [OF assms(3)] by (auto simp: bounded_def simp del: power_numeral)
  then have "d = doubleOf q" by (auto simp: toDouble_def Let_def split: if_splits)
  then show thesis using that d doubleOf_mono_le [OF assms(2,1)] by simp
qed

lemma isDouble_small: "isDouble (- 1 / 2 ^ 12)" "isDouble (- 1 / 2 ^ 13)"
  unfolding isDouble_def by (rule exI [of _ "- 1"], rule exI [of _ "- 12"], simp add: power_int_minus inverse_eq_divide)
    (rule exI [of _ "- 1"], rule exI [of _ "- 13"], simp add: power_int_minus inverse_eq_divide)

lemma early_loop:
  assumes "- 3 < q" and "q \<le> - 1 / 2 ^ 10"
  obtains k where "loop (Fin q) (dec (32 / 10)) = Fin k" "k \<le> - 1 / 2 ^ 12" "\<bar>k\<bar> \<le> 1"
proof -
  define p where "p = doubleOf (32 / 10)"
  have "isDouble 3" "isDouble 4" using isDouble_of_int [of 3] isDouble_of_int [of 4] by simp_all
  then have p: "3 \<le> p" "p \<le> 4" unfolding p_def by (auto intro: doubleOf_mono_ge doubleOf_mono_le)
  have dp: "dec (32 / 10) = Fin p"
    using bounded_dec [of "32 / 10" 2] by (auto simp: bounded_def p_def dec_def toDouble_def Let_def split: if_splits)
  have q: "q / p \<le> - 1 / 2 ^ 12" "- 1 < q / p"
  proof -
    have "q / p \<le> q / 4" using p assms(2) by (simp add: divide_le_eq field_simps mult_left_mono_neg)
    then show "q / p \<le> - 1 / 2 ^ 12" using assms(2) by simp
    show "- 1 < q / p" using p assms(1) by (simp add: less_divide_eq)
  qed
  then have "\<lfloor>- (q / p)\<rfloor> = 0" by (intro floor_unique) auto
  moreover have "q / p < 0" using q(1) by (rule le_less_trans) simp
  ultimately have "Fin q mod Fin p = Fin q" using p by (simp add: modulo_jsnum_def numMod_def numTrunc_def)
  then have l: "loop (Fin q) (dec (32 / 10)) = toDouble (q / p)" using p unfolding loop_def dp by (simp add: divide_jsnum_def)
  have "\<bar>q / p\<bar> \<le> 2 ^ 0" using q by (simp add: abs_le_iff)
  then obtain k where k: "toDouble (q / p) = Fin k" "\<bar>k\<bar> \<le> 2 ^ 0" using bounded_toDouble [of "q / p" 0] by (auto simp: bounded_def)
  then have "k = doubleOf (q / p)" by (auto simp: toDouble_def Let_def split: if_splits)
  then have "k \<le> - 1 / 2 ^ 12" using doubleOf_mono_le [OF isDouble_small(1) q(1)] by simp
  then show thesis using that k l by simp
qed

lemma early_radius:
  assumes "k \<le> - 1 / 2 ^ 12" and "\<bar>k\<bar> \<le> 1" and "1 \<le> w" and "w \<le> 2 ^ 20"
  obtains r where "Fin k * Fin w * dec (1 / 2) = Fin r" "r < 0"
proof -
  have "k \<le> 0" using assms(1) by (rule order_trans) simp
  then have "k * w \<le> k * 1" using assms(3) by (intro mult_left_mono_neg)
  then have kw: "k * w \<le> - 1 / 2 ^ 12" using assms(1) by linarith
  have "\<bar>k * w\<bar> \<le> 1 * 2 ^ 20" unfolding abs_mult using assms(2-4) by (intro mult_mono) auto
  also have "\<dots> \<le> (2::rat) ^ 100" by simp
  finally obtain d where d: "toDouble (k * w) = Fin d" "d \<le> - 1 / 2 ^ 12" "\<bar>d\<bar> \<le> 2 ^ 100"
    using below_toDouble [OF kw isDouble_small(1)] by blast
  have "d * (1 / 2) \<le> - 1 / 2 ^ 13" "\<bar>d * (1 / 2)\<bar> \<le> 2 ^ 100" using d(2,3) by (simp_all add: abs_mult)
  then obtain r where "toDouble (d * (1 / 2)) = Fin r" "r \<le> - 1 / 2 ^ 13" using below_toDouble [OF _ isDouble_small(2)] by blast
  then show thesis using that [of r] d(1) by (simp add: times_jsnum_def dec_half)
qed

lemma anonymity_throws:
  assumes "- 3 < q" and "q \<le> - 1 / 2 ^ 10" and "scW s = Fin w" and "1 \<le> w" and "w \<le> 2 ^ 20" and "bounded 20 (scH s)"
  shows "list_ex throws (drawAnonymity m s (Fin q))"
proof -
  obtain k where k: "loop (Fin q) (dec (32 / 10)) = Fin k" "k \<le> - 1 / 2 ^ 12" "\<bar>k\<bar> \<le> 1" by (rule early_loop [OF assms(1,2)])
  obtain r where r: "Fin k * Fin w * dec (1 / 2) = Fin r" "r < 0" by (rule early_radius [OF k(2,3) assms(4,5)])
  define x where "x = scW s * dec (8 / 100) + num 6 * ((scW s - scW s * dec (8 / 100) * num 2) / num 15)"
  define y where "y = scH s * dec (16 / 100) + num 4 * ((scH s - scH s * dec (16 / 100) * num 2) / num 8)"
  have "bounded 20 (scW s)" using assms(3-5) by (simp add: bounded_def)
  then have "isFinite x" "isFinite y" unfolding x_def y_def using assms(6) by (intro grid_place; simp)+
  then have t: "throws (CArc x y (Fin r) (num 0) (num 7))" using r(2) by (simp add: isFinite_def num_def js_ops)
  have half: "Fin k < dec (1 / 2)" using k(2) by (simp add: dec_half less_jsnum_def)
  have "CArc x y (Fin r) (num 0) (num 7) \<in> set (drawAnonymity m s (Fin q))"
    unfolding drawAnonymity_def Let_def set_concat set_map image_image
    by (rule UN_I [of 4], simp, rule UN_I [of 6]) (use k(1) r(1) half assms(3) in \<open>auto simp: ring_def x_def y_def\<close>)
  then show ?thesis using t unfolding list_ex_iff by blast
qed

lemma thousandth:
  assumes "z < 0" and "- (2 ^ 53) \<le> z"
  obtains d where "numDiv (Fin (of_int z)) (Fin 1000) = Fin d" "d \<le> - 1 / 2 ^ 10" "z > - 3000 \<longrightarrow> - 3 < d"
proof -
  let ?q = "rat_of_int z / 1000"
  have "rat_of_int z \<le> of_int (- 1)" "rat_of_int (- (2 ^ 53)) \<le> of_int z" using assms by (simp_all only: of_int_le_iff)
  then have q: "?q \<le> - 1 / 2 ^ 10" "\<bar>?q\<bar> \<le> 2 ^ 100" by (simp_all add: abs_le_iff)
  have "isDouble (- 1 / 2 ^ 10)" "isDouble (- (3071 / 2 ^ 10))"
    unfolding isDouble_def by (rule exI [of _ "- 1"], rule exI [of _ "- 10"], simp add: power_int_minus inverse_eq_divide)
      (rule exI [of _ "- 3071"], rule exI [of _ "- 10"], simp add: power_int_minus inverse_eq_divide)
  note exact = this
  obtain d where d: "toDouble ?q = Fin d" "d \<le> - 1 / 2 ^ 10" by (rule below_toDouble [OF q(1) exact(1) q(2)])
  moreover have "- 3 < d" if "z > - 3000"
  proof -
    have "rat_of_int (- 2999) \<le> of_int z" using that by (simp only: of_int_le_iff)
    then have "- (3071 / 2 ^ 10) \<le> ?q" by simp
    then have "- (3071 / 2 ^ 10) \<le> doubleOf ?q" by (rule doubleOf_mono_ge [OF exact(2)])
    moreover have "d = doubleOf ?q" using d(1) by (auto simp: toDouble_def Let_def split: if_splits)
    ultimately show ?thesis by simp
  qed
  ultimately show thesis using that by simp
qed

section \<open>Correctness\<close>

text \<open>At any time that is not negative every slide can be drawn, whatever the size of the canvas and the pixel ratio of the device: no circle, corner or ellipse has a negative
  radius, provided only that the sine function stays above -1. A slide leaves full opacity, solid lines and butt caps as it found them, but the third
  one changes the baseline of texts to middle for good: the texts of all slides after it are drawn lower than before it.\<close>

theorem slides_paint:
  assumes "\<forall>x. notBelow (- 1) (ma_sin m x)" and "nn t" and "s = fit width height dpr" and "nn dpr" and "0 \<le> i" and "i < 13"
  shows "\<exists>c'. paint (paintFrame m random s i t) c = (None, c')
    \<and> (settled c \<longrightarrow> settled c' \<and> cx_baseline c' = (if i = 2 then ''middle'' else cx_baseline c))"
proof -
  let ?c = "execCmd (CClear (scW s) (scH s)) c"
  have "list_all okCmd (paintFrame m random s i t)" using drawSlide_ok [OF assms(1,2) _ _ assms(5,6)] fit_nn assms(3,4) by (simp add: paintFrame_def)
  then have p: "paint (paintFrame m random s i t) c = (None, fold execCmd (drawSlide m random s i t) ?c)"
    using paint_ok by (simp add: paintFrame_def del: execCmd.simps)
  have c: "settled ?c \<longleftrightarrow> settled c" "cx_baseline ?c = cx_baseline c" by (simp_all add: settled_def)
  show ?thesis
  proof (cases "i = 2")
    case True
    then have "drawSlide m random s i t = drawAmounts random s t" by (simp add: drawSlide_def)
    then show ?thesis using p c amounts_state [of ?c random s t] True by (simp del: execCmd.simps)
  next
    case False
    then show ?thesis using p c drawSlide_tidy [OF assms(5,6) False, of m random s t] by (simp add: tidy_def del: execCmd.simps)
  qed
qed

text \<open>\<^bold>\<open>C38.\<close> The two halves of the script meet badly: a slide picked while the pointer rests on the card starts in the future, because leaving adds
  the whole pause to a start that lies inside it. Until then it is drawn at negative times, and for the first slide, in the three seconds before
  its start, that asks for a circle of negative radius: the context throws and the picture stays unfinished.\<close>

theorem early_slide_throws:
  assumes "0 \<le> p" and "p < c" and "c \<le> l" and "l \<le> 2 ^ 52" and "l \<le> now" and "now < c + (l - p)" and "sh_running s" and "i < 13"
  shows "\<exists>s' t. runEvents showHandle [PointerEnter (Fin (of_int p)), Dot i (Fin (of_int c)), PointerLeave (Fin (of_int l)), Frame (Fin (of_int now)) clock] s = Some s'
    \<and> sh_start s' = Fin (of_int (c + (l - p))) \<and> last (sh_drawn s') = (int i, t) \<and> \<not> nn t
    \<and> (i = 0 \<longrightarrow> c + (l - p) - now < 3000 \<longrightarrow> scW scr = Fin w \<longrightarrow> 1 \<le> w \<longrightarrow> w \<le> 2 ^ 20 \<longrightarrow> bounded 20 (scH scr) \<longrightarrow>
        fst (paint (paintFrame m random scr 0 t) ctx) = Some IndexSizeError)"
proof -
  let ?z = "now - (c + (l - p))"
  obtain s' where s': "runEvents showHandle [PointerEnter (Fin (of_int p)), Dot i (Fin (of_int c)), PointerLeave (Fin (of_int l)), Frame (Fin (of_int now)) clock] s = Some s'"
    "sh_start s' = Fin (of_int (c + (l - p)))" "sh_idx s' = int i mod 13" "last (sh_drawn s') = (sh_idx s', numDiv (Fin (of_int ?z)) (Fin 1000))"
    using future_choice [OF assms(1-7), of "Dot i (Fin (of_int c))" "int i" clock] assms(8) by auto
  have z: "?z < 0" "- (2 ^ 53) \<le> ?z" using assms(1-6) by auto
  obtain d where d: "numDiv (Fin (of_int ?z)) (Fin 1000) = Fin d" "d \<le> - 1 / 2 ^ 10" "?z > - 3000 \<longrightarrow> - 3 < d" by (rule thousandth [OF z])
  have "\<not> nn (Fin d)" using d(2) by (simp add: not_le)
  moreover have "fst (paint (paintFrame m random scr 0 (Fin d)) ctx) = Some IndexSizeError"
    if "c + (l - p) - now < 3000" "scW scr = Fin w" "1 \<le> w" "w \<le> 2 ^ 20" "bounded 20 (scH scr)"
    using anonymity_throws [OF _ d(2) that(2-5), of m] d(3) that(1) by (simp add: paint_throws paintFrame_def drawSlide_def)
  ultimately show ?thesis using s' d(1) assms(8) by (intro exI [of _ s'] exI [of _ "Fin d"]) simp
qed

theorem early_slide_throws_witness:
  "\<exists>s' t. runEvents showHandle [PointerEnter (Fin 1000), Dot 0 (Fin 3000), PointerLeave (Fin 3500), Frame (Fin 3600) (Fin 3600)] ((startShow (Fin 0))\<lparr>sh_running := True\<rparr>) = Some s'
    \<and> last (sh_drawn s') = (0, t) \<and> fst (paint (paintFrame plainMaths (Fin 0) \<lparr>scW = Fin 640, scH = Fin 360, scD = Fin 1\<rparr> 0 t) freshCtx) = Some IndexSizeError"
  using early_slide_throws [of 1000 3000 3500 3600 "(startShow (Fin 0))\<lparr>sh_running := True\<rparr>" 0 "Fin 3600" "\<lparr>scW = Fin 640, scH = Fin 360, scD = Fin 1\<rparr>" 640 plainMaths "Fin 0" freshCtx]
  by (simp add: bounded_def del: runEvents.simps showHandle.simps) blast

end
