(* ===== verification/Site_Stage.thy ===== *)
theory Site_Stage
  imports Site_Slides
begin

text \<open>
  The carousel with its canvas (\<^verbatim>\<open>website/assets/showcase.js\<close>): the controller of \<^verbatim>\<open>Site_Showcase\<close> and the drawings of
  \<^verbatim>\<open>Site_Slides\<close> as one system of events. A running frame paints the current slide, an exception ends that
  frame only, and resizing the window fits the canvas, which resets its context. The theorem is about every sequence of events.
\<close>

section \<open>The stage\<close>

record Stage =
  st_show :: Show
  st_screen :: Screen
  st_ctx :: Ctx
  st_painted :: "int list" \<comment> \<open>slides painted since the canvas was last fitted\<close>
  st_errors :: "(int \<times> jsnum) list" \<comment> \<open>slides whose drawing threw, with their time\<close>

datatype stageEvent =
    On showEvent jsnum \<comment> \<open>an event of the controller; what \<^verbatim>\<open>Math.random\<close> gives while it runs\<close>
  | Resize jsnum jsnum jsnum \<comment> \<open>width and height of the canvas in the layout, pixel ratio\<close>

definition fitStage :: "jsnum \<Rightarrow> jsnum \<Rightarrow> jsnum \<Rightarrow> Stage \<Rightarrow> Stage" where
  "fitStage width height dpr st =
     (let scr = fit width height dpr
      in st\<lparr>st_screen := scr, st_ctx := execCmd (CSize (scW scr) (scH scr)) (st_ctx st), st_painted := []\<rparr>)"

text \<open>The script as it is loaded: the canvas is fitted, then slide 0 is set.\<close>

definition startStage :: "jsnum \<Rightarrow> jsnum \<Rightarrow> jsnum \<Rightarrow> jsnum \<Rightarrow> Stage" where
  "startStage width height dpr clock =
     fitStage width height dpr
       \<lparr>st_show = startShow clock, st_screen = \<lparr>scW = NaN, scH = NaN, scD = NaN\<rparr>, st_ctx = freshCtx, st_painted = [], st_errors = []\<rparr>"

text \<open>The rest of a frame: the last slide the controller asked for is painted, up to the first command that throws.\<close>

definition paintStage :: "Maths \<Rightarrow> jsnum \<Rightarrow> Stage \<Rightarrow> Stage" where
  "paintStage m random st =
     (let (i, t) = last (sh_drawn (st_show st)); (err, c) = paint (paintFrame m random (st_screen st) i t) (st_ctx st)
      in st\<lparr>st_ctx := c, st_painted := st_painted st @ [i],
            st_errors := (case err of None \<Rightarrow> st_errors st | Some _ \<Rightarrow> st_errors st @ [(i, t)])\<rparr>)"

fun stageHandle :: "Maths \<Rightarrow> stageEvent \<Rightarrow> Stage \<Rightarrow> Stage option" where
  "stageHandle m (Resize width height dpr) st = Some (fitStage width height dpr st)"
| "stageHandle m (On e random) st =
     (case showHandle e (st_show st) of
        None \<Rightarrow> None
      | Some s \<Rightarrow> let st' = st\<lparr>st_show := s\<rparr>
                 in Some (case e of Frame now clock \<Rightarrow> if sh_running (st_show st) then paintStage m random st' else st' | _ \<Rightarrow> st'))"

text \<open>Pixel ratios are not negative.\<close>

fun plausible :: "stageEvent \<Rightarrow> bool" where
  "plausible (Resize width height dpr) \<longleftrightarrow> nn dpr"
| "plausible (On e random) \<longleftrightarrow> True"

section \<open>Painting at any time\<close>

lemma drawSlide_ok_any:
  assumes "\<forall>x. notBelow (- 1) (ma_sin m x)" and "nn (scW s)" and "nn (scD s)" and "0 \<le> i" and "i < 13" and "i = 0 \<longrightarrow> nn t"
  shows "list_all okCmd (drawSlide m random s i t)"
proof -
  have "(i = 0 \<longrightarrow> nn t) \<longrightarrow> list_all okCmd (drawSlide m random s i t)"
    using assms(4,5) by (rule drawSlide_cases [where P = "\<lambda>i cmds. (i = 0 \<longrightarrow> nn t) \<longrightarrow> list_all okCmd cmds"])
      (use assms in \<open>simp_all add: anonymity_ok stealth_ok amounts_ok accumulator_ok subaddresses_ok viewOnly_ok proofs_ok fees_ok swaps_ok
         encrypted_ok mnemonic_ok network_ok mining_ok\<close>)
  then show ?thesis using assms(6) by simp
qed

text \<open>A quiet drawing keeps the context settled even when it is cut short.\<close>

lemma paint_quiet:
  assumes "list_all quiet cmds"
  shows "(settled (snd (paint cmds c)) \<longleftrightarrow> settled c) \<and> cx_baseline (snd (paint cmds c)) = cx_baseline c"
  using assms by (induction cmds arbitrary: c) (auto simp: settled_def execCmd_quiet)

lemma anonymity_quiet: "list_all quiet (paintFrame m random s 0 t)"
  by (simp add: paintFrame_def drawSlide_def drawAnonymity_def Let_def quiet_simps ok_concat)

lemma paintFrame_state:
  assumes sin: "\<forall>x. notBelow (- 1) (ma_sin m x)" and s: "nn (scW s)" "nn (scD s)" and i: "0 \<le> i" "i < 13" and c: "settled c"
    and p: "paint (paintFrame m random s i t) c = (err, c')"
  shows "settled c' \<and> cx_baseline c' = (if i = 2 then ''middle'' else cx_baseline c) \<and> (err \<noteq> None \<longrightarrow> i = 0 \<and> \<not> nn t)"
proof (cases "i = 0")
  case True
  have "err = None" if "nn t"
  proof -
    have "list_all okCmd (paintFrame m random s i t)" using drawSlide_ok_any [OF sin s i] that by (simp add: paintFrame_def)
    then show ?thesis using p paint_ok by simp
  qed
  moreover have "settled c' \<and> cx_baseline c' = cx_baseline c"
    using paint_quiet [OF anonymity_quiet [of m random s t], of c] p True c by simp
  ultimately show ?thesis using True by auto
next
  case False
  let ?c = "execCmd (CClear (scW s) (scH s)) c"
  have "list_all okCmd (paintFrame m random s i t)" using drawSlide_ok_any [OF sin s i] False by (simp add: paintFrame_def)
  then have e: "err = None" "c' = fold execCmd (drawSlide m random s i t) ?c"
    using p paint_ok by (simp_all add: paintFrame_def del: execCmd.simps)
  have c0: "settled ?c" "cx_baseline ?c = cx_baseline c" using c by (simp_all add: settled_def)
  show ?thesis
  proof (cases "i = 2")
    case True
    then have "drawSlide m random s i t = drawAmounts random s t" by (simp add: drawSlide_def)
    then show ?thesis using e c0 amounts_state [of ?c random s t] True by (simp del: execCmd.simps)
  next
    case False
    then show ?thesis using e c0 drawSlide_tidy [OF i False, of m random s t] by (simp add: tidy_def del: execCmd.simps)
  qed
qed

section \<open>The invariant\<close>

definition stageInv :: "Stage \<Rightarrow> bool" where
  "stageInv st \<longleftrightarrow> showInv (st_show st) \<and> nn (scW (st_screen st)) \<and> nn (scD (st_screen st)) \<and> settled (st_ctx st)
     \<and> cx_baseline (st_ctx st) = (if 2 \<in> set (st_painted st) then ''middle'' else ''alphabetic'')
     \<and> list_all (\<lambda>(i, t). i = 0 \<and> \<not> nn t) (st_errors st)"

lemma fitStage_inv:
  assumes "showInv (st_show st)" and "list_all (\<lambda>(i, t). i = 0 \<and> \<not> nn t) (st_errors st)" and "nn dpr"
  shows "stageInv (fitStage width height dpr st)"
  using assms fit_nn by (simp add: stageInv_def fitStage_def Let_def settled_def freshCtx_def)

lemma paintStage_inv:
  assumes "\<forall>x. notBelow (- 1) (ma_sin m x)" and "stageInv st" and "sh_drawn (st_show st) \<noteq> []"
  shows "stageInv (paintStage m random st)"
proof -
  obtain i t where l: "last (sh_drawn (st_show st)) = (i, t)" by fastforce
  obtain err c where p: "paint (paintFrame m random (st_screen st) i t) (st_ctx st) = (err, c)" by fastforce
  have "(i, t) \<in> set (sh_drawn (st_show st))" using assms(3) l last_in_set by metis
  then have i: "0 \<le> i" "i < 13" using assms(2) by (auto simp: stageInv_def showInv_def list_all_iff)
  have "settled c \<and> cx_baseline c = (if i = 2 then ''middle'' else cx_baseline (st_ctx st)) \<and> (err \<noteq> None \<longrightarrow> i = 0 \<and> \<not> nn t)"
    using paintFrame_state [OF assms(1) _ _ i _ p] assms(2) by (simp add: stageInv_def)
  then show ?thesis using assms(2) l p by (auto simp: stageInv_def paintStage_def split: option.split)
qed

lemma stageHandle_inv:
  assumes "\<forall>x. notBelow (- 1) (ma_sin m x)" and "plausible e" and "stageInv st" and "stageHandle m e st = Some st'"
  shows "stageInv st'"
proof (cases e)
  case (Resize width height dpr)
  then show ?thesis using assms(2-4) fitStage_inv [of st dpr] by (auto simp: stageInv_def)
next
  case (On ev random)
  then obtain s where s: "showHandle ev (st_show st) = Some s" using assms(4) by (auto split: option.splits)
  have "showInv s" using showHandle_inv [OF _ s] assms(3) by (simp add: stageInv_def)
  then have inv: "stageInv (st\<lparr>st_show := s\<rparr>)" using assms(3) by (simp add: stageInv_def)
  moreover have "sh_drawn s \<noteq> []" if "ev = Frame now clock" "sh_running (st_show st)" for now clock
    using s that by (auto simp: frame_def Let_def)
  ultimately show ?thesis
    using assms(4) On s paintStage_inv [OF assms(1) inv, of random] by (auto simp: Let_def split: showEvent.splits if_splits)
qed

text \<open>The events are those with plausible pixel ratios.\<close>

definition stageStep :: "Maths \<Rightarrow> stageEvent \<Rightarrow> Stage \<Rightarrow> Stage option" where
  "stageStep m e st = (if plausible e then stageHandle m e st else None)"

lemma run_plausible: "list_all plausible es \<Longrightarrow> runEvents (stageStep m) es st = runEvents (stageHandle m) es st"
  by (induction es arbitrary: st) (auto simp: stageStep_def split: bind_splits)

lemma stageHandle_errors:
  assumes "stageHandle m e st = Some st'"
  shows "st_errors st' = st_errors st \<or> (\<exists>x. st_errors st' = st_errors st @ [x])"
  using assms by (cases e) (auto simp: fitStage_def paintStage_def Let_def split: option.splits showEvent.splits if_splits prod.splits)

interpretation stage: abstraction "stageStep m" "\<lambda>st. (\<forall>x. notBelow (- 1) (ma_sin m x)) \<and> stageInv st" st_errors
  "\<lambda>xs ys. ys = xs \<or> (\<exists>x. ys = xs @ [x])"
proof
  fix st e st' assume a: "(\<forall>x. notBelow (- 1) (ma_sin m x)) \<and> stageInv st" "stageStep m e st = Some st'"
  then have h: "plausible e" "stageHandle m e st = Some st'" by (auto simp: stageStep_def split: if_splits)
  then show "(\<forall>x. notBelow (- 1) (ma_sin m x)) \<and> stageInv st'" using stageHandle_inv [OF _ h(1) _ h(2)] a(1) by blast
  show "st_errors st' = st_errors st \<or> (\<exists>x. st_errors st' = st_errors st @ [x])" by (rule stageHandle_errors [OF h(2)])
qed

lemma run_stageInv:
  assumes "\<forall>x. notBelow (- 1) (ma_sin m x)" and "nn dpr" and "list_all plausible es"
    and "runEvents (stageHandle m) es (startStage width height dpr clock) = Some st"
  shows "stageInv st"
proof -
  have "showInv (startShow clock)" by (simp add: startShow_def setSlide_inv)
  then have "stageInv (startStage width height dpr clock)" unfolding startStage_def using assms(2) by (intro fitStage_inv) simp_all
  then show ?thesis using stage.run_inv [of m "startStage width height dpr clock" es st] assms run_plausible by auto
qed

lemma paintStage_whole:
  assumes "\<forall>x. notBelow (- 1) (ma_sin m x)" and "stageInv st" and "sh_drawn (st_show st) \<noteq> []" and "last (sh_drawn (st_show st)) = (i, t)"
    and "i = 0 \<longrightarrow> nn t"
  shows "st_errors (paintStage m random st) = st_errors st
    \<and> st_ctx (paintStage m random st) = fold execCmd (paintFrame m random (st_screen st) i t) (st_ctx st)"
proof -
  have "(i, t) \<in> set (sh_drawn (st_show st))" using assms(3,4) last_in_set by metis
  then have "0 \<le> i" "i < 13" using assms(2) by (auto simp: stageInv_def showInv_def list_all_iff)
  then have "list_all okCmd (paintFrame m random (st_screen st) i t)"
    using drawSlide_ok_any [OF assms(1), of "st_screen st" i t random] assms(2,5) by (simp add: stageInv_def paintFrame_def)
  then show ?thesis using assms(4) by (simp add: paintStage_def paint_ok)
qed

section \<open>Correctness\<close>

text \<open>\<^bold>\<open>C22.\<close> Whatever the visitor and the browser do, in any order: the texts and the active dot are those of one slide; full opacity, solid
  lines and butt caps are what every drawing starts from, even after one that threw; texts stand on the middle baseline exactly when the third
  slide has been painted since the canvas was last fitted; and the only drawings that ever threw are those of the first slide at a
  negative time. Every further running frame paints its slide completely, unless it is one of those.\<close>

theorem stage_runs:
  assumes "\<forall>x. notBelow (- 1) (ma_sin m x)" and "nn dpr" and "list_all plausible es"
    and "runEvents (stageHandle m) es (startStage width height dpr clock0) = Some st"
  shows "showInv (st_show st) \<and> settled (st_ctx st)
    \<and> cx_baseline (st_ctx st) = (if 2 \<in> set (st_painted st) then ''middle'' else ''alphabetic'')
    \<and> list_all (\<lambda>(i, t). i = 0 \<and> \<not> nn t) (st_errors st)
    \<and> (sh_running (st_show st) \<longrightarrow> (\<exists>i t st'. last (sh_drawn (frame now clock (st_show st))) = (i, t)
         \<and> stageHandle m (On (Frame now clock) random) st = Some st' \<and> st_show st' = frame now clock (st_show st)
         \<and> ((i = 0 \<longrightarrow> nn t) \<longrightarrow> st_errors st' = st_errors st \<and> st_ctx st' = fold execCmd (paintFrame m random (st_screen st) i t) (st_ctx st))))"
proof -
  have inv: "stageInv st" by (rule run_stageInv [OF assms])
  let ?u = "st\<lparr>st_show := frame now clock (st_show st)\<rparr>"
  obtain i t where l: "last (sh_drawn (frame now clock (st_show st))) = (i, t)" by fastforce
  have "\<exists>st'. stageHandle m (On (Frame now clock) random) st = Some st' \<and> st_show st' = frame now clock (st_show st)
      \<and> ((i = 0 \<longrightarrow> nn t) \<longrightarrow> st_errors st' = st_errors st \<and> st_ctx st' = fold execCmd (paintFrame m random (st_screen st) i t) (st_ctx st))" if "sh_running (st_show st)"
  proof -
    have u: "stageInv ?u" using inv frame_inv by (simp add: stageInv_def)
    have d: "sh_drawn (st_show ?u) \<noteq> []" using that by (simp add: frame_def Let_def)
    have "st_show (paintStage m random ?u) = frame now clock (st_show st)" by (simp add: paintStage_def split: prod.split)
    then show ?thesis using that paintStage_whole [OF assms(1) u d, of i t random] l by auto
  qed
  then show ?thesis using inv l unfolding stageInv_def by blast
qed

theorem stage_runs_witness:
  "\<exists>st. runEvents (stageHandle plainMaths) [On (Dot 2 (Fin 5)) (Fin 0), On (Observe True) (Fin 0), Resize (Fin 320) (Fin 200) (Fin 2)] (startStage (Fin 640) (Fin 360) (Fin 1) (Fin 0)) = Some st
     \<and> showInv (st_show st) \<and> settled (st_ctx st)"
proof -
  let ?es = "[On (Dot 2 (Fin 5)) (Fin 0), On (Observe True) (Fin 0), Resize (Fin 320) (Fin 200) (Fin 2)]"
  obtain st where st: "runEvents (stageHandle plainMaths) ?es (startStage (Fin 640) (Fin 360) (Fin 1) (Fin 0)) = Some st"
    by (simp add: Let_def)
  have "\<forall>x. notBelow (- 1) (ma_sin plainMaths x)" by (simp add: plainMaths_def)
  then show ?thesis using stage_runs [OF _ _ _ st] st by auto
qed

end
