(* ===== verification/Site_Widgets.thy ===== *)
theory Site_Widgets
  imports Js_Number
begin

text \<open>
  The widgets of the public site (\<^verbatim>\<open>website/assets/app.js\<close>): menu, reveal on scroll, copy buttons, step tabs, the picture
  of the anonymity set and the emission curve. Random numbers are a sequence supplied by the browser, and so is
  the square root. What the canvases show is in \<^verbatim>\<open>Site_Scenes\<close>.
\<close>

section \<open>Menu, reveal, copy buttons, tabs\<close>

record Widgets =
  wg_open :: bool \<comment> \<open>the menu\<close>
  wg_in :: "bool list" \<comment> \<open>elements revealed\<close>
  wg_observed :: "bool list" \<comment> \<open>elements still observed\<close>
  wg_label :: jstr \<comment> \<open>a copy button\<close>
  wg_timers :: "jstr list" \<comment> \<open>labels its pending timers will restore, in order\<close>
  wg_tabs :: "bool list"
  wg_panes :: "bool list"
  wg_section :: "bool list" \<comment> \<open>active links of the documentation sidebar\<close>

definition navToggle :: "Widgets \<Rightarrow> Widgets" where
  "navToggle s = s\<lparr>wg_open := \<not> wg_open s\<rparr>"

definition navLink :: "Widgets \<Rightarrow> Widgets" where
  "navLink s = s\<lparr>wg_open := False\<rparr>"

text \<open>One report of the observer: the elements that cross the threshold, and whether they are visible.\<close>

definition reveal :: "(nat \<times> bool) list \<Rightarrow> Widgets \<Rightarrow> Widgets" where
  "reveal entries s =
     fold (\<lambda>(i, visible) s. if visible then s\<lparr>wg_in := (wg_in s)[i := True], wg_observed := (wg_observed s)[i := False]\<rparr> else s) entries s"

definition copied :: "Widgets \<Rightarrow> Widgets" where
  "copied s = s\<lparr>wg_timers := wg_timers s @ [wg_label s], wg_label := js ''copied '' @ [0x2713]\<rparr>"

definition copiedTimer :: "Widgets \<Rightarrow> Widgets" where
  "copiedTimer s = (case wg_timers s of [] \<Rightarrow> s | old # rest \<Rightarrow> s\<lparr>wg_label := old, wg_timers := rest\<rparr>)"

fun position :: "jstr \<Rightarrow> jstr list \<Rightarrow> nat option" where
  "position x [] = None"
| "position x (y # ys) = (if x = y then Some 0 else map_option Suc (position x ys))"

definition stepTab :: "jstr list \<Rightarrow> jstr list \<Rightarrow> nat \<Rightarrow> Widgets \<Rightarrow> Widgets" where
  "stepTab steps paneIds i s =
     (let s = s\<lparr>wg_tabs := map (\<lambda>_. False) (wg_tabs s), wg_panes := map (\<lambda>_. False) (wg_panes s)\<rparr>;
          s = s\<lparr>wg_tabs := (wg_tabs s)[i := True]\<rparr>
      in case position (js ''pane-'' @ steps ! i) paneIds of Some p \<Rightarrow> s\<lparr>wg_panes := (wg_panes s)[p := True]\<rparr> | None \<Rightarrow> s)"

definition docSection :: "jstr list \<Rightarrow> (jstr \<times> bool) list \<Rightarrow> Widgets \<Rightarrow> Widgets" where
  "docSection hrefs entries s =
     fold (\<lambda>(ident, visible) s.
         if visible
         then let s = s\<lparr>wg_section := map (\<lambda>_. False) (wg_section s)\<rparr>
              in case position (js ''#'' @ ident) hrefs of Some p \<Rightarrow> s\<lparr>wg_section := (wg_section s)[p := True]\<rparr> | None \<Rightarrow> s
         else s) entries s"

section \<open>The anonymity set\<close>

definition lit :: "rat \<Rightarrow> jsnum" where
  "lit q = toDouble q"

record Anon =
  an_label :: jsnum
  an_nodes :: "(jsnum \<times> jsnum \<times> jsnum) list"
  an_realIdx :: jsnum
  an_ringMode :: bool
  an_modeText :: jstr
  an_modeRing :: bool

text \<open>\<^verbatim>\<open>parseInt(slider.value, 10)\<close> of a slider is its integer value.\<close>

definition build :: "(jsnum \<Rightarrow> jsnum) \<Rightarrow> (nat \<Rightarrow> jsnum) \<Rightarrow> jsnum \<Rightarrow> jsnum \<Rightarrow> nat \<Rightarrow> Anon \<Rightarrow> Anon" where
  "build msqrt rnd w h n s =
     (let nn = Fin (of_nat n);
          cols = numCeil (msqrt (numMul nn (numDiv w h)));
          rows = numCeil (numDiv nn cols);
          padX = numMul w (lit (8 / 100)); padY = numMul h (lit (12 / 100));
          gx = numDiv (numSub w (numMul padX (Fin 2))) (numMax (Fin 1) (numSub cols (Fin 1)));
          gy = numDiv (numSub h (numMul padY (Fin 2))) (numMax (Fin 1) (numSub rows (Fin 1)));
          nodes = map (\<lambda>i. let i' = Fin (of_nat i); c = numMod i' cols; r = numFloor (numDiv i' cols)
                            in (numAdd padX (numMul c gx), numAdd padY (numMul r gy), numMul (rnd i) (Fin 7))) [0..<n];
          realIdx = numAdd (numFloor (numDiv nn (Fin 2))) (Fin 3);
          realIdx = (if numLess realIdx nn then realIdx else numSub nn (Fin 1))
      in s\<lparr>an_label := nn, an_nodes := nodes, an_realIdx := realIdx\<rparr>)"

definition toggleMode :: "Anon \<Rightarrow> Anon" where
  "toggleMode s =
     (let ring = \<not> an_ringMode s
      in s\<lparr>an_ringMode := ring,
           an_modeText := (if ring then js ''Showing: ring of 16 (Monero-style)'' else js ''Showing: global set (Obscura)''),
           an_modeRing := ring\<rparr>)"

text \<open>The decoys of a ring: random indices until fifteen new ones, or all others, are found.\<close>

definition pick :: "nat \<Rightarrow> rat \<Rightarrow> int" where
  "pick n x = \<lfloor>doubleOf (x * of_nat n)\<rfloor>"

partial_function (option) ringLoop :: "(nat \<Rightarrow> rat) \<Rightarrow> nat \<Rightarrow> int \<Rightarrow> nat \<Rightarrow> int \<Rightarrow> int list \<Rightarrow> int list option" where
  "ringLoop rnd n limit j added ring =
     (if added < limit
      then let k = pick n (rnd j)
           in if k \<in> set ring then ringLoop rnd n limit (Suc j) added ring
              else ringLoop rnd n limit (Suc j) (added + 1) (ring @ [k])
      else Some ring)"

definition ringSet :: "(nat \<Rightarrow> rat) \<Rightarrow> nat \<Rightarrow> int \<Rightarrow> int list option" where
  "ringSet rnd n realIdx = ringLoop rnd n (min 15 (int n - 1)) 0 0 [realIdx]"

section \<open>The emission curve\<close>

definition emCap :: jsnum where "emCap = Fin 18400000"
definition emTail :: jsnum where "emTail = lit (6 / 10)"
definition emBlocks :: jsnum where "emBlocks = Fin 4500000"
definition emStep :: jsnum where "emStep = numDiv emBlocks (Fin 240)"

definition emReward :: "jsnum \<Rightarrow> jsnum" where
  "emReward emitted =
     (let reward = numDiv (numSub emCap emitted) (Fin (2 ^ 19)) in if numLess reward emTail then emTail else reward)"

definition emAdvance :: "jsnum \<Rightarrow> jsnum" where
  "emAdvance emitted =
     (let emitted = numAdd emitted (numMul (emReward emitted) emStep) in if numLess emCap emitted then emCap else emitted)"

partial_function (option) emissionFrom :: "jsnum \<Rightarrow> jsnum \<Rightarrow> (jsnum \<times> jsnum \<times> jsnum) list option" where
  "emissionFrom b emitted =
     (if b = emBlocks \<or> numLess b emBlocks
      then Option.bind (emissionFrom (numAdd b emStep) (emAdvance emitted)) (\<lambda>pts. Some ((b, emReward emitted, emitted) # pts))
      else Some [])"

text \<open>The point of the reward curve on the canvas, and the line of the tail.\<close>

definition emissionPoint :: "jsnum \<Rightarrow> jsnum \<Rightarrow> jsnum \<Rightarrow> jsnum \<Rightarrow> jsnum \<times> jsnum \<times> jsnum \<Rightarrow> jsnum \<times> jsnum" where
  "emissionPoint w h pad maxR = (\<lambda>(b, reward, emitted).
     (numAdd pad (numMul (numDiv b emBlocks) (numSub w (numMul pad (lit (3 / 2))))),
      numSub (numSub h pad) (numMul (numDiv reward maxR) (numSub h (numMul pad (lit (3 / 2)))))))"

definition emissionCurve :: "jsnum \<Rightarrow> jsnum \<Rightarrow> jsnum \<Rightarrow> ((jsnum \<times> jsnum) list \<times> jsnum) option" where
  "emissionCurve w h dpr =
     (let pad = numMul (Fin 34) dpr
      in Option.bind (emissionFrom (Fin 0) (Fin 0)) (\<lambda>pts.
         let maxR = fst (snd (hd pts))
         in Some (map (emissionPoint w h pad maxR) pts,
                  numSub (numSub h pad) (numMul (numDiv emTail maxR) (numSub h (numMul pad (lit (3 / 2))))))))"

section \<open>Rings\<close>

lemma ringLoop_skip:
  assumes "\<forall>i < m. pick n (rnd (j + i)) \<in> set ring" and "added < limit"
  shows "ringLoop rnd n limit j added ring = ringLoop rnd n limit (j + m) added ring"
  using assms(1)
proof (induction m)
  case (Suc m)
  have "ringLoop rnd n limit (j + m) added ring = ringLoop rnd n limit (Suc (j + m)) added ring"
    using Suc.prems assms(2) by (subst ringLoop.simps) (simp add: Let_def)
  then show ?case using Suc by simp
qed simp

lemma ringLoop_fills:
  assumes fair: "\<forall>k j. 0 \<le> k \<and> k < int n \<longrightarrow> (\<exists>i. pick n (rnd (j + i)) = k)"
    and range: "\<forall>j. 0 \<le> pick n (rnd j) \<and> pick n (rnd j) < int n"
    and ring: "distinct ring" "set ring \<subseteq> {0..<int n}" "int (length ring) = added + 1" "added \<le> limit" "limit \<le> int n - 1"
  shows "\<exists>ring'. ringLoop rnd n limit j added ring = Some ring' \<and> distinct ring' \<and> int (length ring') = limit + 1
    \<and> set ring \<subseteq> set ring' \<and> set ring' \<subseteq> {0..<int n}"
  using ring
proof (induction "nat (limit - added)" arbitrary: added ring j)
  case 0
  then show ?case by (subst ringLoop.simps) auto
next
  case (Suc d)
  have "set ring \<noteq> {0..<int n}"
    using Suc.prems(1,3-5) Suc.hyps(2) distinct_card [of ring] by (auto dest: arg_cong [of _ _ card])
  then have "\<not> {0..<int n} \<subseteq> set ring" using Suc.prems(2) by blast
  then obtain k where k: "0 \<le> k" "k < int n" "k \<notin> set ring" by (meson atLeastLessThan_iff subsetI)
  then obtain i where "pick n (rnd (j + i)) \<notin> set ring" using fair by metis
  then obtain m where m: "pick n (rnd (j + m)) \<notin> set ring" "\<forall>i < m. pick n (rnd (j + i)) \<in> set ring"
    using exists_least_iff [of "\<lambda>i. pick n (rnd (j + i)) \<notin> set ring"] by blast
  let ?k = "pick n (rnd (j + m))"
  have lt: "added < limit" using Suc.hyps(2) by simp
  have "ringLoop rnd n limit j added ring = ringLoop rnd n limit (Suc (j + m)) (added + 1) (ring @ [?k])"
    using ringLoop_skip [OF m(2) lt] m(1) lt by (subst (asm) (2) ringLoop.simps) (simp add: Let_def)
  moreover have "\<exists>ring'. ringLoop rnd n limit (Suc (j + m)) (added + 1) (ring @ [?k]) = Some ring' \<and> distinct ring'
      \<and> int (length ring') = limit + 1 \<and> set (ring @ [?k]) \<subseteq> set ring' \<and> set ring' \<subseteq> {0..<int n}"
    using Suc.hyps(2) Suc.prems m(1) range lt by (intro Suc.hyps(1)) auto
  ultimately show ?case by auto
qed

section \<open>Emission\<close>

definition emPoint :: "jsnum \<times> jsnum \<times> jsnum \<Rightarrow> bool" where
  "emPoint p \<longleftrightarrow> (\<exists>b r e. p = (Fin b, Fin r, Fin e) \<and> 0 \<le> b \<and> b \<le> 4500000 \<and> doubleOf (6 / 10) \<le> r \<and> r \<le> 18400000 / 2 ^ 19 \<and> 0 \<le> e \<and> e \<le> 18400000)"

lemma isDouble_numeral: "isDouble 18400000" "isDouble 675000" "isDouble 20000000" "isDouble 1"
  using isDouble_of_int [of 18400000] isDouble_of_int [of 675000] isDouble_of_int [of 20000000] isDouble_of_int [of 1] by simp_all

lemma isDouble_maxReward: "isDouble (18400000 / 2 ^ 19)"
  unfolding isDouble_def by (rule exI [of _ 18400000], rule exI [of _ "- 19"]) (simp add: power_int_minus inverse_eq_divide)

lemma toDouble_bounded:
  assumes "0 \<le> x" and "x \<le> y" and "isDouble y" and "y \<le> 2 ^ 1000"
  shows "toDouble x = Fin (doubleOf x)" and "0 \<le> doubleOf x" and "doubleOf x \<le> y"
proof -
  show "0 \<le> doubleOf x" "doubleOf x \<le> y" using assms doubleOf_nonneg doubleOf_le by auto
  then have "\<bar>doubleOf x\<bar> \<le> 2 ^ 1000" using assms(4) by simp
  also have "(2 ^ 1000 :: rat) < 2 ^ 1024" by simp
  finally show "toDouble x = Fin (doubleOf x)" by (simp add: toDouble_def)
qed

lemma emTail_Fin: "emTail = Fin (doubleOf (6 / 10))" "doubleOf (6 / 10) \<le> 1"
  using toDouble_bounded [of "6 / 10" 1] isDouble_numeral(4) by (simp_all add: emTail_def lit_def)

lemma emStep_Fin: "emStep = Fin 18750"
  using toDouble_of_int [of 18750] by (simp add: emStep_def emBlocks_def)

lemma emReward_eq:
  assumes "0 \<le> q" and "q \<le> 18400000"
  shows "emReward (Fin q) = Fin (max (doubleOf (doubleOf (18400000 - q) / 2 ^ 19)) (doubleOf (6 / 10)))"
    and "doubleOf (doubleOf (18400000 - q) / 2 ^ 19) \<le> 18400000 / 2 ^ 19"
proof -
  let ?m = "doubleOf (18400000 - q)"
  have m: "numSub emCap (Fin q) = Fin ?m" "0 \<le> ?m" "?m \<le> 18400000"
    using toDouble_bounded [of "18400000 - q" 18400000] assms isDouble_numeral(1) by (simp_all add: numSub_def emCap_def)
  let ?r = "doubleOf (?m / 2 ^ 19)"
  have r: "numDiv (Fin ?m) (Fin (2 ^ 19)) = Fin ?r" "?r \<le> 18400000 / 2 ^ 19"
    using toDouble_bounded [of "?m / 2 ^ 19" "18400000 / 2 ^ 19"] m(2,3) isDouble_maxReward by (simp_all add: divide_right_mono)
  show "?r \<le> 18400000 / 2 ^ 19" by (rule r(2))
  have "emReward (Fin q) = (if ?r < doubleOf (6 / 10) then Fin (doubleOf (6 / 10)) else Fin ?r)"
    by (simp only: emReward_def Let_def m(1) r(1) emTail_Fin(1) numLess.simps)
  then show "emReward (Fin q) = Fin (max ?r (doubleOf (6 / 10)))" by (cases "?r < doubleOf (6 / 10)") (simp_all only: if_True if_False max_absorb2 max_absorb1 less_imp_le not_less)
qed

lemma emReward_bounds:
  assumes "0 \<le> q" and "q \<le> 18400000"
  obtains r where "emReward (Fin q) = Fin r" "doubleOf (6 / 10) \<le> r" "r \<le> 18400000 / 2 ^ 19"
proof -
  have "doubleOf (6 / 10) \<le> 18400000 / 2 ^ 19" by (rule order_trans [OF emTail_Fin(2)]) simp
  then show thesis using that [OF emReward_eq(1) [OF assms]] emReward_eq(2) [OF assms] by simp
qed

lemma emAdvance_eq:
  assumes "0 \<le> q" and "q \<le> 18400000" and r: "emReward (Fin q) = Fin r"
  shows "emAdvance (Fin q) = Fin (min 18400000 (doubleOf (q + doubleOf (r * 18750))))"
    and "0 \<le> doubleOf (r * 18750)" and "doubleOf (r * 18750) \<le> 675000"
proof -
  obtain r' where "emReward (Fin q) = Fin r'" "doubleOf (6 / 10) \<le> r'" "r' \<le> 18400000 / 2 ^ 19" by (rule emReward_bounds [OF assms(1,2)])
  then have r': "0 \<le> r" "r \<le> 18400000 / 2 ^ 19" using r doubleOf_nonneg [of "6 / 10"] by simp_all
  let ?a = "doubleOf (r * 18750)"
  have a: "numMul (Fin r) (Fin 18750) = Fin ?a" "0 \<le> ?a" "?a \<le> 675000"
    using toDouble_bounded [of "r * 18750" 675000] r' isDouble_numeral(2) by simp_all
  show "0 \<le> ?a" "?a \<le> 675000" by (rule a)+
  let ?s = "doubleOf (q + ?a)"
  have s: "numAdd (Fin q) (Fin ?a) = Fin ?s" using toDouble_bounded [of "q + ?a" 20000000] a(2,3) assms(1,2) isDouble_numeral(3) by simp
  then show "emAdvance (Fin q) = Fin (min 18400000 ?s)"
    using a(1) r by (cases "18400000 < ?s") (simp_all add: emAdvance_def Let_def emStep_Fin emCap_def)
qed

lemma emAdvance_bounds:
  assumes "0 \<le> q" and "q \<le> 18400000" and "isDouble q"
  obtains q' where "emAdvance (Fin q) = Fin q'" "q \<le> q'" "q' \<le> 18400000" "isDouble q'"
proof -
  obtain r where r: "emReward (Fin q) = Fin r" by (rule emReward_bounds [OF assms(1,2)])
  let ?s = "doubleOf (q + doubleOf (r * 18750))"
  note e = emAdvance_eq [OF assms(1,2) r]
  have "q \<le> ?s" by (rule doubleOf_ge [OF assms(3) _ assms(1)]) (use e(2) in simp)
  then show thesis
    using that [OF e(1)] assms(2) isDouble_numeral(1) isDouble_doubleOf [of "q + doubleOf (r * 18750)"] by (simp add: min_def)
qed

text \<open>How fast the curve rises: by a twenty-eighth of what is left (less one for the rounding), and by at least 11249. So it
  is at the cap from point 143 on.\<close>

lemma doubleOf_near: "0 \<le> x \<Longrightarrow> x < 2 ^ 25 \<Longrightarrow> \<bar>doubleOf x - x\<bar> \<le> 1 / 2 ^ 29"
  using doubleOf_close [of x 25] by (simp add: power_int_minus inverse_eq_divide)

lemma emAdvance_progress:
  assumes "0 \<le> q" and "q \<le> 18400000" and q': "emAdvance (Fin q) = Fin q'"
  shows "q' = 18400000 \<or> q + (18400000 - q) / 28 - 1 \<le> q' \<and> q + 11249 \<le> q'"
proof -
  let ?m = "doubleOf (18400000 - q)"
  define r where "r = max (doubleOf (?m / 2 ^ 19)) (doubleOf (6 / 10))"
  have r: "emReward (Fin q) = Fin r" unfolding r_def by (rule emReward_eq(1) [OF assms(1,2)])
  note e = emAdvance_eq [OF assms(1,2) r]
  define a where "a = doubleOf (r * 18750)"
  define x where "x = doubleOf (q + a)"
  have m: "\<bar>?m - (18400000 - q)\<bar> \<le> 1 / 2 ^ 29" "0 \<le> ?m" "?m \<le> 18400000"
    using doubleOf_near [of "18400000 - q"] toDouble_bounded(2,3) [of "18400000 - q" 18400000] assms(1,2) isDouble_numeral(1) by simp_all
  have "\<bar>doubleOf (?m / 2 ^ 19) - ?m / 2 ^ 19\<bar> \<le> 1 / 2 ^ 29" using m by (intro doubleOf_near) simp_all
  moreover have "doubleOf (?m / 2 ^ 19) \<le> r" by (simp add: r_def)
  ultimately have "?m / 2 ^ 19 - 1 / 2 ^ 29 \<le> r" by linarith
  moreover have "18400000 - q - 1 / 2 ^ 29 \<le> ?m" using m(1) by linarith
  then have "(18400000 - q - 1 / 2 ^ 29) / 2 ^ 19 \<le> ?m / 2 ^ 19" by (rule divide_right_mono) simp
  moreover have "(18400000 - q) / 2 ^ 19 - 1 / 2 ^ 28 \<le> (18400000 - q - 1 / 2 ^ 29) / 2 ^ 19 - 1 / 2 ^ 29" by (simp add: diff_divide_distrib)
  ultimately have r1: "(18400000 - q) / 2 ^ 19 - 1 / 2 ^ 28 \<le> r" by linarith
  have "\<bar>doubleOf (6 / 10) - 6 / 10\<bar> \<le> 1 / 2 ^ 29" by (rule doubleOf_near) simp_all
  moreover have "doubleOf (6 / 10) \<le> r" by (simp add: r_def)
  ultimately have r2: "6 / 10 - 1 / 2 ^ 29 \<le> r" by linarith
  have "r \<le> 18400000 / 2 ^ 19" using emReward_eq(2) [OF assms(1,2)] order_trans [OF emTail_Fin(2), of "18400000 / 2 ^ 19"] by (simp add: r_def)
  then have "\<bar>a - r * 18750\<bar> \<le> 1 / 2 ^ 29" unfolding a_def using r2 by (intro doubleOf_near) (simp_all add: field_simps)
  moreover have "\<bar>x - (q + a)\<bar> \<le> 1 / 2 ^ 29" unfolding x_def using e(2,3) assms(1,2) by (intro doubleOf_near) (simp_all add: a_def)
  moreover have "1 / 2 ^ 28 = (1 / 2 ^ 29 + 1 / 2 ^ 29 :: rat)" by simp
  ultimately have "q + r * 18750 - 1 / 2 ^ 28 \<le> x" by linarith
  then have "q + (18400000 - q) / 28 - 1 \<le> x \<and> q + 11249 \<le> x" using r1 r2 assms(1,2) by (simp add: field_simps)
  moreover have "q' = min 18400000 x" using q' e(1) by (simp add: a_def x_def)
  ultimately show ?thesis by (auto simp: min_def)
qed

lemma emAdvance_rises:
  "\<exists>q. (emAdvance ^^ i) (Fin 0) = Fin q \<and> 0 \<le> q \<and> q \<le> 18400000 \<and> isDouble q
     \<and> 18400000 - q \<le> 18400000 * (27 / 28) ^ i + 28 \<and> 18400000 - q \<le> max 0 (250000 - 11249 * (of_nat i - 120)) + (if i < 120 then 18400000 else 0)"
proof (induction i)
  case 0
  then show ?case using isDouble_of_int [of 0] by simp
next
  case (Suc i)
  then obtain q where q: "(emAdvance ^^ i) (Fin 0) = Fin q" "0 \<le> q" "q \<le> 18400000" "isDouble q"
    "18400000 - q \<le> 18400000 * (27 / 28) ^ i + 28" "18400000 - q \<le> max 0 (250000 - 11249 * (of_nat i - 120)) + (if i < 120 then 18400000 else 0)" by blast
  obtain q' where q': "emAdvance (Fin q) = Fin q'" "q \<le> q'" "q' \<le> 18400000" "isDouble q'" by (rule emAdvance_bounds [OF q(2-4)])
  have p: "q' = 18400000 \<or> q + (18400000 - q) / 28 - 1 \<le> q' \<and> q + 11249 \<le> q'" by (rule emAdvance_progress [OF q(2,3) q'(1)])
  have c: "18400000 - q' \<le> 18400000 * (27 / 28) ^ Suc i + 28"
  proof -
    let ?c = "(27 / 28 :: rat) ^ i"
    have "18400000 - q' \<le> 27 / 28 * (18400000 - q) + 1 \<or> q' = 18400000" using p by (auto simp: field_simps)
    moreover have "27 / 28 * (18400000 - q) + 1 \<le> 27 / 28 * (18400000 * ?c + 28) + 1" using q(5) by simp
    moreover have "27 / 28 * (18400000 * ?c + 28) + 1 = 18400000 * (27 / 28) ^ Suc i + 28" by simp
    moreover have "0 \<le> (27 / 28 :: rat) ^ Suc i" by simp
    ultimately show ?thesis by linarith
  qed
  moreover have "18400000 - q' \<le> max 0 (250000 - 11249 * (of_nat (Suc i) - 120)) + (if Suc i < 120 then 18400000 else 0)"
  proof (cases "i < 120")
    case True
    show ?thesis
    proof (cases "Suc i = 120")
      case e: True
      have "(27 / 28 :: rat) ^ 120 \<le> 13 / 1000" by (simp add: power_divide)
      then show ?thesis using c unfolding e by simp
    next
      case False
      then show ?thesis using True q(2) q'(2) by simp
    qed
  next
    case False
    then show ?thesis using p q(6) by (auto simp: max_def algebra_simps split: if_splits)
  qed
  ultimately show ?case using q q' by (intro exI [of _ q']) simp
qed

lemma emission_at_cap:
  assumes "143 \<le> i"
  shows "(emAdvance ^^ i) (Fin 0) = Fin 18400000" and "emReward ((emAdvance ^^ i) (Fin 0)) = emTail"
proof -
  obtain q where q: "(emAdvance ^^ i) (Fin 0) = Fin q" "q \<le> 18400000"
    "18400000 - q \<le> max 0 (250000 - 11249 * (of_nat i - 120)) + (if i < 120 then 18400000 else 0)"
    using emAdvance_rises by blast
  have "(143 :: rat) \<le> of_nat i" using assms by (metis of_nat_le_iff of_nat_numeral)
  then have "q = 18400000" using q(2,3) assms by (simp add: max_def split: if_splits)
  then show *: "(emAdvance ^^ i) (Fin 0) = Fin 18400000" using q(1) by simp
  have "doubleOf 0 = 0" by (simp add: doubleOf_def)
  then show "emReward ((emAdvance ^^ i) (Fin 0)) = emTail"
    using emReward_eq(1) [of 18400000] doubleOf_nonneg [of "6 / 10"] by (simp add: * emTail_Fin(1) max_def)
qed

lemma emissionFrom_nth:
  "emissionFrom b e = Some pts \<Longrightarrow> i < length pts \<Longrightarrow> snd (pts ! i) = (emReward ((emAdvance ^^ i) e), (emAdvance ^^ i) e)"
proof (induction i arbitrary: b e pts)
  case 0
  then show ?case by (subst (asm) emissionFrom.simps) (auto simp: bind_eq_Some_conv split: if_splits)
next
  case (Suc i)
  then obtain ps where "pts = (b, emReward e, e) # ps" "emissionFrom (numAdd b emStep) (emAdvance e) = Some ps"
    by (subst (asm) (2) emissionFrom.simps) (auto simp: bind_eq_Some_conv split: if_splits)
  then show ?case using Suc.IH [of _ "emAdvance e" ps] Suc.prems(2) by (simp add: funpow_swap1)
qed

lemma emissionFrom_bounds:
  assumes "k \<le> 241" and "0 \<le> q" "q \<le> 18400000" "isDouble q"
  shows "\<exists>pts. emissionFrom (Fin (of_nat (18750 * (241 - k)))) (Fin q) = Some pts \<and> length pts = k \<and> list_all emPoint pts
    \<and> sorted_wrt (\<lambda>(_, _, e) (_, _, e'). e = e' \<or> numLess e e') pts \<and> (\<forall>(b, r, e) \<in> set pts. e = Fin q \<or> numLess (Fin q) e)"
  using assms
proof (induction k arbitrary: q)
  case 0
  then show ?case by (subst emissionFrom.simps) (simp add: emBlocks_def)
next
  case (Suc k)
  let ?i = "241 - Suc k"
  have i: "18750 * ?i \<le> 4500000" using Suc.prems(1) by simp
  have bb: "of_nat (18750 * ?i) \<le> (4500000 :: rat)" using i by (metis of_nat_le_iff of_nat_numeral)
  have b: "Fin (of_nat (18750 * ?i)) = emBlocks \<or> numLess (Fin (of_nat (18750 * ?i))) emBlocks"
    using bb by (auto simp: emBlocks_def)
  have "numAdd (Fin (of_nat (18750 * ?i))) emStep = toDouble (of_int (int (18750 * Suc ?i)))" by (simp add: emStep_Fin algebra_simps)
  also have "\<dots> = Fin (of_nat (18750 * Suc ?i))" using i by (subst toDouble_of_int) auto
  also have "Suc ?i = 241 - k" using Suc.prems(1) by simp
  finally have nb: "numAdd (Fin (of_nat (18750 * ?i))) emStep = Fin (of_nat (18750 * (241 - k)))" .
  obtain q' where q': "emAdvance (Fin q) = Fin q'" "q \<le> q'" "q' \<le> 18400000" "isDouble q'" by (rule emAdvance_bounds [OF Suc.prems(2-4)])
  obtain r where r: "emReward (Fin q) = Fin r" "doubleOf (6 / 10) \<le> r" "r \<le> 18400000 / 2 ^ 19" by (rule emReward_bounds [OF Suc.prems(2,3)])
  have "0 \<le> q'" using q'(2) Suc.prems(2) by simp
  then obtain pts where pts: "emissionFrom (Fin (of_nat (18750 * (241 - k)))) (Fin q') = Some pts" "length pts = k" "list_all emPoint pts"
    "sorted_wrt (\<lambda>(_, _, e) (_, _, e'). e = e' \<or> numLess e e') pts" "\<forall>(b, r, e) \<in> set pts. e = Fin q' \<or> numLess (Fin q') e"
    using Suc.IH [of q'] Suc.prems(1) q' by auto
  have run: "emissionFrom (Fin (of_nat (18750 * ?i))) (Fin q) = Some ((Fin (of_nat (18750 * ?i)), Fin r, Fin q) # pts)"
    using b nb q'(1) r(1) pts(1) by (subst emissionFrom.simps) simp
  have later: "\<forall>(b, r, e) \<in> set pts. e = Fin q \<or> numLess (Fin q) e"
  proof clarify
    fix b r e assume p: "(b, r, e) \<in> set pts" "\<not> numLess (Fin q) e"
    then have "emPoint (b, r, e)" using pts(3) by (auto simp: list_all_iff)
    then obtain x where "e = Fin x" by (auto simp: emPoint_def)
    then show "e = Fin q" using pts(5) p q'(2) by auto
  qed
  have "emPoint (Fin (of_nat (18750 * ?i)), Fin r, Fin q)" using r bb Suc.prems by (auto simp: emPoint_def simp del: of_nat_mult)
  then show ?case using run pts(2-4) later by (intro exI) (auto simp del: of_nat_mult)
qed

section \<open>Correctness\<close>

lemma isDouble_half: "n \<le> 2 ^ 52 \<Longrightarrow> isDouble (of_nat n / 2)"
  unfolding isDouble_def by (rule exI [of _ "int n"], rule exI [of _ "- 1"]) (simp add: power_int_minus)

lemma build_realIdx:
  assumes "1 \<le> n" and "n \<le> 2 ^ 52"
  shows "an_realIdx (build msqrt rnd w h n s) = Fin (of_int (min (int n div 2 + 3) (int n - 1)))"
proof -
  let ?q = "int n div 2"
  have c: "rat_of_nat n \<le> of_nat (2 ^ 52)" using assms(2) by (simp only: of_nat_le_iff)
  have "toDouble (of_nat n / 2) = Fin (of_nat n / 2)"
    using doubleOf_exact [OF isDouble_half [OF assms(2)]] c by (simp add: toDouble_def)
  moreover have "\<lfloor>rat_of_nat n / 2\<rfloor> = ?q" using floor_divide_of_int_eq [of "int n" 2, where ?'a = rat] by simp
  ultimately have f: "numFloor (toDouble (of_nat n / 2)) = Fin (of_int ?q)" by (simp add: numFloor_def)
  have a: "toDouble (of_int ?q + 3) = Fin (of_int (?q + 3))"
    using toDouble_of_int [of "?q + 3"] assms by auto
  have b: "numSub (Fin (of_nat n)) (Fin 1) = Fin (of_int (int n - 1))" using numSub_int [of "int n" 1] assms by auto
  have "numLess (Fin (of_int (?q + 3))) (Fin (of_nat n)) \<longleftrightarrow> ?q + 3 < int n"
    using of_int_less_iff [of "?q + 3" "int n", where ?'a = rat] by simp
  then show ?thesis using assms by (simp add: build_def Let_def f a b min_def)
qed

text \<open>If the random indices lie in range and every index turns up again and again, the loop that draws decoys
  ends, and the ring has sixteen different members (all of them when there are fewer), the real output among them.\<close>

lemma ring_of_sixteen:
  assumes "1 \<le> n" and "n \<le> 2 ^ 52" and "\<forall>j. 0 \<le> pick n (rnd j) \<and> pick n (rnd j) < int n"
    and "\<forall>k j. 0 \<le> k \<and> k < int n \<longrightarrow> (\<exists>i. pick n (rnd (j + i)) = k)"
  shows "\<exists>real ring. an_realIdx (build msqrt phases w h n s) = Fin (of_int real) \<and> ringSet rnd n real = Some ring
    \<and> distinct ring \<and> length ring = min 16 n \<and> real \<in> set ring \<and> set ring \<subseteq> {0..<int n}"
proof -
  define real where "real = min (int n div 2 + 3) (int n - 1)"
  have r: "0 \<le> real" "real < int n" using assms(1) by (auto simp: real_def)
  have "\<exists>ring'. ringLoop rnd n (min 15 (int n - 1)) 0 0 [real] = Some ring' \<and> distinct ring' \<and> int (length ring') = min 15 (int n - 1) + 1
      \<and> set [real] \<subseteq> set ring' \<and> set ring' \<subseteq> {0..<int n}"
    using r assms(1) by (intro ringLoop_fills assms(3,4)) auto
  then obtain ring where "ringSet rnd n real = Some ring" "distinct ring" "int (length ring) = min 15 (int n - 1) + 1" "real \<in> set ring" "set ring \<subseteq> {0..<int n}"
    by (auto simp: ringSet_def)
  moreover from this(3) have "length ring = min 16 n" by linarith
  ultimately show ?thesis using build_realIdx [OF assms(1,2)] by (intro exI [of _ real] exI [of _ ring]) (simp add: real_def)
qed

text \<open>Random numbers that reach every index: here by turns.\<close>

definition turns :: "nat \<Rightarrow> rat" where
  "turns j = of_nat (j mod 32) / 32"

lemma turns_pick: "pick 32 (turns j) = int (j mod 32)"
proof -
  have "\<bar>int (j mod 32)\<bar> \<le> 2 ^ 53" by (simp add: mod_less_divisor less_imp_le order_trans [of _ 32])
  then have "doubleOf (of_int (int (j mod 32))) = of_int (int (j mod 32))" by (rule doubleOf_of_int)
  then show ?thesis by (simp add: pick_def turns_def)
qed

lemma turns_fair: "0 \<le> k \<Longrightarrow> k < 32 \<Longrightarrow> \<exists>i. int ((j + i) mod 32) = k"
proof -
  assume k: "0 \<le> k" "k < 32"
  have "(j + (nat k + 31 * j)) mod 32 = (nat k + 32 * j) mod 32" by (simp add: algebra_simps)
  then have "int ((j + (nat k + 31 * j)) mod 32) = k" using k by simp
  then show ?thesis by blast
qed

text \<open>\<^bold>\<open>C37.\<close> The emission curve as the page computes it: the loop ends with 241 points, rounding included. At each of them the reward lies between the tail
  and the first reward, the amount emitted is at least 0 and at most the cap of 18.4 million, and it never falls from one point to the next. From
  point 143 on, some ten of the seventeen years, the amount is exactly the cap although each point still has the tail of 0.6 as its
  reward. The schedule of the chain is another one: there the cap is soft, and the perpetual tail carries the supply past it.\<close>

theorem emission_bounds:
  "\<exists>pts. emissionFrom (Fin 0) (Fin 0) = Some pts \<and> length pts = 241 \<and> list_all emPoint pts
    \<and> sorted_wrt (\<lambda>(_, _, e) (_, _, e'). e = e' \<or> numLess e e') pts
    \<and> list_all (\<lambda>(_, r, e). r = emTail \<and> e = Fin 18400000) (drop 143 pts)"
proof -
  obtain pts where pts: "emissionFrom (Fin 0) (Fin 0) = Some pts" "length pts = 241" "list_all emPoint pts"
    "sorted_wrt (\<lambda>(_, _, e) (_, _, e'). e = e' \<or> numLess e e') pts"
    using emissionFrom_bounds [of 241 0] isDouble_of_int [of 0] by auto
  have "case drop 143 pts ! i of (_, r, e) \<Rightarrow> r = emTail \<and> e = Fin 18400000" if "i < length (drop 143 pts)" for i
    using that emissionFrom_nth [OF pts(1), of "143 + i"] emission_at_cap [of "143 + i"] pts(2) by (cases "pts ! (143 + i)") simp
  then show ?thesis using pts by (simp add: list_all_length)
qed

end
