(* ===== verification/Site_Scenes.thy ===== *)
theory Site_Scenes
  imports Site_Canvas Site_Widgets
begin

text \<open>
  The canvases of the public site that move (\<^verbatim>\<open>website/assets/app.js\<close>): the particle field of the hero, the picture of the
  anonymity set with its dissolving output, and the emission curve, as commands for the canvas. Random numbers and the functions of
  \<^verbatim>\<open>Math\<close> are arguments. The last lemma follows the ring of decoys from the slider to the circles painted.
\<close>

section \<open>The hero\<close>

record Particle =
  pt_x :: jsnum
  pt_y :: jsnum
  pt_vx :: jsnum
  pt_vy :: jsnum
  pt_r :: jsnum

text \<open>The size of a canvas from its layout, kept by the scripts before the canvas cuts it to whole pixels.\<close>

definition sceneSize :: "jsnum \<Rightarrow> jsnum \<Rightarrow> jsnum \<Rightarrow> Screen" where
  "sceneSize width height dpr = \<lparr>scW = width * dpr, scH = height * dpr, scD = dpr\<rparr>"

definition heroInit :: "(nat \<Rightarrow> jsnum) \<Rightarrow> Screen \<Rightarrow> Particle list" where
  "heroInit rnd s = map (\<lambda>i.
     \<lparr>pt_x = rnd (5 * i) * scW s, pt_y = rnd (5 * i + 1) * scH s,
      pt_vx = (rnd (5 * i + 2) - dec (1 / 2)) * dec (1 / 4) * scD s, pt_vy = (rnd (5 * i + 3) - dec (1 / 2)) * dec (1 / 4) * scD s,
      pt_r = (rnd (5 * i + 4) * dec (16 / 10) + dec (6 / 10)) * scD s\<rparr>) [0..<130]"

definition heroMove :: "Screen \<Rightarrow> Particle \<Rightarrow> Particle" where
  "heroMove s p =
     (let p = p\<lparr>pt_x := pt_x p + pt_vx p, pt_y := pt_y p + pt_vy p\<rparr>;
          p = (if pt_x p < num 0 \<or> scW s < pt_x p then p\<lparr>pt_vx := pt_vx p * Fin (- 1)\<rparr> else p)
      in if pt_y p < num 0 \<or> scH s < pt_y p then p\<lparr>pt_vy := pt_vy p * Fin (- 1)\<rparr> else p)"

text \<open>Particle \<open>i\<close> has moved when its lines to the particles behind it are drawn; those have not.\<close>

definition heroLines :: "Maths \<Rightarrow> Screen \<Rightarrow> Particle \<Rightarrow> Particle list \<Rightarrow> ctxCmd list" where
  "heroLines m s p qs = concat (map (\<lambda>q.
     let dx = pt_x p - pt_x q; dy = pt_y p - pt_y q; d = ma_hypot m dx dy; mx = num 130 * scD s
     in if d < mx
        then [CStrokeStyle (rgba ''139,108,255'' ((num 1 - d / mx) * dec (18 / 100))), CLineWidth (scD s),
              CBegin, CMove (pt_x p) (pt_y p), CLine (pt_x q) (pt_y q), CStroke]
        else []) qs)"

definition heroFrame :: "Maths \<Rightarrow> Screen \<Rightarrow> Particle list \<Rightarrow> ctxCmd list \<times> Particle list" where
  "heroFrame m s pts =
     (let moved = map (heroMove s) pts
      in ([CClear (scW s) (scH s)]
          @ concat (map (\<lambda>i. heroLines m s (moved ! i) (drop (Suc i) pts)) [0..<length pts])
          @ concat (map (\<lambda>p. [CFillStyle (js ''rgba(0,230,195,0.7)''), CBegin, CArc (pt_x p) (pt_y p) (pt_r p) (num 0) (num 7), CFill]) moved),
          moved))"

section \<open>The anonymity set\<close>

record Spark =
  sp_x :: jsnum
  sp_y :: jsnum
  sp_vx :: jsnum
  sp_vy :: jsnum
  sp_life :: jsnum

record Scene =
  as_anon :: Anon
  as_t0 :: jsnum
  as_sparks :: "Spark list"

definition nodeAt :: "'a list \<Rightarrow> jsnum \<Rightarrow> 'a option" where
  "nodeAt nodes i = (case i of Fin q \<Rightarrow> if 0 \<le> q \<and> q = of_int \<lfloor>q\<rfloor> \<and> \<lfloor>q\<rfloor> < int (length nodes) then Some (nodes ! nat \<lfloor>q\<rfloor>) else None | _ \<Rightarrow> None)"

text \<open>The members of the ring in ring mode; \<open>None\<close> when the search for them does not end.\<close>

definition ringOf :: "(nat \<Rightarrow> rat) \<Rightarrow> Anon \<Rightarrow> int list option" where
  "ringOf rnd a = (if an_ringMode a then case an_realIdx a of Fin q \<Rightarrow> ringSet rnd (length (an_nodes a)) \<lfloor>q\<rfloor> | _ \<Rightarrow> None else Some [])"

definition outputLook :: "Maths \<Rightarrow> Screen \<Rightarrow> jsnum \<Rightarrow> bool \<Rightarrow> jsnum \<Rightarrow> jstr \<times> jsnum" where
  "outputLook m s ts inSet ph =
     (let pulse = dec (1 / 2) + dec (1 / 2) * ma_sin m (ts / num 600 + ph)
      in if \<not> inSet then (js ''rgba(120,124,150,0.18)'', dec (32 / 10) * scD s)
         else (rgba ''0,230,195'' (dec (45 / 100) + pulse * dec (4 / 10)), (dec (34 / 10) + pulse * dec (12 / 10)) * scD s))"

definition paintOutputs :: "Maths \<Rightarrow> Screen \<Rightarrow> jsnum \<Rightarrow> Anon \<Rightarrow> int list \<Rightarrow> ctxCmd list" where
  "paintOutputs m s ts a members = concat (map (\<lambda>i.
     let (x, y, ph) = an_nodes a ! i; (color, R) = outputLook m s ts (\<not> an_ringMode a \<or> int i \<in> set members) ph
     in [CFillStyle color, CBegin, CArc x y R (num 0) (num 7), CFill]) [0..<length (an_nodes a)])"

definition sparkMove :: "Spark \<Rightarrow> Spark" where
  "sparkMove p = p\<lparr>sp_x := sp_x p + sp_vx p, sp_y := sp_y p + sp_vy p, sp_life := sp_life p - dec (2 / 100)\<rparr>"

definition sparkPaint :: "Screen \<Rightarrow> Spark \<Rightarrow> ctxCmd list" where
  "sparkPaint s p =
     (if num 0 < sp_life p
      then [CFillStyle (rgba ''0,230,195'' (sp_life p)), CBegin, CArc (sp_x p) (sp_y p) (num 2 * scD s) (num 0) (num 7), CFill] else [])"

definition dissolve :: "Screen \<Rightarrow> jsnum \<Rightarrow> jsnum \<Rightarrow> jsnum \<Rightarrow> Spark list \<Rightarrow> ctxCmd list" where
  "dissolve s elapsed x y moved =
     (let rr = elapsed * numMax (scW s) (scH s) * dec (6 / 10); fade = numMax (num 0) (num 1 - elapsed / dec (9 / 10))
      in [CStrokeStyle (rgba ''139,108,255'' (numMax (num 0) (dec (9 / 10) - elapsed / dec (18 / 10)))), CLineWidth (num 2 * scD s),
          CBegin, CArc x y rr (num 0) (num 7), CStroke]
         @ (if num 0 < fade
            then [CFillStyle (rgba ''139,108,255'' fade), CBegin, CArc x y ((num 5 + fade * num 6) * scD s) (num 0) (num 7), CFill] else [])
         @ concat (map (sparkPaint s) moved))"

definition anonFrame :: "Maths \<Rightarrow> (nat \<Rightarrow> rat) \<Rightarrow> Screen \<Rightarrow> jsnum \<Rightarrow> Scene \<Rightarrow> (ctxCmd list \<times> Scene) option" where
  "anonFrame m rnd s ts sc =
     (let a = as_anon sc; elapsed = (ts - as_t0 sc) / num 1000
      in map_option (\<lambda>members.
           let cmds = CClear (scW s) (scH s) # paintOutputs m s ts a members
           in case nodeAt (an_nodes a) (an_realIdx a) of
                Some (x, y, ph) \<Rightarrow>
                  if num 0 \<le> elapsed \<and> elapsed < dec (18 / 10)
                  then let moved = map sparkMove (as_sparks sc) in (cmds @ dissolve s elapsed x y moved, sc\<lparr>as_sparks := moved\<rparr>)
                  else (cmds, sc)
              | None \<Rightarrow> (cmds, sc)) (ringOf rnd a))"

definition spend :: "Maths \<Rightarrow> (nat \<Rightarrow> jsnum) \<Rightarrow> Screen \<Rightarrow> jsnum \<Rightarrow> Scene \<Rightarrow> Scene" where
  "spend m rnd s clock sc =
     sc\<lparr>as_t0 := clock,
        as_sparks := (case nodeAt (an_nodes (as_anon sc)) (an_realIdx (as_anon sc)) of
            Some (x, y, ph) \<Rightarrow> map (\<lambda>i.
              let a = (num i / num 28) * mathPI * num 2; sp = (num 1 + rnd i * dec (24 / 10)) * scD s
              in \<lparr>sp_x = x, sp_y = y, sp_vx = ma_cos m a * sp, sp_vy = ma_sin m a * sp, sp_life = num 1\<rparr>) [0..<28]
          | None \<Rightarrow> [])\<rparr>"

section \<open>The emission curve\<close>

text \<open>This script reads the size back from the canvas, in whole pixels.\<close>

definition emissionSize :: "jsnum \<Rightarrow> jsnum \<Rightarrow> jsnum \<Rightarrow> Screen" where
  "emissionSize width height dpr = \<lparr>scW = numFloor (width * dpr), scH = numFloor (height * dpr), scD = dpr\<rparr>"

definition emissionPaint :: "Screen \<Rightarrow> ctxCmd list option" where
  "emissionPaint s =
     (let w = scW s; h = scH s; d = scD s; pad = num 34 * d
      in map_option (\<lambda>(pts, ty).
        [CClear w h, CStrokeStyle (js ''rgba(255,255,255,0.12)''), CLineWidth d,
         CBegin, CMove pad (pad / num 2), CLine pad (h - pad), CLine (w - pad / num 2) (h - pad), CStroke,
         CStrokeStyle (js ''#00e6c3''), CLineWidth (dec (24 / 10) * d), CBegin]
        @ map (\<lambda>i. case pts ! i of (x, y) \<Rightarrow> if i \<noteq> 0 then CLine x y else CMove x y) [0..<length pts]
        @ [CStroke, CStrokeStyle (js ''rgba(255,122,217,0.6)''), CDash [num 5 * d, num 5 * d],
           CBegin, CMove pad ty, CLine (w - pad / num 2) ty, CStroke, CDash [],
           CFillStyle (js ''#969cb6''), CFont (pxFont (num 11 * d) ''ui-monospace, monospace''),
           CText (js ''block reward'') (pad + num 6 * d) pad,
           CFillStyle (js ''rgba(255,122,217,0.9)''), CText (js ''tail: 0.6 OBX / block (forever)'') (pad + num 6 * d) (ty - num 6 * d),
           CFillStyle (js ''#6c7290''), CText (js ''time '' @ [0x2192]) (w - pad * dec (22 / 10)) (h - pad + num 18 * d)])
        (emissionCurve w h d))"

section \<open>Correctness\<close>

lemma scene_nn: "nn width \<Longrightarrow> nn dpr \<Longrightarrow> nn (scW (sceneSize width height dpr))" "scD (sceneSize width height dpr) = dpr"
  by (simp_all add: sceneSize_def sign_intros)

lemma outputs_ok:
  assumes "\<forall>x. notBelow (- 1) (ma_sin m x)" and "nn (scD s)"
  shows "list_all okCmd (paintOutputs m s ts a members)"
proof -
  have "nn (snd (outputLook m s ts b ph))" for b ph using assms by (auto simp: outputLook_def Let_def sign_intros)
  then show ?thesis by (auto simp: paintOutputs_def Let_def ok_simps split: prod.split) (metis snd_conv)
qed

lemma dissolve_ok:
  assumes "num 0 \<le> elapsed" and "nn (scW s)" and "nn (scD s)"
  shows "list_all okCmd (dissolve s elapsed x y moved)"
proof -
  have "nn elapsed" using assms(1) by (auto simp: js_ops notBelow_def num_def)
  moreover have "list_all okCmd (sparkPaint s p)" for p using assms(3) by (simp add: sparkPaint_def sign_intros)
  ultimately show ?thesis using assms(2,3) by (auto simp: dissolve_def Let_def ok_simps sign_intros)
qed

definition dimmed :: "ctxCmd \<Rightarrow> bool" where
  "dimmed cmd \<longleftrightarrow> cmd = CFillStyle (js ''rgba(120,124,150,0.18)'')"

lemma count_concat:
  assumes "\<forall>x \<in> set xs. length (filter P (f x)) = (if Q x then 1 else 0)"
  shows "length (filter P (concat (map f xs))) = length (filter Q xs)"
  using assms by (induction xs) auto

lemma dim_output: "rgba ''0,230,195'' a \<noteq> js ''rgba(120,124,150,0.18)''" "rgba ''139,108,255'' a \<noteq> js ''rgba(120,124,150,0.18)''"
  by (simp_all add: rgba_def js_def)

lemma outputs_dimmed:
  "length (filter dimmed (paintOutputs m s ts a members))
    = length (filter (\<lambda>i. an_ringMode a \<and> int i \<notin> set members) [0..<length (an_nodes a)])"
  unfolding paintOutputs_def
  by (rule count_concat) (auto simp: dimmed_def outputLook_def Let_def dim_output split: prod.split)

lemma dissolve_dimmed: "filter dimmed (dissolve s elapsed x y moved) = []"
  by (auto simp: dissolve_def Let_def dimmed_def dim_output dim_output [symmetric] sparkPaint_def filter_empty_conv split: if_splits)

lemma outside_count:
  assumes "distinct ring" and "set ring \<subseteq> {0..<int n}"
  shows "length (filter (\<lambda>i. int i \<notin> set ring) [0..<n]) = n - length ring"
proof -
  have "length (filter (\<lambda>i. int i \<notin> set ring) [0..<n]) = card (set (filter (\<lambda>i. int i \<notin> set ring) [0..<n]))"
    by (rule distinct_card [symmetric]) simp
  also have "set (filter (\<lambda>i. int i \<notin> set ring) [0..<n]) = {0..<n} - nat ` set ring"
    using assms(2) by (force simp: subset_iff)
  also have "card ({0..<n} - nat ` set ring) = n - card (nat ` set ring)"
    using assms(2) by (subst card_Diff_subset) (auto simp: subset_iff)
  also have "card (nat ` set ring) = card (set ring)"
    using assms(2) by (intro card_image inj_onI) (meson atLeastLessThan_iff eq_nat_nat_iff subsetD)
  finally show ?thesis using distinct_card [OF assms(1)] by simp
qed

lemma build_nodes: "length (an_nodes (build msqrt phases w h n a)) = n" "an_ringMode (build msqrt phases w h n a) = an_ringMode a"
  by (simp_all add: build_def Let_def)

text \<open>A frame paints its outputs and perhaps the dissolving one; it never throws, and only outputs outside the ring are dimmed.\<close>

lemma anonFrame_paints:
  assumes "\<forall>x. notBelow (- 1) (ma_sin m x)" and "nn (scW s)" and "nn (scD s)" and "ringOf rnd (as_anon sc) = Some members"
  shows "\<exists>cmds sc'. anonFrame m rnd s ts sc = Some (cmds, sc') \<and> as_anon sc' = as_anon sc \<and> fst (paint cmds c) = None
    \<and> length (filter dimmed cmds) = length (filter (\<lambda>i. an_ringMode (as_anon sc) \<and> int i \<notin> set members) [0..<length (an_nodes (as_anon sc))])"
proof -
  have "list_all okCmd (CClear (scW s) (scH s) # paintOutputs m s ts a members)" for a using outputs_ok [OF assms(1,3)] by simp
  then show ?thesis using assms(4) dissolve_ok [OF _ assms(2,3)] paint_ok
    by (auto simp: anonFrame_def Let_def outputs_dimmed dissolve_dimmed dimmed_def split: option.split prod.split) 
qed

text \<open>In global mode no output is dimmed; in ring mode, with fair random numbers, all but sixteen are, and the real one is among those left.\<close>

lemma anonymity_picture:
  assumes "\<forall>x. notBelow (- 1) (ma_sin m x)" and "nn (scW s)" and "nn (scD s)" and "1 \<le> n" and "n \<le> 2 ^ 52"
    and "\<forall>j. 0 \<le> pick n (rnd j) \<and> pick n (rnd j) < int n" and "\<forall>k j. 0 \<le> k \<and> k < int n \<longrightarrow> (\<exists>i. pick n (rnd (j + i)) = k)"
    and "as_anon sc = build msqrt phases w h n a"
  shows "\<exists>cmds sc'. anonFrame m rnd s ts sc = Some (cmds, sc') \<and> as_anon sc' = as_anon sc \<and> fst (paint cmds c) = None
    \<and> length (filter dimmed cmds) = (if an_ringMode a then n - 16 else 0)
    \<and> (\<exists>members real. ringOf rnd (as_anon sc) = Some members \<and> an_realIdx (as_anon sc) = Fin (of_int real) \<and> (an_ringMode a \<longrightarrow> real \<in> set members))"
proof -
  obtain real members where r: "an_realIdx (as_anon sc) = Fin (of_int real)" "ringSet rnd n real = Some members" "distinct members" "length members = min 16 n"
      "real \<in> set members" "set members \<subseteq> {0..<int n}"
    using ring_of_sixteen [OF assms(4-7), of msqrt phases w h a] assms(8) by auto
  let ?members = "if an_ringMode a then members else []"
  have o: "ringOf rnd (as_anon sc) = Some ?members" using r(1,2) assms(8) by (simp add: ringOf_def build_nodes)
  have "length (filter (\<lambda>i. an_ringMode a \<and> int i \<notin> set ?members) [0..<n]) = (if an_ringMode a then n - 16 else 0)"
    using outside_count [OF r(3,6)] r(4) by auto
  then show ?thesis using anonFrame_paints [OF assms(1-3) o, of ts c] o r(1,5) assms(8) by (auto simp: build_nodes)
qed

end
