(* ===== verification/Site_Page.thy ===== *)
theory Site_Page
  imports Site_Scenes Event_System
begin

text \<open>
  The whole script of the public site's pages (\<^verbatim>\<open>website/assets/app.js\<close>) as a system of events: the widgets of \<^verbatim>\<open>Site_Widgets\<close>,
  the clipboard, and the three canvases of \<^verbatim>\<open>Site_Scenes\<close> with their animation loops and resizing. The theorem is about every sequence of
  events, from the page as loaded.
\<close>

section \<open>State\<close>

record Site =
  si_widgets :: Widgets
  si_year :: jstr
  si_writes :: "jstr list" \<comment> \<open>texts handed to the clipboard\<close>
  si_waiting :: nat \<comment> \<open>writes to the clipboard not settled yet\<close>
  si_heroScreen :: Screen
  si_heroPts :: "Particle list"
  si_heroCtx :: Ctx
  si_heroFrames :: nat \<comment> \<open>frames of the hero requested\<close>
  si_slider :: nat \<comment> \<open>value of the slider of the anonymity set\<close>
  si_anonScreen :: Screen
  si_scene :: Scene
  si_anonCtx :: Ctx
  si_anonLoop :: bool \<comment> \<open>a frame of the anonymity set is requested\<close>
  si_emissionCtx :: Ctx

text \<open>What the browser supplies when the canvases are laid out: sizes, the pixel ratio, random numbers and square roots.\<close>

record Paper =
  pa_hero :: "jsnum \<times> jsnum"
  pa_anon :: "jsnum \<times> jsnum"
  pa_emission :: "jsnum \<times> jsnum"
  pa_dpr :: jsnum
  pa_heroRandom :: "nat \<Rightarrow> jsnum"
  pa_phases :: "nat \<Rightarrow> jsnum"
  pa_sqrt :: "jsnum \<Rightarrow> jsnum"

datatype siteEvent =
    Menu | MenuLink | Crossing "(nat \<times> bool) list"
  | CopyClick "jstr option" \<comment> \<open>text of the listing beside the button, if there is one\<close>
  | CopySettled bool \<comment> \<open>whether the clipboard took the text\<close>
  | CopyTimer
  | Tab "jstr list" "jstr list" nat | Docs "jstr list" "(jstr \<times> bool) list"
  | AnonInput nat Paper | AnonSpend jsnum "nat \<Rightarrow> jsnum" | AnonMode
  | Animate jsnum "nat \<Rightarrow> rat" \<comment> \<open>an animation frame, with random numbers\<close>
  | WindowResize Paper

section \<open>Year and copy buttons\<close>

text \<open>A number assigned to \<^verbatim>\<open>textContent\<close> is printed.\<close>

definition footerYear :: "int \<Rightarrow> jstr" where
  "footerYear year = numberToString (Fin (of_int year))"

text \<open>The text is handed over as it is; the copy that \<^verbatim>\<open>replace\<close> makes of it is not used.\<close>

definition copyClick :: "jstr option \<Rightarrow> Site \<Rightarrow> Site" where
  "copyClick code s = s\<lparr>si_writes := si_writes s @ [case code of Some t \<Rightarrow> t | None \<Rightarrow> []], si_waiting := Suc (si_waiting s)\<rparr>"

definition copySettled :: "bool \<Rightarrow> Site \<Rightarrow> Site option" where
  "copySettled ok s =
     (if si_waiting s = 0 then None
      else let s = s\<lparr>si_waiting := si_waiting s - 1\<rparr> in Some (if ok then s\<lparr>si_widgets := copied (si_widgets s)\<rparr> else s))"

section \<open>Canvases\<close>

definition paperSize :: "(jsnum \<times> jsnum) \<Rightarrow> Paper \<Rightarrow> Screen" where
  "paperSize wh p = sceneSize (fst wh) (snd wh) (pa_dpr p)"

text \<open>A frame of the hero moves and paints the particles, and then asks for the next one.\<close>

definition heroRun :: "Maths \<Rightarrow> Site \<Rightarrow> Site" where
  "heroRun m s =
     (let (cmds, pts) = heroFrame m (si_heroScreen s) (si_heroPts s); (err, c) = paint cmds (si_heroCtx s)
      in s\<lparr>si_heroPts := pts, si_heroCtx := c, si_heroFrames := si_heroFrames s + (if err = None then 1 else 0)\<rparr>)"

definition heroStart :: "Maths \<Rightarrow> Paper \<Rightarrow> Site \<Rightarrow> Site" where
  "heroStart m p s =
     (let scr = paperSize (pa_hero p) p
      in heroRun m (s\<lparr>si_heroScreen := scr, si_heroCtx := execCmd (CSize (scW scr) (scH scr)) (si_heroCtx s), si_heroPts := heroInit (pa_heroRandom p) scr\<rparr>))"

text \<open>Resizing first cancels the frame requested last.\<close>

definition heroResize :: "Maths \<Rightarrow> Paper \<Rightarrow> Site \<Rightarrow> Site" where
  "heroResize m p s = heroStart m p (s\<lparr>si_heroFrames := si_heroFrames s - 1\<rparr>)"

definition anonBuild :: "Paper \<Rightarrow> Site \<Rightarrow> Site" where
  "anonBuild p s =
     s\<lparr>si_scene := (si_scene s)\<lparr>as_anon := build (pa_sqrt p) (pa_phases p) (scW (si_anonScreen s)) (scH (si_anonScreen s)) (si_slider s) (as_anon (si_scene s))\<rparr>\<rparr>"

definition anonSize :: "Paper \<Rightarrow> Site \<Rightarrow> Site" where
  "anonSize p s =
     (let scr = paperSize (pa_anon p) p in s\<lparr>si_anonScreen := scr, si_anonCtx := execCmd (CSize (scW scr) (scH scr)) (si_anonCtx s)\<rparr>)"

text \<open>A frame of the anonymity set; \<open>None\<close> when the search for decoys does not end, which hangs the page.\<close>

definition anonRun :: "Maths \<Rightarrow> (nat \<Rightarrow> rat) \<Rightarrow> jsnum \<Rightarrow> Site \<Rightarrow> Site option" where
  "anonRun m rnd ts s =
     (if si_anonLoop s
      then map_option (\<lambda>(cmds, sc). case paint cmds (si_anonCtx s) of
               (None, c) \<Rightarrow> s\<lparr>si_anonCtx := c, si_scene := sc\<rparr>
             | (Some _, c) \<Rightarrow> s\<lparr>si_anonCtx := c, si_anonLoop := False\<rparr>) (anonFrame m rnd (si_anonScreen s) ts (si_scene s))
      else Some s)"

definition emissionDraw :: "Paper \<Rightarrow> Site \<Rightarrow> Site option" where
  "emissionDraw p s =
     (let scr = emissionSize (fst (pa_emission p)) (snd (pa_emission p)) (pa_dpr p); c = execCmd (CSize (scW scr) (scH scr)) (si_emissionCtx s)
      in map_option (\<lambda>cmds. s\<lparr>si_emissionCtx := snd (paint cmds c)\<rparr>) (emissionPaint scr))"

section \<open>Events\<close>

definition loadSite :: "Maths \<Rightarrow> Paper \<Rightarrow> Widgets \<Rightarrow> int \<Rightarrow> nat \<Rightarrow> jsnum \<Rightarrow> Site option" where
  "loadSite m p w year n clock =
     (let none = \<lparr>scW = NaN, scH = NaN, scD = NaN\<rparr>;
          s = \<lparr>si_widgets = w, si_year = footerYear year, si_writes = [], si_waiting = 0,
               si_heroScreen = none, si_heroPts = [], si_heroCtx = freshCtx, si_heroFrames = 0,
               si_slider = n, si_anonScreen = none,
               si_scene = \<lparr>as_anon = \<lparr>an_label = Fin 0, an_nodes = [], an_realIdx = Fin 0, an_ringMode = False, an_modeText = [], an_modeRing = False\<rparr>,
                           as_t0 = Fin (- 10), as_sparks = []\<rparr>,
               si_anonCtx = freshCtx, si_anonLoop = False, si_emissionCtx = freshCtx\<rparr>;
          s = anonBuild p (anonSize p (heroStart m p s));
          s = s\<lparr>si_scene := (si_scene s)\<lparr>as_t0 := clock\<rparr>, si_anonLoop := True\<rparr>
      in emissionDraw p s)"

fun siteHandle :: "Maths \<Rightarrow> siteEvent \<Rightarrow> Site \<Rightarrow> Site option" where
  "siteHandle m Menu s = Some (s\<lparr>si_widgets := navToggle (si_widgets s)\<rparr>)"
| "siteHandle m MenuLink s = Some (s\<lparr>si_widgets := navLink (si_widgets s)\<rparr>)"
| "siteHandle m (Crossing entries) s = Some (s\<lparr>si_widgets := reveal entries (si_widgets s)\<rparr>)"
| "siteHandle m (CopyClick code) s = Some (copyClick code s)"
| "siteHandle m (CopySettled ok) s = copySettled ok s"
| "siteHandle m CopyTimer s = Some (s\<lparr>si_widgets := copiedTimer (si_widgets s)\<rparr>)"
| "siteHandle m (Tab steps paneIds i) s = Some (s\<lparr>si_widgets := stepTab steps paneIds i (si_widgets s)\<rparr>)"
| "siteHandle m (Docs hrefs entries) s = Some (s\<lparr>si_widgets := docSection hrefs entries (si_widgets s)\<rparr>)"
| "siteHandle m (AnonInput n p) s = Some (anonBuild p (s\<lparr>si_slider := n\<rparr>))"
| "siteHandle m (AnonSpend clock rnd) s = Some (s\<lparr>si_scene := spend m rnd (si_anonScreen s) clock (si_scene s)\<rparr>)"
| "siteHandle m AnonMode s = Some (s\<lparr>si_scene := (si_scene s)\<lparr>as_anon := toggleMode (as_anon (si_scene s))\<rparr>\<rparr>)"
| "siteHandle m (Animate ts rnd) s = anonRun m rnd ts ((heroRun m ^^ si_heroFrames s) (s\<lparr>si_heroFrames := 0\<rparr>))"
| "siteHandle m (WindowResize p) s = emissionDraw p (anonBuild p (anonSize p (heroResize m p s)))"

section \<open>The invariant\<close>

definition plausiblePaper :: "Paper \<Rightarrow> bool" where
  "plausiblePaper p \<longleftrightarrow> nn (fst (pa_anon p)) \<and> nn (pa_dpr p) \<and> (\<forall>i. nn (pa_heroRandom p i))"

text \<open>Random numbers that pick indices in range, and each of them again and again.\<close>

definition fair :: "nat \<Rightarrow> (nat \<Rightarrow> rat) \<Rightarrow> bool" where
  "fair n rnd \<longleftrightarrow> (\<forall>j. 0 \<le> pick n (rnd j) \<and> pick n (rnd j) < int n) \<and> (\<forall>k j. 0 \<le> k \<and> k < int n \<longrightarrow> (\<exists>i. pick n (rnd (j + i)) = k))"

fun plausibleSite :: "siteEvent \<Rightarrow> Site \<Rightarrow> bool" where
  "plausibleSite (AnonInput n p) s \<longleftrightarrow> 1 \<le> n \<and> n \<le> 2 ^ 52"
| "plausibleSite (Animate ts rnd) s \<longleftrightarrow> fair (si_slider s) rnd"
| "plausibleSite (WindowResize p) s \<longleftrightarrow> plausiblePaper p"
| "plausibleSite _ s \<longleftrightarrow> True"

definition siteStep :: "Maths \<Rightarrow> siteEvent \<Rightarrow> Site \<Rightarrow> Site option" where
  "siteStep m e s = (if plausibleSite e s then siteHandle m e s else None)"

definition heroInv :: "Site \<Rightarrow> bool" where
  "heroInv s \<longleftrightarrow> si_heroFrames s = 1 \<and> length (si_heroPts s) = 130 \<and> list_all (\<lambda>p. nn (pt_r p)) (si_heroPts s)"

text \<open>The outputs are those of the current size of the canvas and the current value of the slider.\<close>

definition anonInv :: "Site \<Rightarrow> bool" where
  "anonInv s \<longleftrightarrow> si_anonLoop s \<and> nn (scW (si_anonScreen s)) \<and> nn (scD (si_anonScreen s)) \<and> 1 \<le> si_slider s \<and> si_slider s \<le> 2 ^ 52
     \<and> (\<exists>msqrt phases a. as_anon (si_scene s) = build msqrt phases (scW (si_anonScreen s)) (scH (si_anonScreen s)) (si_slider s) a)"

definition siteInv :: "Site \<Rightarrow> bool" where
  "siteInv s \<longleftrightarrow> heroInv s \<and> anonInv s"

lemma toggleMode_build: "toggleMode (build msqrt phases w h n a) = build msqrt phases w h n (toggleMode a)"
  by (simp add: toggleMode_def build_def Let_def)

lemma heroMove_r: "pt_r (heroMove s p) = pt_r p"
  by (simp add: heroMove_def Let_def)

lemma heroFrame_ok:
  assumes "list_all (\<lambda>p. nn (pt_r p)) pts"
  shows "list_all okCmd (fst (heroFrame m s pts))"
proof -
  have "list_all okCmd (heroLines m s p qs)" for p qs by (simp add: heroLines_def Let_def ok_simps)
  then show ?thesis using assms by (auto simp: heroFrame_def Let_def list_all_iff heroMove_r)
qed

lemma heroRun_effect:
  assumes "list_all (\<lambda>p. nn (pt_r p)) (si_heroPts s)"
  shows "\<exists>c. heroRun m s = s\<lparr>si_heroPts := map (heroMove (si_heroScreen s)) (si_heroPts s), si_heroCtx := c, si_heroFrames := Suc (si_heroFrames s)\<rparr>"
  using paint_ok [OF heroFrame_ok [OF assms, of m "si_heroScreen s"]]
  by (simp add: heroRun_def Let_def split: prod.split) (auto simp: heroFrame_def Let_def)

lemma heroInit_ok:
  assumes "plausiblePaper p"
  shows "length (heroInit (pa_heroRandom p) (paperSize wh p)) = 130 \<and> list_all (\<lambda>p. nn (pt_r p)) (heroInit (pa_heroRandom p) (paperSize wh p))"
  using assms by (simp add: heroInit_def list_all_iff plausiblePaper_def paperSize_def sceneSize_def sign_intros)

lemma heroStart_effect:
  assumes "plausiblePaper p"
  shows "\<exists>c pts scr. heroStart m p s = s\<lparr>si_heroScreen := scr, si_heroPts := pts, si_heroCtx := c, si_heroFrames := Suc (si_heroFrames s)\<rparr>
    \<and> length pts = 130 \<and> list_all (\<lambda>p. nn (pt_r p)) pts"
proof -
  let ?scr = "paperSize (pa_hero p) p"
  let ?u = "s\<lparr>si_heroScreen := ?scr, si_heroCtx := execCmd (CSize (scW ?scr) (scH ?scr)) (si_heroCtx s), si_heroPts := heroInit (pa_heroRandom p) ?scr\<rparr>"
  have u: "length (si_heroPts ?u) = 130" "list_all (\<lambda>p. nn (pt_r p)) (si_heroPts ?u)" using heroInit_ok [OF assms] by simp_all
  obtain c where "heroRun m ?u = ?u\<lparr>si_heroPts := map (heroMove ?scr) (si_heroPts ?u), si_heroCtx := c, si_heroFrames := Suc (si_heroFrames ?u)\<rparr>"
    using heroRun_effect [OF u(2), of m] by auto
  moreover have "list_all (\<lambda>p. nn (pt_r p)) (map (heroMove ?scr) (si_heroPts ?u))" using u(2) by (simp add: list_all_iff heroMove_r)
  ultimately show ?thesis using u(1)
    by (intro exI [of _ c] exI [of _ "map (heroMove ?scr) (si_heroPts ?u)"] exI [of _ ?scr]) (simp add: heroStart_def Let_def)
qed

lemma emissionDraw_total: "\<exists>c. emissionDraw p s = Some (s\<lparr>si_emissionCtx := c\<rparr>)"
proof -
  obtain pts where "emissionFrom (Fin 0) (Fin 0) = Some pts" using emissionFrom_bounds [of 241 0] isDouble_of_int [of 0] by auto
  then have "emissionCurve w h d \<noteq> None" for w h d by (simp only: emissionCurve_def Let_def Option.bind.simps option.distinct simp_thms)
  then have "emissionPaint scr \<noteq> None" for scr by (simp only: emissionPaint_def Let_def option.map_disc_iff not_False_eq_True)
  then obtain cmds where "emissionPaint (emissionSize (fst (pa_emission p)) (snd (pa_emission p)) (pa_dpr p)) = Some cmds" by fast
  then show ?thesis unfolding emissionDraw_def Let_def by (simp only: option.map) (rule exI, rule refl)
qed

lemma siteInv_frame:
  assumes "siteInv s" and "heroInv u" and "si_anonLoop u = si_anonLoop s" and "si_anonScreen u = si_anonScreen s" and "si_slider u = si_slider s"
    and "as_anon (si_scene u) = as_anon (si_scene s)"
  shows "siteInv u"
  using assms by (simp add: siteInv_def anonInv_def)

text \<open>Laying out the canvases establishes the invariant.\<close>

lemma layout_inv:
  assumes "plausiblePaper p" and "si_heroFrames s = 0" and "1 \<le> si_slider s" and "si_slider s \<le> 2 ^ 52"
    and "u = anonBuild p (anonSize p (heroStart m p s))"
  shows "heroInv u \<and> si_slider u = si_slider s \<and> si_anonLoop u = si_anonLoop s
    \<and> as_t0 (si_scene u) = as_t0 (si_scene s) \<and> anonInv (u\<lparr>si_anonLoop := True\<rparr>)
    \<and> an_ringMode (as_anon (si_scene u)) = an_ringMode (as_anon (si_scene s))"
proof -
  obtain c pts scr where h: "heroStart m p s = s\<lparr>si_heroScreen := scr, si_heroPts := pts, si_heroCtx := c, si_heroFrames := Suc (si_heroFrames s)\<rparr>"
      "length pts = 130" "list_all (\<lambda>p. nn (pt_r p)) pts"
    using heroStart_effect [OF assms(1)] by blast
  have n: "nn (scW (paperSize (pa_anon p) p))" "nn (scD (paperSize (pa_anon p) p))"
    using assms(1) scene_nn by (simp_all add: plausiblePaper_def paperSize_def)
  have "\<exists>msqrt phases a. build (pa_sqrt p) (pa_phases p) w h k b = build msqrt phases w h k a" for w h k b by blast
  then show ?thesis using h(2,3) assms(2-4) n by (simp add: assms(5) h(1) anonBuild_def anonSize_def heroInv_def anonInv_def Let_def build_nodes)
qed

lemma anonFrame_whole:
  assumes "\<forall>x. notBelow (- 1) (ma_sin m x)" and "anonInv s" and "fair (si_slider s) rnd"
  shows "\<exists>cmds sc'. anonFrame m rnd (si_anonScreen s) ts (si_scene s) = Some (cmds, sc') \<and> as_anon sc' = as_anon (si_scene s) \<and> fst (paint cmds (si_anonCtx s)) = None
    \<and> length (filter dimmed cmds) = (if an_ringMode (as_anon (si_scene s)) then si_slider s - 16 else 0)"
proof -
  obtain msqrt phases a where b: "as_anon (si_scene s) = build msqrt phases (scW (si_anonScreen s)) (scH (si_anonScreen s)) (si_slider s) a"
    using assms(2) by (auto simp: anonInv_def)
  have n: "1 \<le> si_slider s" "si_slider s \<le> 2 ^ 52" and scr: "nn (scW (si_anonScreen s))" "nn (scD (si_anonScreen s))"
    using assms(2) by (simp_all add: anonInv_def)
  have f: "\<forall>j. 0 \<le> pick (si_slider s) (rnd j) \<and> pick (si_slider s) (rnd j) < int (si_slider s)"
    "\<forall>k j. 0 \<le> k \<and> k < int (si_slider s) \<longrightarrow> (\<exists>i. pick (si_slider s) (rnd (j + i)) = k)" using assms(3) unfolding fair_def by blast+
  have mode: "an_ringMode a = an_ringMode (as_anon (si_scene s))" by (simp only: b build_nodes)
  show ?thesis using anonymity_picture [OF assms(1) scr n f b, of ts "si_anonCtx s"] unfolding mode by blast
qed

lemma anonRun_effect:
  assumes "\<forall>x. notBelow (- 1) (ma_sin m x)" and "anonInv s" and "fair (si_slider s) rnd"
  shows "\<exists>c sc'. anonRun m rnd ts s = Some (s\<lparr>si_anonCtx := c, si_scene := sc'\<rparr>) \<and> as_anon sc' = as_anon (si_scene s)"
proof -
  obtain cmds sc' where c: "anonFrame m rnd (si_anonScreen s) ts (si_scene s) = Some (cmds, sc')" "as_anon sc' = as_anon (si_scene s)"
      "fst (paint cmds (si_anonCtx s)) = None"
    using anonFrame_whole [OF assms, of ts] by blast
  have l: "si_anonLoop s" using assms(2) by (simp add: anonInv_def)
  have "list_all (\<lambda>cmd. \<not> throws cmd) cmds" using c(3) unfolding paint_throws list_ex_iff list_all_iff by (metis option.distinct(1))
  then have "paint cmds (si_anonCtx s) = (None, fold execCmd cmds (si_anonCtx s))" by (rule paint_safe)
  then have "anonRun m rnd ts s = Some (s\<lparr>si_anonCtx := fold execCmd cmds (si_anonCtx s), si_scene := sc'\<rparr>)" using l c(1) by (simp add: anonRun_def)
  then show ?thesis using c(2) by blast
qed

text \<open>A frame of the hero leaves everything else alone.\<close>

lemma heroTick:
  assumes "heroInv s"
  obtains c pts where "(heroRun m ^^ si_heroFrames s) (s\<lparr>si_heroFrames := 0\<rparr>) = s\<lparr>si_heroPts := pts, si_heroCtx := c, si_heroFrames := 1\<rparr>"
    "heroInv (s\<lparr>si_heroPts := pts, si_heroCtx := c, si_heroFrames := 1\<rparr>)"
proof -
  have "list_all (\<lambda>p. nn (pt_r p)) (si_heroPts (s\<lparr>si_heroFrames := 0\<rparr>))" using assms by (simp add: heroInv_def)
  from heroRun_effect [OF this, of m] obtain c where "(heroRun m ^^ si_heroFrames s) (s\<lparr>si_heroFrames := 0\<rparr>)
      = s\<lparr>si_heroPts := map (heroMove (si_heroScreen s)) (si_heroPts s), si_heroCtx := c, si_heroFrames := 1\<rparr>" using assms by (auto simp: heroInv_def)
  then show thesis by (rule that) (use assms in \<open>auto simp: heroInv_def list_all_iff heroMove_r\<close>)
qed

lemma siteInv_animate:
  assumes "\<forall>x. notBelow (- 1) (ma_sin m x)" and "siteInv s" and "fair (si_slider s) rnd"
  shows "\<exists>s'. siteHandle m (Animate ts rnd) s = Some s' \<and> siteInv s'"
proof -
  have "heroInv s" using assms(2) by (simp add: siteInv_def)
  then obtain c pts where u: "(heroRun m ^^ si_heroFrames s) (s\<lparr>si_heroFrames := 0\<rparr>) = s\<lparr>si_heroPts := pts, si_heroCtx := c, si_heroFrames := 1\<rparr>"
    "heroInv (s\<lparr>si_heroPts := pts, si_heroCtx := c, si_heroFrames := 1\<rparr>)" by (rule heroTick)
  let ?u = "s\<lparr>si_heroPts := pts, si_heroCtx := c, si_heroFrames := 1\<rparr>"
  have "anonInv ?u" "fair (si_slider ?u) rnd" using assms(2,3) by (simp_all add: siteInv_def anonInv_def)
  from anonRun_effect [OF assms(1) this, of ts] obtain d sc' where
    s': "anonRun m rnd ts ?u = Some (?u\<lparr>si_anonCtx := d, si_scene := sc'\<rparr>)" "as_anon sc' = as_anon (si_scene ?u)" by auto
  have "siteInv (?u\<lparr>si_anonCtx := d, si_scene := sc'\<rparr>)" by (rule siteInv_frame [OF assms(2)]) (use u(2) s'(2) in \<open>simp_all add: heroInv_def\<close>)
  then show ?thesis using u(1) s'(1) by simp
qed

lemma siteInv_resize:
  assumes "siteInv s" and "plausiblePaper p"
  shows "\<exists>s'. siteHandle m (WindowResize p) s = Some s' \<and> siteInv s'"
proof -
  define v where "v = anonBuild p (anonSize p (heroResize m p s))"
  have hero: "heroInv s" and sl: "1 \<le> si_slider s" "si_slider s \<le> 2 ^ 52" "si_anonLoop s" using assms(1) by (simp_all add: siteInv_def anonInv_def)
  have "v = anonBuild p (anonSize p (heroStart m p (s\<lparr>si_heroFrames := 0\<rparr>)))" using hero by (simp add: v_def heroResize_def heroInv_def)
  from layout_inv [OF assms(2) _ _ _ this] have v: "heroInv v" "si_anonLoop v" "anonInv (v\<lparr>si_anonLoop := True\<rparr>)" using sl by simp_all
  obtain c where "emissionDraw p v = Some (v\<lparr>si_emissionCtx := c\<rparr>)" using emissionDraw_total by blast
  moreover have "anonInv v" using v(2,3) by (simp add: anonInv_def)
  ultimately show ?thesis using v(1) by (simp add: v_def [symmetric] siteInv_def heroInv_def anonInv_def)
qed

lemma siteStep_inv:
  assumes "\<forall>x. notBelow (- 1) (ma_sin m x)" and "siteInv s" and "plausibleSite e s" and "siteHandle m e s = Some s'"
  shows "siteInv s'"
proof -
  have hero: "heroInv s" and anon: "anonInv s" using assms(2) by (simp_all add: siteInv_def)
  note keep = siteInv_frame [OF assms(2)]
  show ?thesis
  proof (cases e)
    case (AnonInput n p)
    then have s': "s' = anonBuild p (s\<lparr>si_slider := n\<rparr>)" and n: "1 \<le> n" "n \<le> 2 ^ 52" using assms(3,4) by auto
    have "anonInv s'" unfolding anonInv_def s' anonBuild_def using anon n by (simp add: anonInv_def) blast
    then show ?thesis using hero by (simp add: s' siteInv_def heroInv_def anonBuild_def)
  next
    case AnonMode
    then have s': "s' = s\<lparr>si_scene := (si_scene s)\<lparr>as_anon := toggleMode (as_anon (si_scene s))\<rparr>\<rparr>" using assms(4) by simp
    obtain msqrt phases a where "as_anon (si_scene s) = build msqrt phases (scW (si_anonScreen s)) (scH (si_anonScreen s)) (si_slider s) a"
      using anon by (auto simp: anonInv_def)
    then have "anonInv s'" using anon unfolding anonInv_def s' by (simp add: toggleMode_build) blast
    then show ?thesis using hero by (simp add: s' siteInv_def heroInv_def)
  next
    case (Animate ts rnd)
    then show ?thesis using siteInv_animate [OF assms(1,2), of rnd ts] assms(3,4) by auto
  next
    case (WindowResize p)
    then show ?thesis using siteInv_resize [OF assms(2), of p m] assms(3,4) by auto
  next
    case (CopySettled ok)
    show ?thesis by (rule keep) (use assms(4) CopySettled hero in \<open>auto simp: copySettled_def heroInv_def Let_def split: if_splits\<close>)
  next
    case (CopyClick code)
    show ?thesis by (rule keep) (use assms(4) CopyClick hero in \<open>auto simp: copyClick_def heroInv_def\<close>)
  next
    case (AnonSpend clock rnd)
    show ?thesis by (rule keep) (use assms(4) AnonSpend hero in \<open>auto simp: spend_def heroInv_def\<close>)
  qed (rule keep; use assms(4) hero in \<open>auto simp: heroInv_def\<close>)+
qed

text \<open>Nothing is taken back from the clipboard.\<close>

lemma siteHandle_writes: "siteHandle m e s = Some s' \<Longrightarrow> \<exists>ts. si_writes s' = si_writes s @ ts"
proof -
  have hero: "si_writes (heroRun m u) = si_writes u" for u by (simp add: heroRun_def Let_def split: prod.split)
  then have heroes: "si_writes ((heroRun m ^^ n) u) = si_writes u" for n u by (induction n) simp_all
  have start: "si_writes (heroStart m p u) = si_writes u" for p u by (simp add: heroStart_def Let_def hero)
  have anon: "si_writes u' = si_writes u" if r: "anonRun m rnd ts u = Some u'" for rnd ts u u'
  proof (cases "si_anonLoop u")
    case True
    then obtain cmds sc where "u' = (case paint cmds (si_anonCtx u) of (None, c) \<Rightarrow> u\<lparr>si_anonCtx := c, si_scene := sc\<rparr>
        | (Some _, c) \<Rightarrow> u\<lparr>si_anonCtx := c, si_anonLoop := False\<rparr>)" using r by (auto simp: anonRun_def)
    then show ?thesis by (simp split: prod.split option.split)
  qed (use r in \<open>simp add: anonRun_def\<close>)
  have emission: "si_writes u' = si_writes u" if "emissionDraw p u = Some u'" for p u u' using emissionDraw_total [of p u] that by auto
  assume "siteHandle m e s = Some s'"
  then show ?thesis
    by (cases e) (auto simp: copyClick_def copySettled_def anonBuild_def anonSize_def heroResize_def start heroes Let_def dest: anon emission split: if_splits)
qed

interpretation site: abstraction "siteStep m" "\<lambda>s. (\<forall>x. notBelow (- 1) (ma_sin m x)) \<and> siteInv s" si_writes "\<lambda>xs ys. \<exists>zs. ys = xs @ zs"
proof
  fix s e s' assume a: "(\<forall>x. notBelow (- 1) (ma_sin m x)) \<and> siteInv s" "siteStep m e s = Some s'"
  then have h: "plausibleSite e s" "siteHandle m e s = Some s'" by (auto simp: siteStep_def split: if_splits)
  show "(\<forall>x. notBelow (- 1) (ma_sin m x)) \<and> siteInv s'" using siteStep_inv [OF _ _ h] a(1) by blast
  show "\<exists>zs. si_writes s' = si_writes s @ zs" by (rule siteHandle_writes [OF h(2)])
qed

lemma loadSite_inv:
  assumes "plausiblePaper p" and "1 \<le> n" and "n \<le> 2 ^ 52"
  shows "\<exists>s. loadSite m p w year n clock = Some s \<and> siteInv s"
proof -
  define none where "none = \<lparr>scW = NaN, scH = NaN, scD = NaN\<rparr>"
  define s where "s = \<lparr>si_widgets = w, si_year = footerYear year, si_writes = [], si_waiting = 0,
     si_heroScreen = none, si_heroPts = [], si_heroCtx = freshCtx, si_heroFrames = 0, si_slider = n, si_anonScreen = none,
     si_scene = \<lparr>as_anon = \<lparr>an_label = Fin 0, an_nodes = [], an_realIdx = Fin 0, an_ringMode = False, an_modeText = [], an_modeRing = False\<rparr>,
                 as_t0 = Fin (- 10), as_sparks = []\<rparr>,
     si_anonCtx = freshCtx, si_anonLoop = False, si_emissionCtx = freshCtx\<rparr>"
  define u where "u = anonBuild p (anonSize p (heroStart m p s))"
  define v where "v = u\<lparr>si_scene := (si_scene u)\<lparr>as_t0 := clock\<rparr>, si_anonLoop := True\<rparr>"
  have u: "heroInv u" "anonInv (u\<lparr>si_anonLoop := True\<rparr>)" using layout_inv [OF assms(1) _ _ _ u_def] assms(2,3) by (simp_all add: s_def)
  then have "siteInv v" by (simp add: v_def siteInv_def heroInv_def anonInv_def)
  moreover have "loadSite m p w year n clock = emissionDraw p v"
    unfolding loadSite_def v_def u_def s_def none_def Let_def by (rule refl)
  moreover obtain c where "emissionDraw p v = Some (v\<lparr>si_emissionCtx := c\<rparr>)" using emissionDraw_total by blast
  ultimately show ?thesis by (simp add: siteInv_def heroInv_def anonInv_def)
qed

text \<open>Every event is handled, unless a write to the clipboard settles that nobody asked for.\<close>

lemma siteHandle_total:
  assumes "\<forall>x. notBelow (- 1) (ma_sin m x)" and "siteInv s" and "plausibleSite e s" and "\<forall>ok. e = CopySettled ok \<longrightarrow> 0 < si_waiting s"
  shows "\<exists>s'. siteHandle m e s = Some s'"
proof (cases e)
  case (Animate ts rnd)
  then show ?thesis using siteInv_animate [OF assms(1,2), of rnd ts] assms(3) by auto
next
  case (WindowResize p)
  then show ?thesis using siteInv_resize [OF assms(2), of p m] assms(3) by auto
next
  case (CopySettled ok)
  then show ?thesis using assms(4) by (simp add: copySettled_def Let_def)
qed auto

text \<open>Two copies whose timers overlap leave the button with the label of success, for good.\<close>

lemma copy_label_sticks:
  assumes "si_waiting s = 0" and "wg_timers (si_widgets s) = []"
  shows "\<exists>s'. runEvents (siteHandle m) [CopyClick t, CopySettled True, CopyClick u, CopySettled True, CopyTimer, CopyTimer] s = Some s'
    \<and> wg_label (si_widgets s') = js ''copied '' @ [0x2713] \<and> wg_timers (si_widgets s') = [] \<and> si_waiting s' = 0"
  using assms by (simp add: copyClick_def copySettled_def copied_def copiedTimer_def Let_def)

section \<open>Correctness\<close>

text \<open>\<^bold>\<open>C21.\<close> The site, whatever the visitor and the browser do: the page always loads and never hangs, provided the random numbers reach every index again and
  again. The hero always has its 130 particles and exactly one frame requested, also after any number of resizes. The picture of the anonymity
  set never stops, and each frame shows as many outputs as the slider says, all alike in global mode; in ring mode all but sixteen (none when
  there are fewer) are dimmed. Texts handed to the clipboard stay as they were.\<close>

theorem site_runs:
  assumes "\<forall>x. notBelow (- 1) (ma_sin m x)" and "plausiblePaper p" and "1 \<le> n" and "n \<le> 2 ^ 52"
  shows "\<exists>s0. loadSite m p w year n clock = Some s0
    \<and> (\<forall>es s. runEvents (siteStep m) es s0 = Some s \<longrightarrow>
         si_heroFrames s = 1 \<and> length (si_heroPts s) = 130 \<and> si_anonLoop s \<and> (\<exists>ts. si_writes s = si_writes s0 @ ts)
       \<and> length (an_nodes (as_anon (si_scene s))) = si_slider s
       \<and> (\<forall>e. plausibleSite e s \<longrightarrow> (\<forall>ok. e = CopySettled ok \<longrightarrow> 0 < si_waiting s) \<longrightarrow> (\<exists>s'. siteHandle m e s = Some s'))
       \<and> (\<forall>rnd ts. fair (si_slider s) rnd \<longrightarrow>
            (\<exists>cmds sc'. anonFrame m rnd (si_anonScreen s) ts (si_scene s) = Some (cmds, sc') \<and> fst (paint cmds (si_anonCtx s)) = None
              \<and> length (filter dimmed cmds) = (if an_ringMode (as_anon (si_scene s)) then si_slider s - 16 else 0))))"
proof -
  obtain s0 where s0: "loadSite m p w year n clock = Some s0" "siteInv s0" using loadSite_inv [OF assms(2-4)] by blast
  have writes: "\<exists>ts. ys = xs @ ts" if "(\<lambda>xs ys. \<exists>zs. ys = xs @ zs)\<^sup>*\<^sup>* xs ys" for xs ys :: "jstr list" using that by induction auto
  show ?thesis
  proof (rule exI [of _ s0], intro conjI allI impI s0(1))
    fix es s assume run: "runEvents (siteStep m) es s0 = Some s"
    then have inv: "siteInv s" using site.run_inv [of m s0 es s] assms(1) s0(2) by blast
    then show "si_heroFrames s = 1" "length (si_heroPts s) = 130" "si_anonLoop s" by (simp_all add: siteInv_def heroInv_def anonInv_def)
    show "\<exists>ts. si_writes s = si_writes s0 @ ts" using site.run_abs [of m s0 es s] assms(1) s0(2) run by (intro writes) blast
    show "length (an_nodes (as_anon (si_scene s))) = si_slider s" using inv by (auto simp: siteInv_def anonInv_def build_nodes)
    show "\<exists>s'. siteHandle m e s = Some s'" if "plausibleSite e s" "\<forall>ok. e = CopySettled ok \<longrightarrow> 0 < si_waiting s" for e
      by (rule siteHandle_total [OF assms(1) inv that])
    have an: "anonInv s" using inv by (simp add: siteInv_def)
    show "\<exists>cmds sc'. anonFrame m rnd (si_anonScreen s) ts (si_scene s) = Some (cmds, sc') \<and> fst (paint cmds (si_anonCtx s)) = None
        \<and> length (filter dimmed cmds) = (if an_ringMode (as_anon (si_scene s)) then si_slider s - 16 else 0)" if "fair (si_slider s) rnd" for rnd ts
      using anonFrame_whole [OF assms(1) an that, of ts] by blast
  qed
qed

lemma loadSite_start:
  assumes "plausiblePaper p" and "loadSite m p w year n clock = Some s0"
  shows "si_slider s0 = n \<and> \<not> an_ringMode (as_anon (si_scene s0))"
proof -
  have h: "\<exists>c pts scr. heroStart m p s = s\<lparr>si_heroScreen := scr, si_heroPts := pts, si_heroCtx := c, si_heroFrames := Suc (si_heroFrames s)\<rparr>" for s
    using heroStart_effect [OF assms(1)] by blast
  have frame: "si_slider (heroStart m p s) = si_slider s" "si_scene (heroStart m p s) = si_scene s" for s using h [of s] by auto
  have draw: "emissionDraw p s = Some u \<Longrightarrow> si_slider u = si_slider s \<and> si_scene u = si_scene s" for s u by (auto simp: emissionDraw_def Let_def)
  show ?thesis using draw [OF assms(2) [unfolded loadSite_def Let_def]] by (simp add: anonBuild_def anonSize_def Let_def frame build_def)
qed

definition plainPaper :: Paper where
  "plainPaper = \<lparr>pa_hero = (Fin 400, Fin 300), pa_anon = (Fin 400, Fin 300), pa_emission = (Fin 400, Fin 300), pa_dpr = Fin 1,
     pa_heroRandom = (\<lambda>_. Fin 0), pa_phases = (\<lambda>_. Fin 0), pa_sqrt = (\<lambda>x. x)\<rparr>"

definition plainWidgets :: Widgets where
  "plainWidgets = \<lparr>wg_open = False, wg_in = [], wg_observed = [], wg_label = js ''copy'', wg_timers = [], wg_tabs = [], wg_panes = [], wg_section = []\<rparr>"

theorem site_runs_witness:
  "\<exists>s0 s cmds sc' s'. loadSite plainMaths plainPaper plainWidgets 2024 32 (Fin 0) = Some s0
     \<and> runEvents (siteStep plainMaths) [AnonMode] s0 = Some s \<and> an_ringMode (as_anon (si_scene s)) \<and> fair 32 turns
     \<and> anonFrame plainMaths turns (si_anonScreen s) (Fin 0) (si_scene s) = Some (cmds, sc') \<and> length (filter dimmed cmds) = 16
     \<and> runEvents (siteStep plainMaths) [AnonMode, Animate (Fin 0) turns] s0 = Some s' \<and> si_heroFrames s' = 1 \<and> length (si_heroPts s') = 130"
proof -
  have m: "\<forall>x. notBelow (- 1) (ma_sin plainMaths x)" by (simp add: plainMaths_def)
  have p: "plausiblePaper plainPaper" by (simp add: plausiblePaper_def plainPaper_def)
  have n: "(1::nat) \<le> 32" "(32::nat) \<le> 2 ^ 52" by simp_all
  have f: "fair 32 turns" using turns_fair by (simp add: fair_def turns_pick)
  obtain s0 where s0: "loadSite plainMaths plainPaper plainWidgets 2024 32 (Fin 0) = Some s0"
    and runs: "\<forall>es s. runEvents (siteStep plainMaths) es s0 = Some s \<longrightarrow>
         si_heroFrames s = 1 \<and> length (si_heroPts s) = 130 \<and> si_anonLoop s \<and> (\<exists>ts. si_writes s = si_writes s0 @ ts)
       \<and> length (an_nodes (as_anon (si_scene s))) = si_slider s
       \<and> (\<forall>e. plausibleSite e s \<longrightarrow> (\<forall>ok. e = CopySettled ok \<longrightarrow> 0 < si_waiting s) \<longrightarrow> (\<exists>s'. siteHandle plainMaths e s = Some s'))
       \<and> (\<forall>rnd ts. fair (si_slider s) rnd \<longrightarrow>
            (\<exists>cmds sc'. anonFrame plainMaths rnd (si_anonScreen s) ts (si_scene s) = Some (cmds, sc') \<and> fst (paint cmds (si_anonCtx s)) = None
              \<and> length (filter dimmed cmds) = (if an_ringMode (as_anon (si_scene s)) then si_slider s - 16 else 0)))"
    using site_runs [OF m p n, of plainWidgets 2024 "Fin 0"] by blast
  define s where "s = s0\<lparr>si_scene := (si_scene s0)\<lparr>as_anon := toggleMode (as_anon (si_scene s0))\<rparr>\<rparr>"
  have s: "siteStep plainMaths AnonMode s0 = Some s" by (simp add: siteStep_def s_def)
  have run: "runEvents (siteStep plainMaths) [AnonMode] s0 = Some s" by (simp add: s)
  have k: "si_slider s = 32" "an_ringMode (as_anon (si_scene s))" using loadSite_start [OF p s0] by (simp_all add: s_def toggleMode_def Let_def)
  then have f': "fair (si_slider s) turns" and plausible: "plausibleSite (Animate (Fin 0) turns) s" using f by simp_all
  note here = runs [THEN spec, THEN spec, THEN mp, OF run]
  have frame: "\<exists>cmds sc'. anonFrame plainMaths turns (si_anonScreen s) (Fin 0) (si_scene s) = Some (cmds, sc') \<and> length (filter dimmed cmds) = 16"
    using here f' k by fastforce
  have "Animate (Fin 0) turns \<noteq> CopySettled ok" for ok by simp
  then obtain s' where "siteHandle plainMaths (Animate (Fin 0) turns) s = Some s'" using here plausible by blast
  then have "siteStep plainMaths (Animate (Fin 0) turns) s = Some s'" using plausible by (simp only: siteStep_def if_True)
  then have run': "runEvents (siteStep plainMaths) [AnonMode, Animate (Fin 0) turns] s0 = Some s'" by (simp add: s)
  show ?thesis using s0 run k(2) f frame run' runs [THEN spec, THEN spec, THEN mp, OF run'] by blast
qed

end
