(* ===== verification/Site_Viz.thy ===== *)
theory Site_Viz
  imports Js_Number
begin

text \<open>
  The comparison charts of the public site (\<^verbatim>\<open>website/assets/viz.js\<close>): the data, the size of an anonymity set under
  adoption and its display, the bars, the chips and the meters of the tracing game. Powers are supplied by the
  browser; what the canvases show is in \<^verbatim>\<open>Site_Charts\<close>.
\<close>

section \<open>Data\<close>

record Coin =
  co_name :: string
  co_color :: string
  co_scores :: "(string \<times> nat) list"

definition COINS :: "(string \<times> Coin) list" where
  "COINS = [
    (''obscura'', \<lparr>co_name = ''Obscura'', co_color = ''#00e6c3'',
       co_scores = [(''set'', 100), (''growth'', 100), (''leak'', 100), (''proof'', 95), (''setup'', 100), (''amount'', 92)]\<rparr>),
    (''monero'', \<lparr>co_name = ''Monero'', co_color = ''#ff7ad9'',
       co_scores = [(''set'', 35), (''growth'', 15), (''leak'', 40), (''proof'', 45), (''setup'', 100), (''amount'', 92)]\<rparr>),
    (''zcash'', \<lparr>co_name = ''Zcash'', co_color = ''#f4b728'',
       co_scores = [(''set'', 78), (''growth'', 68), (''leak'', 88), (''proof'', 88), (''setup'', 58), (''amount'', 92)]\<rparr>),
    (''bitcoin'', \<lparr>co_name = ''Bitcoin'', co_color = ''#9aa0b5'',
       co_scores = [(''set'', 3), (''growth'', 0), (''leak'', 4), (''proof'', 100), (''setup'', 100), (''amount'', 0)]\<rparr>),
    (''dash'', \<lparr>co_name = ''Dash'', co_color = ''#8b6cff'',
       co_scores = [(''set'', 22), (''growth'', 12), (''leak'', 18), (''proof'', 75), (''setup'', 100), (''amount'', 8)]\<rparr>)]"

definition DIMS :: "(string \<times> string) list" where
  "DIMS = [(''set'', ''Anonymity set''), (''growth'', ''Grows w/ adoption''), (''leak'', ''No decoy leakage''),
     (''proof'', ''Proof scales''), (''setup'', ''No trusted setup''), (''amount'', ''Amount privacy'')]"

definition barOrder :: "string list" where
  "barOrder = [''obscura'', ''zcash'', ''monero'', ''dash'', ''bitcoin'']"

definition coinScore :: "string \<Rightarrow> string \<Rightarrow> nat option" where
  "coinScore coin key = Option.bind (map_of COINS coin) (\<lambda>c. map_of (co_scores c) key)"

section \<open>Bars and chips\<close>

definition ease :: "(jsnum \<Rightarrow> jsnum \<Rightarrow> jsnum) \<Rightarrow> jsnum \<Rightarrow> jsnum" where
  "ease mpow t = numSub (Fin 1) (mpow (numSub (Fin 1) t) (Fin 3))"

definition progress :: "(jsnum \<Rightarrow> jsnum \<Rightarrow> jsnum) \<Rightarrow> jsnum \<Rightarrow> jsnum \<Rightarrow> jsnum \<Rightarrow> jsnum" where
  "progress mpow ts t0 duration = ease mpow (numMin (Fin 1) (numDiv (numSub ts t0) duration))"

text \<open>One frame of the bars: width and number for each coin, and whether another frame follows.\<close>

definition barsStep :: "(jsnum \<Rightarrow> jsnum \<Rightarrow> jsnum) \<Rightarrow> string \<Rightarrow> jsnum \<Rightarrow> jsnum \<Rightarrow> (string \<times> jsnum \<times> jsnum) list \<times> bool" where
  "barsStep mpow key ts t0 =
     (let p = progress mpow ts t0 (Fin 800)
      in (map (\<lambda>k. let t = Fin (of_nat (the (coinScore k key))) in (k, numMul t p, numRound (numMul t p))) barOrder, numLess p (Fin 1)))"

definition chips :: "nat \<Rightarrow> nat \<Rightarrow> bool list" where
  "chips n i = (map (\<lambda>_. False) [0..<n])[i := True]"

record Charts =
  ch_dim :: string
  ch_dimChips :: "bool list"
  ch_barT0 :: jsnum \<comment> \<open>start of the animation of the bars\<close>
  ch_coin :: string
  ch_coinChips :: "bool list"
  ch_radarT0 :: jsnum \<comment> \<open>start of the animation of the radar\<close>
  ch_legend :: "(string \<times> string) option" \<comment> \<open>colour and name of the coin compared\<close>

definition radarCoins :: "string list" where
  "radarCoins = [''monero'', ''zcash'', ''bitcoin'', ''dash'']"

definition startCharts :: Charts where
  "startCharts = \<lparr>ch_dim = ''set'', ch_dimChips = map (\<lambda>i. i = 0) [0..<length DIMS], ch_barT0 = Fin 0, ch_coin = ''monero'',
     ch_coinChips = map (\<lambda>i. i = 0) [0..<length radarCoins], ch_radarT0 = Fin 0, ch_legend = None\<rparr>"

definition animBars :: "jsnum \<Rightarrow> Charts \<Rightarrow> Charts" where
  "animBars clock s = s\<lparr>ch_barT0 := clock\<rparr>"

definition animRadar :: "jsnum \<Rightarrow> Charts \<Rightarrow> Charts" where
  "animRadar clock s =
     s\<lparr>ch_legend := map_option (\<lambda>c. (co_color c, co_name c)) (map_of COINS (ch_coin s)), ch_radarT0 := clock\<rparr>"

definition dimClick :: "nat \<Rightarrow> jsnum \<Rightarrow> Charts \<Rightarrow> Charts" where
  "dimClick i clock s = animBars clock (s\<lparr>ch_dim := fst (DIMS ! i), ch_dimChips := chips (length (ch_dimChips s)) i\<rparr>)"

definition coinClick :: "nat \<Rightarrow> jsnum \<Rightarrow> Charts \<Rightarrow> Charts" where
  "coinClick i clock s = animRadar clock (s\<lparr>ch_coin := radarCoins ! i, ch_coinChips := chips (length (ch_coinChips s)) i\<rparr>)"

section \<open>Growth\<close>

definition setSize :: "(jsnum \<Rightarrow> jsnum \<Rightarrow> jsnum) \<Rightarrow> string \<Rightarrow> jsnum \<Rightarrow> jsnum option" where
  "setSize mpow coin x =
     (if coin = ''obscura'' then Some (numMul (Fin 1000) (mpow (numDiv (Fin 50000000) (Fin 1000)) x))
      else if coin = ''zcash'' then Some (numMul (Fin 100) (mpow (numDiv (Fin 200000) (Fin 100)) x))
      else if coin = ''monero'' then Some (numAdd (Fin 11) (numMul (Fin 5) x))
      else if coin = ''dash'' then Some (numAdd (Fin 8) (numMul (Fin 8) x))
      else if coin = ''bitcoin'' then Some (Fin 1)
      else None)"

text \<open>The sizes are finite and below \<open>10\<^sup>2\<^sup>1\<close>, where \<^verbatim>\<open>toFixed\<close> prints digits.\<close>

definition fixedOf :: "nat \<Rightarrow> jsnum \<Rightarrow> jstr" where
  "fixedOf d x = (case x of Fin q \<Rightarrow> if \<bar>q\<bar> < 10 ^ 21 then toFixed d q else numberToString x | _ \<Rightarrow> numberToString x)"

definition fmtBig :: "jsnum \<Rightarrow> jstr" where
  "fmtBig n =
     (if n \<noteq> NaN \<and> \<not> numLess n (Fin 1000000)
      then fixedOf (if \<not> numLess n (Fin 10000000) then 0 else 1) (numDiv n (Fin 1000000)) @ js ''M''
      else if n \<noteq> NaN \<and> \<not> numLess n (Fin 1000) then fixedOf 0 (numDiv n (Fin 1000)) @ js ''k''
      else numberToString (numRound n))"

section \<open>The tracing game\<close>

record Trace =
  tr_phase :: nat
  tr_t0 :: jsnum
  tr_ring :: jsnum
  tr_obx :: jsnum
  tr_ringWidth :: jstr
  tr_ringText :: jstr
  tr_obxWidth :: jstr
  tr_obxText :: jstr

definition startTrace :: Trace where
  "startTrace = \<lparr>tr_phase = 0, tr_t0 = Fin 0, tr_ring = Fin 0, tr_obx = Fin 0, tr_ringWidth = [], tr_ringText = [], tr_obxWidth = [], tr_obxText = []\<rparr>"

definition traceClick :: "jsnum \<Rightarrow> Trace \<Rightarrow> Trace" where
  "traceClick clock s = s\<lparr>tr_phase := 1, tr_t0 := clock\<rparr>"

definition traceMeters :: "jsnum \<Rightarrow> Trace \<Rightarrow> Trace" where
  "traceMeters ts s =
     (if tr_phase s \<ge> 1
      then let el = numDiv (numSub ts (tr_t0 s)) (Fin 1000); a = numMin (Fin 1) el; ring = numRound (numMul (Fin 72) a)
           in s\<lparr>tr_ring := ring, tr_obx := Fin 0, tr_ringWidth := numberToString ring @ js ''%'',
                tr_ringText := numberToString ring @ js ''% traced'', tr_obxWidth := js ''2%'', tr_obxText := js ''untraceable''\<rparr>
      else s)"

section \<open>Correctness\<close>

lemma quotient_thousand:
  assumes "n < 1000000"
  shows "\<exists>q. numDiv (Fin (of_nat n)) (Fin 1000) = Fin q \<and> 0 \<le> q \<and> \<lfloor>q + 1 / 2\<rfloor> = int ((n + 500) div 1000)"
proof -
  define x where "x = rat_of_nat n / 1000"
  define k where "k = (n + 500) div 1000"
  define d where "d = doubleOf x"
  have x0: "0 \<le> x" by (simp add: x_def)
  have "n + 1 \<le> 1000 * k + 500" "1000 * k \<le> n + 500" unfolding k_def by linarith+
  then have "rat_of_nat (n + 1) \<le> of_nat (1000 * k + 500)" "rat_of_nat (1000 * k) \<le> of_nat (n + 500)" by (simp_all only: of_nat_le_iff)
  then have "rat_of_nat n + 1 \<le> 1000 * of_nat k + 500" "1000 * rat_of_nat k \<le> of_nat n + 500" by (simp_all only: of_nat_add of_nat_mult of_nat_1 of_nat_numeral)
  then have x: "x + 1 / 1000 \<le> of_nat k + 1 / 2" "of_nat k - 1 / 2 \<le> x" by (simp_all add: x_def)
  have "x < 2 powi 10" using assms by (simp add: x_def)
  then have "\<bar>d - x\<bar> \<le> 2 powi (10 - 54)" unfolding d_def using x0 by (intro doubleOf_close) simp_all
  also have "(2::rat) powi (10 - 54) < 1 / 1000" by (simp add: power_int_minus inverse_eq_divide)
  finally have c: "\<bar>d - x\<bar> < 1 / 1000" .
  have hi: "d + 1 / 2 < of_nat k + 1" using c x(1) by linarith
  have lo: "of_nat k - 1 / 2 \<le> d"
  proof (cases "k = 0")
    case True
    then show ?thesis using doubleOf_nonneg [OF x0] by (simp add: d_def)
  next
    case False
    have "k \<le> 1000" unfolding k_def using assms by simp
    then have "isDouble (of_nat k - 1 / 2)" unfolding isDouble_def
      by (intro exI [of _ "2 * int k - 1"] exI [of _ "- 1"]) (simp add: power_int_minus field_simps)
    then show ?thesis unfolding d_def using x(2) False by (intro doubleOf_ge) simp_all
  qed
  have "\<lfloor>d + 1 / 2\<rfloor> = int k" by (rule floor_unique) (use hi lo in simp_all)
  moreover have "\<bar>d\<bar> < 2 ^ 1024" 
  proof -
    have "\<bar>d\<bar> < 2 powi 10 + 1 / 1000" using c x0 \<open>x < 2 powi 10\<close> by linarith
    also have "\<dots> < (2 ^ 1024 :: rat)" by (simp add: power_int_def)
    finally show ?thesis .
  qed
  ultimately show ?thesis using doubleOf_nonneg [OF x0] by (simp add: toDouble_def d_def x_def k_def)
qed

text \<open>Numbers below a million are shown to the nearest thousand, halves up; so everything from 999500 on reads \<^verbatim>\<open>1000k\<close>
  and not \<^verbatim>\<open>1.0M\<close>.\<close>

theorem fmtBig_display:
  assumes "1000 \<le> n" and "n < 1000000"
  shows "fmtBig (Fin (of_nat n)) = decimal ((n + 500) div 1000) @ js ''k''"
    and "999500 \<le> n \<Longrightarrow> fmtBig (Fin (of_nat n)) = js ''1000k''"
proof -
  obtain q where q: "numDiv (Fin (of_nat n)) (Fin 1000) = Fin q" "0 \<le> q" "\<lfloor>q + 1 / 2\<rfloor> = int ((n + 500) div 1000)"
    using quotient_thousand [OF assms(2)] by blast
  have c: "rat_of_nat 1000 \<le> of_nat n" "rat_of_nat n < of_nat 1000000" using assms by (simp_all only: of_nat_le_iff of_nat_less_iff)
  have "q < 10 ^ 21"
  proof -
    have "\<lfloor>q + 1 / 2\<rfloor> < 1001" using q(3) assms(2) by simp
    then have "q < 1001" by (simp add: floor_less_iff)
    also have "(1001::rat) < 10 ^ 21" by simp
    finally show ?thesis .
  qed
  then have "fixedOf 0 (Fin q) = decimal ((n + 500) div 1000)" using q(2,3) by (simp add: fixedOf_def toFixed_def pointed_def Let_def Suc_le_eq)
  then show a: "fmtBig (Fin (of_nat n)) = decimal ((n + 500) div 1000) @ js ''k''"
    unfolding fmtBig_def q(1) using c by simp
  assume "999500 \<le> n"
  then have "(n + 500) div 1000 = 1000" using assms(2) by simp
  moreover have "decimal 1000 = js ''1000''" by (simp add: decimal_div decimal_small js_def)
  ultimately show "fmtBig (Fin (of_nat n)) = js ''1000k''" using a by (simp add: js_def)
qed

end
