(* ===== verification/Site_Charts.thy ===== *)
theory Site_Charts
  imports Site_Canvas Site_Viz
begin

text \<open>
  What the comparison charts of the public site paint (\<^verbatim>\<open>website/assets/viz.js\<close>): radar, bars, growth chart and tracing
  game, as commands for the canvas and as markup. The functions of \<^verbatim>\<open>Math\<close> and the layout are arguments. The theorem says that
  the charts can be painted, and how many outputs the tracing game lights up.
\<close>

section \<open>Sizes\<close>

text \<open>The width and height read back from a canvas are whole numbers; layouts are smaller than \<open>2\<^sup>3\<^sup>1\<close> pixels.\<close>

definition fitCanvas :: "jsnum \<Rightarrow> jsnum \<Rightarrow> jsnum \<Rightarrow> Screen" where
  "fitCanvas width height dpr =
     (let d = numMin (if dpr = Fin 0 \<or> dpr = NaN then num 1 else dpr) (num 2)
      in \<lparr>scW = numFloor (numMax (num 1) (width * d)), scH = numFloor (numMax (num 1) (height * d)), scD = d\<rparr>)"

definition moveOrLine :: "nat \<Rightarrow> jsnum \<Rightarrow> jsnum \<Rightarrow> ctxCmd" where
  "moveOrLine i x y = (if i = 0 then CMove x y else CLine x y)"

definition scoreOf :: "Coin \<Rightarrow> string \<Rightarrow> jsnum" where
  "scoreOf coin key = (case map_of (co_scores coin) key of Some n \<Rightarrow> num n | None \<Rightarrow> NaN)"

definition coinOf :: "string \<Rightarrow> Coin" where
  "coinOf k = the (map_of COINS k)"

section \<open>Radar\<close>

definition radarR :: "Screen \<Rightarrow> jsnum" where
  "radarR s = numMin (scW s) (scH s) * dec (36 / 100)"

definition radarX :: "Screen \<Rightarrow> jsnum" where
  "radarX s = scW s / num 2"

definition radarY :: "Screen \<Rightarrow> jsnum" where
  "radarY s = scH s / num 2 + num 6 * scD s"

definition ang :: "nat \<Rightarrow> jsnum" where
  "ang i = (- mathPI) / num 2 + (num i * num 2 * mathPI) / num (length DIMS)"

definition drawRadar :: "Maths \<Rightarrow> Screen \<Rightarrow> ctxCmd list" where
  "drawRadar m s =
     (let w = scW s; h = scH s; d = scD s; cx = radarX s; cy = radarY s; R = radarR s; n = length DIMS
      in [CSize w h, CClear w h]
         @ concat (map (\<lambda>g. [CBegin]
             @ map (\<lambda>i. let a = ang (i mod n); rr = (R * num g) / num 4
                        in moveOrLine i (cx + ma_cos m a * rr) (cy + ma_sin m a * rr)) [0..<Suc n]
             @ [CStrokeStyle (js ''rgba(255,255,255,0.07)''), CLineWidth d, CStroke]) [1..<5])
         @ [CFont (pxFont (num 11 * d) ''\"Space Grotesk\", sans-serif'')]
         @ concat (map (\<lambda>i. let a = ang i
             in [CBegin, CMove cx cy, CLine (cx + ma_cos m a * R) (cy + ma_sin m a * R), CStrokeStyle (js ''rgba(255,255,255,0.07)''), CStroke,
                 CFillStyle (js ''#969cb6''),
                 CAlign (if numAbs (ma_cos m a) < dec (3 / 10) then ''center'' else if num 0 < ma_cos m a then ''left'' else ''right''),
                 CBaseline ''middle'',
                 CText (js (snd (DIMS ! i))) (cx + ma_cos m a * (R + num 16 * d)) (cy + ma_sin m a * (R + num 16 * d))]) [0..<n]))"

definition plot :: "Maths \<Rightarrow> Screen \<Rightarrow> Coin \<Rightarrow> jsnum \<Rightarrow> ctxCmd list" where
  "plot m s coin prog =
     (let d = scD s; cx = radarX s; cy = radarY s; R = radarR s; n = length DIMS;
          v = (\<lambda>i. (scoreOf coin (fst (DIMS ! i)) / num 100) * prog);
          x = (\<lambda>i. cx + ma_cos m (ang i) * R * v i); y = (\<lambda>i. cy + ma_sin m (ang i) * R * v i)
      in [CBegin] @ map (\<lambda>i. moveOrLine i (x i) (y i)) [0..<n]
         @ [CClose, CFillStyle (js (co_color coin @ ''26'')), CFill, CStrokeStyle (js (co_color coin)), CLineWidth (num 2 * d), CStroke]
         @ concat (map (\<lambda>i. [CBegin, CArc (x i) (y i) (num 3 * d) (num 0) (num 7), CFillStyle (js (co_color coin)), CFill]) [0..<n]))"

text \<open>A frame of the radar, and whether another one follows.\<close>

definition radarStep :: "Maths \<Rightarrow> Screen \<Rightarrow> jsnum \<Rightarrow> Charts \<Rightarrow> ctxCmd list \<times> bool" where
  "radarStep m s ts c =
     (let p = progress (ma_pow m) ts (ch_radarT0 c) (num 700)
      in (drawRadar m s @ plot m s (coinOf (ch_coin c)) p @ plot m s (coinOf ''obscura'') p, p < num 1))"

section \<open>Bars\<close>

definition buildBars :: jstr where
  "buildBars = concat (map (\<lambda>k. let c = coinOf k in
     js ''<div class=\"bar-row\"><span class=\"bar-name\" style=\"color:'' @ js (if k = ''obscura'' then co_color c else ''#cfd3e6'') @ js ''\">'' @ js (co_name c) @ js ''</span>''
     @ [10] @ replicate 8 32 @ js ''<div class=\"bar-track\"><div class=\"bar-fill\" data-k=\"'' @ js k @ js ''\" style=\"background:'' @ js (co_color c) @ js ''\"></div></div>''
     @ [10] @ replicate 8 32 @ js ''<span class=\"bar-val\" data-k=\"'' @ js k @ js ''\">0</span></div>'') barOrder)"

section \<open>Growth\<close>

definition sizeOf :: "Maths \<Rightarrow> string \<Rightarrow> jsnum \<Rightarrow> jsnum" where
  "sizeOf m k x = (case setSize (ma_pow m) k x of Some v \<Rightarrow> v | None \<Rightarrow> NaN)"

definition growthX :: "Screen \<Rightarrow> jsnum \<Rightarrow> jsnum" where
  "growthX s x = (let padL = num 42 * scD s; padR = num 12 * scD s in padL + x * (scW s - padL - padR))"

definition growthY :: "Maths \<Rightarrow> Screen \<Rightarrow> jsnum \<Rightarrow> jsnum" where
  "growthY m s v =
     (let padB = num 26 * scD s; padT = num 14 * scD s
      in (scH s - padB) - ((ma_log10 m (numMax (num 1) v) - num 0) / (num 8 - num 0)) * (scH s - padB - padT))"

definition growthCoins :: "string list" where
  "growthCoins = [''bitcoin'', ''dash'', ''monero'', ''zcash'', ''obscura'']"

definition drawGrowth :: "Maths \<Rightarrow> Screen \<Rightarrow> jsnum \<Rightarrow> ctxCmd list" where
  "drawGrowth m s xMark =
     (let w = scW s; h = scH s; d = scD s; padL = num 42 * d; padB = num 26 * d; padT = num 14 * d; padR = num 12 * d; mx = growthX s xMark
      in [CSize w h, CClear w h, CFont (pxFont (num 10 * d) ''ui-monospace, monospace''), CBaseline ''middle'']
         @ concat (map (\<lambda>e. let y = growthY m s (ma_pow m (num 10) (num e))
             in [CStrokeStyle (js ''rgba(255,255,255,0.06)''), CLineWidth d, CBegin, CMove padL y, CLine (w - padR) y, CStroke,
                 CFillStyle (js ''#6c7290''), CAlign ''right'', CText (js ''10^'' @ decimal e) (padL - num 6 * d) y]) [0, 2, 4, 6, 8])
         @ concat (map (\<lambda>k. [CBegin]
             @ map (\<lambda>i. let x = num i / num 100 in moveOrLine i (growthX s x) (growthY m s (sizeOf m k x))) [0..<101]
             @ [CStrokeStyle (js (co_color (coinOf k))), CLineWidth ((if k = ''obscura'' then num 3 else num 2) * d),
                CAlpha (if k = ''obscura'' then num 1 else dec (85 / 100)), CStroke, CAlpha (num 1)]) growthCoins)
         @ [CStrokeStyle (js ''rgba(255,255,255,0.25)''), CDash [num 4 * d, num 4 * d], CBegin, CMove mx padT, CLine mx (h - padB), CStroke, CDash []]
         @ concat (map (\<lambda>k. [CBegin, CArc mx (growthY m s (sizeOf m k xMark)) (dec (35 / 10) * d) (num 0) (num 7),
             CFillStyle (js (co_color (coinOf k))), CFill]) growthCoins)
         @ [CFillStyle (js ''#6c7290''), CAlign ''right'', CText (js ''adoption '' @ [0x2192]) (w - padR) (h - padB + num 16 * d)])"

definition updateGrowthRead :: "Maths \<Rightarrow> jsnum \<Rightarrow> jstr" where
  "updateGrowthRead m x = concat (map (\<lambda>k.
     js ''<span class=\"gr\" style=\"color:'' @ js (co_color (coinOf k)) @ js ''\">'' @ js (co_name (coinOf k)) @ js '': <b>''
     @ fmtBig (sizeOf m k x) @ js ''</b></span>'') barOrder)"

text \<open>The handler of the slider; without a slider the chart shows full adoption.\<close>

definition redraw :: "Maths \<Rightarrow> Screen \<Rightarrow> jsnum option \<Rightarrow> ctxCmd list \<times> jstr" where
  "redraw m s slider = (let x = (case slider of Some v \<Rightarrow> v / num 100 | None \<Rightarrow> num 1) in (drawGrowth m s x, updateGrowthRead m x))"

section \<open>Trace the money\<close>

record TraceNode =
  tn_side :: nat
  tn_x :: jsnum
  tn_y :: jsnum
  tn_ph :: jsnum

definition layout :: "(nat \<Rightarrow> jsnum) \<Rightarrow> Screen \<Rightarrow> TraceNode list" where
  "layout rnd s =
     (let half = scW s / num 2; d = scD s
      in concat (map (\<lambda>side.
           let ox = num side * half; padX = num 26 * d; padY = num 30 * d;
               gx = (half - padX * num 2) / num 9; gy = (scH s - padY * num 2) / num 5
           in map (\<lambda>i. let c = i mod 10; r = i div 10
                      in \<lparr>tn_side = side, tn_x = ox + padX + num c * gx, tn_y = padY + num r * gy, tn_ph = rnd (60 * side + i) * num 7\<rparr>) [0..<60])
         [0, 1]))"

definition target :: nat where
  "target = 25"

definition ringSuspects :: "nat list" where
  "ringSuspects = [target, target + 1, target - 1, target + 10, target - 9]"

text \<open>Colour and radius of one output.\<close>

definition nodeLook :: "Maths \<Rightarrow> Screen \<Rightarrow> jsnum \<Rightarrow> Trace \<Rightarrow> nat \<Rightarrow> TraceNode \<Rightarrow> jstr \<times> jsnum" where
  "nodeLook m s ts tr i nd =
     (let d = scD s; el = (ts - tr_t0 tr) / num 1000; pulse = dec (1 / 2) + dec (1 / 2) * ma_sin m (ts / num 600 + tn_ph nd);
          a = numMin (num 1) (el * dec (3 / 2)); dim = (js ''rgba(120,124,150,0.22)'', num 3 * d)
      in if tr_phase tr \<ge> 1
         then if tn_side nd = 0
              then if i mod 60 \<in> set ringSuspects
                   then (rgba ''255,90,90'' (dec (4 / 10) + dec (1 / 2) * a), (num 3 + num 2 * a) * d)
                   else dim
              else (rgba ''0,230,195'' (dec (3 / 10) + dec (35 / 100) * pulse * a), (num 3 + pulse) * d)
         else dim)"

definition drawTrace :: "Maths \<Rightarrow> Screen \<Rightarrow> jsnum \<Rightarrow> Trace \<Rightarrow> TraceNode list \<Rightarrow> ctxCmd list" where
  "drawTrace m s ts tr nodes =
     (let w = scW s; h = scH s; d = scD s
      in [CClear w h, CStrokeStyle (js ''rgba(255,255,255,0.1)''), CLineWidth d, CBegin, CMove (w / num 2) (num 8 * d),
          CLine (w / num 2) (h - num 8 * d), CStroke]
         @ concat (map (\<lambda>i. let nd = nodes ! i; (color, R) = nodeLook m s ts tr i nd
             in [CBegin, CArc (tn_x nd) (tn_y nd) R (num 0) (num 7), CFillStyle color, CFill]) [0..<length nodes])
         @ [CFont (pxFont (num 12 * d) ''\"Space Grotesk\", sans-serif''), CBaseline ''top'', CAlign ''center'',
            CFillStyle (js ''rgba(255,90,90,0.9)''), CText (js ''Ring-signature coin'') (w / num 4) (num 8 * d),
            CFillStyle (js ''#00e6c3''), CText (js ''Obscura'') ((num 3 * w) / num 4) (num 8 * d)])"

text \<open>A frame: the picture, then the meters and the request for the next frame, unless the picture throws.\<close>

definition traceFrame :: "Maths \<Rightarrow> Screen \<Rightarrow> jsnum \<Rightarrow> TraceNode list \<Rightarrow> Ctx \<times> Trace \<Rightarrow> (Ctx \<times> Trace) \<times> bool" where
  "traceFrame m s ts nodes = (\<lambda>(c, tr).
     case paint (drawTrace m s ts tr nodes) c of
       (None, c') \<Rightarrow> ((c', traceMeters ts tr), True)
     | (Some e, c') \<Rightarrow> ((c', tr), False))"

section \<open>Correctness\<close>

lemma fitCanvas_nn: "nn dpr \<Longrightarrow> nn (scD (fitCanvas width height dpr))"
  by (simp add: fitCanvas_def Let_def sign_intros)

lemma ok_map [ok_simps]: "list_all P (map f xs) \<longleftrightarrow> (\<forall>x \<in> set xs. P (f x))"
  by (auto simp: list_all_iff)

lemma ok_moveOrLine [ok_simps]: "okCmd (moveOrLine i x y)"
  by (simp add: moveOrLine_def)

lemma radar_ok: "nn (scD s) \<Longrightarrow> list_all okCmd (fst (radarStep m s ts c))"
  by (simp add: radarStep_def drawRadar_def plot_def Let_def ok_simps sign_intros)

lemma growth_ok: "nn (scD s) \<Longrightarrow> list_all okCmd (drawGrowth m s x)"
  by (simp add: drawGrowth_def Let_def ok_simps sign_intros)

text \<open>Lower bounds through the operations on doubles.\<close>

lemma notBelow_scale:
  assumes "notBelow b x" and "0 < c" and "isDouble (b * c)" and "- (2 ^ 1023) \<le> b * c"
  shows "notBelow (b * c) (x * Fin c)" and "notBelow (b * c) (Fin c * x)"
proof -
  show "notBelow (b * c) (x * Fin c)" using assms by (cases x) (auto simp: times_jsnum_def intro!: notBelow_toDouble)
  moreover have "Fin c * x = x * Fin c" by (cases x) (auto simp: times_jsnum_def mult.commute)
  ultimately show "notBelow (b * c) (Fin c * x)" by simp
qed

lemma notBelow_shift: "notBelow (- c) x \<Longrightarrow> nn (Fin c + x)"
  by (cases x) (auto simp: plus_jsnum_def nn_toDouble)

lemma notBelow_thousandth: "notBelow (- 1000) x \<Longrightarrow> notBelow (- 1) (x / num 1000)"
  using isDouble_of_int [of "- 1"] by (cases x) (auto simp: divide_jsnum_def num_def intro!: notBelow_toDouble)

lemma notBelow_numMin: "notBelow b x \<Longrightarrow> notBelow b y \<Longrightarrow> notBelow b (numMin x y)"
  by (simp add: numMin_def)

lemma isDouble_three_halves: "isDouble (- (3 / 2))" "dec (3 / 2) = Fin (3 / 2)"
proof -
  show "isDouble (- (3 / 2))"
    unfolding isDouble_def by (rule exI [of _ "- 3"], rule exI [of _ "- 1"]) (simp add: power_int_minus)
  then have "isDouble (3 / 2)" using isDouble_minus [of "- (3 / 2)"] by simp
  then show "dec (3 / 2) = Fin (3 / 2)" using doubleOf_exact [of "3 / 2"] by (simp add: dec_def toDouble_def)
qed

text \<open>The radius of a suspect, up to a second before the start.\<close>

lemma suspect_radius:
  assumes "notBelow (- 1000) (ts - t0)"
  shows "nn (num 3 + num 2 * numMin (num 1) ((ts - t0) / num 1000 * dec (3 / 2)))"
proof -
  have "notBelow (- 1 * (3 / 2)) ((ts - t0) / num 1000 * Fin (3 / 2))"
    by (rule notBelow_scale(1) [OF notBelow_thousandth [OF assms]]) (use isDouble_three_halves(1) in simp_all)
  then have "notBelow (- (3 / 2)) (numMin (num 1) ((ts - t0) / num 1000 * dec (3 / 2)))"
    unfolding isDouble_three_halves(2) by (intro notBelow_numMin) (simp_all add: num_def)
  then have "notBelow (- (3 / 2) * 2) (Fin 2 * numMin (num 1) ((ts - t0) / num 1000 * dec (3 / 2)))"
    by (rule notBelow_scale(2)) (use isDouble_of_int [of "- 3"] in simp_all)
  then show ?thesis using notBelow_shift [of 3] by (simp add: num_def)
qed

lemma trace_ok:
  assumes "\<forall>x. notBelow (- 1) (ma_sin m x)" and "nn (scD s)" and "notBelow (- 1000) (ts - tr_t0 tr)"
  shows "list_all okCmd (drawTrace m s ts tr nodes)"
proof -
  have "nn (snd (nodeLook m s ts tr i nd))" for i nd
    using assms suspect_radius [OF assms(3)] by (auto simp: nodeLook_def Let_def sign_intros)
  then show ?thesis by (auto simp: drawTrace_def Let_def ok_simps split: prod.split) (metis snd_conv)
qed

lemma layout_side: "i < 120 \<Longrightarrow> tn_side (layout rnd s ! i) = i div 60"
  by (auto simp: layout_def Let_def nth_append)

lemma dim_colour: "rgba ''255,90,90'' a \<noteq> js ''rgba(120,124,150,0.22)''" "rgba ''0,230,195'' a \<noteq> js ''rgba(120,124,150,0.22)''"
  by (simp_all add: rgba_def js_def)

text \<open>\<^bold>\<open>C39.\<close> The charts can be painted for every layout, pixel ratio and coin: radar and growth chart at any time, the tracing game at any time
  from a second before its start, so that its loop never stops: a frame may well carry an earlier time than the click it follows. In the game exactly five of the sixty outputs of the ring coin light up as suspects, and all sixty
  of the other side alike.\<close>

theorem charts_paint:
  assumes "\<forall>x. notBelow (- 1) (ma_sin m x)" and "s = fitCanvas width height dpr" and "nn dpr" and "notBelow (- 1000) (ts - tr_t0 tr)" and "tr_phase tr = 1"
  shows "fst (paint (fst (radarStep m s ts' c)) ctx) = None \<and> fst (paint (fst (redraw m s slider)) ctx) = None
    \<and> (\<exists>ctx'. traceFrame m s ts nodes (ctx, tr) = ((ctx', traceMeters ts tr), True))
    \<and> filter (\<lambda>i. fst (nodeLook m s ts tr i (layout rnd s ! i)) \<noteq> js ''rgba(120,124,150,0.22)'') [0..<120] = [16, 24, 25, 26, 35] @ [60..<120]"
proof (intro conjI)
  have d: "nn (scD s)" using assms(2,3) fitCanvas_nn by simp
  show "fst (paint (fst (radarStep m s ts' c)) ctx) = None" using paint_ok [OF radar_ok [OF d]] by simp
  show "fst (paint (fst (redraw m s slider)) ctx) = None" using paint_ok [OF growth_ok [OF d]] by (simp add: redraw_def Let_def)
  show "\<exists>ctx'. traceFrame m s ts nodes (ctx, tr) = ((ctx', traceMeters ts tr), True)"
    using paint_ok [OF trace_ok [OF assms(1) d assms(4)]] by (simp add: traceFrame_def)
  have "fst (nodeLook m s ts tr i (layout rnd s ! i)) \<noteq> js ''rgba(120,124,150,0.22)'' \<longleftrightarrow> 60 \<le> i \<or> i \<in> {16, 24, 25, 26, 35}" if "i < 120" for i
    using that assms(5) by (auto simp: nodeLook_def Let_def layout_side dim_colour ringSuspects_def target_def)
  then have "filter (\<lambda>i. fst (nodeLook m s ts tr i (layout rnd s ! i)) \<noteq> js ''rgba(120,124,150,0.22)'') [0..<120]
      = filter (\<lambda>i. 60 \<le> i \<or> i \<in> {16, 24, 25, 26, 35}) [0..<120]" by (intro filter_cong) auto
  also have "\<dots> = [16, 24, 25, 26, 35] @ [60..<120]" by (simp add: upt_rec)
  finally show "filter (\<lambda>i. fst (nodeLook m s ts tr i (layout rnd s ! i)) \<noteq> js ''rgba(120,124,150,0.22)'') [0..<120] = [16, 24, 25, 26, 35] @ [60..<120]" .
qed

theorem charts_paint_witness:
  "\<exists>c. traceFrame plainMaths (fitCanvas (Fin 640) (Fin 360) (Fin 1)) (Fin 2000) (layout (\<lambda>_. Fin 0) (fitCanvas (Fin 640) (Fin 360) (Fin 1)))
      (freshCtx, traceClick (Fin 1000) startTrace) = ((c, traceMeters (Fin 2000) (traceClick (Fin 1000) startTrace)), True)"
  using numSub_int [of 2000 1000] charts_paint [of plainMaths "fitCanvas (Fin 640) (Fin 360) (Fin 1)" "Fin 640" "Fin 360" "Fin 1" "Fin 2000" "traceClick (Fin 1000) startTrace"
    "Fin 0" startCharts freshCtx None "layout (\<lambda>_. Fin 0) (fitCanvas (Fin 640) (Fin 360) (Fin 1))" "\<lambda>_. Fin 0"]
  by (simp add: plainMaths_def traceClick_def startTrace_def minus_jsnum_def)

end
