(* ===== verification/Site_Compare.thy ===== *)
theory Site_Compare
  imports Site_Charts Event_System
begin

text \<open>
  The whole script of the comparison charts (\<^verbatim>\<open>website/assets/viz.js\<close>) as a system of events: tabs, slider, tracing game, the observer
  that starts bars and radar when the section is first seen, animation frames and resizing. Every \<^verbatim>\<open>step\<close> that waits for
  the next frame is part of the state, together with the elements it captured. The theorems say that the
  bars come to rest on the right values, and what a resize does to the radar.
\<close>

section \<open>State\<close>

record Layout =
  lo_radar :: "jsnum \<times> jsnum" \<comment> \<open>width and height of the canvas\<close>
  lo_growth :: "jsnum \<times> jsnum"
  lo_trace :: "jsnum \<times> jsnum"
  lo_dpr :: jsnum

record Viz =
  vz_charts :: Charts
  vz_watching :: bool \<comment> \<open>the observer is connected\<close>
  vz_built :: nat \<comment> \<open>how often the rows of bars have been built\<close>
  vz_bars :: "(string \<times> jsnum option \<times> jsnum) list" \<comment> \<open>coin, width in per cent once set, number\<close>
  vz_barLoops :: "nat list" \<comment> \<open>waiting steps of bars: the rows each captured; 0 if there were none\<close>
  vz_radarLoops :: nat \<comment> \<open>waiting steps of the radar\<close>
  vz_radar :: Ctx
  vz_slider :: jsnum
  vz_growth :: Ctx
  vz_read :: jstr
  vz_trace :: Trace
  vz_traceScreen :: Screen
  vz_nodes :: "TraceNode list"
  vz_traceCtx :: Ctx
  vz_traceLoop :: bool \<comment> \<open>the loop of the tracing game waits for a frame\<close>

datatype vizEvent =
    DimTab nat jsnum | CoinTab nat jsnum \<comment> \<open>chip clicked, and the clock\<close>
  | Seen "(bool \<times> jsnum \<times> jsnum) list" \<comment> \<open>entries of the observer, with the clock as bars and radar start\<close>
  | Slide jsnum Layout
  | TraceGo jsnum
  | Tick jsnum Layout \<comment> \<open>an animation frame\<close>
  | Resized Layout "nat \<Rightarrow> jsnum" \<comment> \<open>new layout, and what \<^verbatim>\<open>Math.random\<close> gives\<close>

definition fitOf :: "(jsnum \<times> jsnum) \<Rightarrow> Layout \<Rightarrow> Screen" where
  "fitOf wh lo = fitCanvas (fst wh) (snd wh) (lo_dpr lo)"

section \<open>Bars and radar\<close>

text \<open>The rows are built anew; steps that captured older rows no longer show anything.\<close>

definition showRows :: "Viz \<Rightarrow> Viz" where
  "showRows s = s\<lparr>vz_built := Suc (vz_built s), vz_bars := map (\<lambda>k. (k, None, Fin 0)) barOrder\<rparr>"

definition startBars :: "jsnum \<Rightarrow> Viz \<Rightarrow> Viz" where
  "startBars clock s = s\<lparr>vz_charts := animBars clock (vz_charts s), vz_barLoops := vz_barLoops s @ [vz_built s]\<rparr>"

definition startRadar :: "jsnum \<Rightarrow> Viz \<Rightarrow> Viz" where
  "startRadar clock s = s\<lparr>vz_charts := animRadar clock (vz_charts s), vz_radarLoops := Suc (vz_radarLoops s)\<rparr>"

definition dimTab :: "nat \<Rightarrow> jsnum \<Rightarrow> Viz \<Rightarrow> Viz" where
  "dimTab i clock s = s\<lparr>vz_charts := dimClick i clock (vz_charts s), vz_barLoops := vz_barLoops s @ [vz_built s]\<rparr>"

definition coinTab :: "nat \<Rightarrow> jsnum \<Rightarrow> Viz \<Rightarrow> Viz" where
  "coinTab i clock s = s\<lparr>vz_charts := coinClick i clock (vz_charts s), vz_radarLoops := Suc (vz_radarLoops s)\<rparr>"

definition entrySeen :: "bool \<times> jsnum \<times> jsnum \<Rightarrow> Viz \<Rightarrow> Viz" where
  "entrySeen = (\<lambda>(intersecting, barClock, radarClock) s.
     if intersecting then (startRadar radarClock (startBars barClock (showRows s)))\<lparr>vz_watching := False\<rparr> else s)"

text \<open>One waiting step of the bars.\<close>

definition barLoop :: "Maths \<Rightarrow> jsnum \<Rightarrow> nat \<Rightarrow> Viz \<Rightarrow> Viz" where
  "barLoop m ts rows s =
     (let (vs, again) = barsStep (ma_pow m) (ch_dim (vz_charts s)) ts (ch_barT0 (vz_charts s));
          s = (if 0 < rows \<and> rows = vz_built s then s\<lparr>vz_bars := map (\<lambda>(k, w, v). (k, Some w, v)) vs\<rparr> else s)
      in if again then s\<lparr>vz_barLoops := vz_barLoops s @ [rows]\<rparr> else s)"

text \<open>One waiting step of the radar: an exception ends it before it asks for the next frame.\<close>

definition radarLoop :: "Maths \<Rightarrow> jsnum \<Rightarrow> Layout \<Rightarrow> Viz \<Rightarrow> Viz" where
  "radarLoop m ts lo s =
     (let (cmds, again) = radarStep m (fitOf (lo_radar lo) lo) ts (vz_charts s)
      in case paint cmds (vz_radar s) of
           (None, c) \<Rightarrow> s\<lparr>vz_radar := c, vz_radarLoops := vz_radarLoops s + (if again then 1 else 0)\<rparr>
         | (Some _, c) \<Rightarrow> s\<lparr>vz_radar := c\<rparr>)"

section \<open>Growth chart and tracing game\<close>

definition growthRedraw :: "Maths \<Rightarrow> Layout \<Rightarrow> Viz \<Rightarrow> Viz" where
  "growthRedraw m lo s =
     (let (cmds, text) = redraw m (fitOf (lo_growth lo) lo) (Some (vz_slider s))
      in case paint cmds (vz_growth s) of
           (None, c) \<Rightarrow> s\<lparr>vz_growth := c, vz_read := text\<rparr>
         | (Some _, c) \<Rightarrow> s\<lparr>vz_growth := c\<rparr>)"

definition traceSize :: "Layout \<Rightarrow> (nat \<Rightarrow> jsnum) \<Rightarrow> Viz \<Rightarrow> Viz" where
  "traceSize lo rnd s =
     (let scr = fitOf (lo_trace lo) lo
      in s\<lparr>vz_traceScreen := scr, vz_nodes := layout rnd scr, vz_traceCtx := execCmd (CSize (scW scr) (scH scr)) (vz_traceCtx s)\<rparr>)"

definition traceTick :: "Maths \<Rightarrow> jsnum \<Rightarrow> Viz \<Rightarrow> Viz" where
  "traceTick m ts s =
     (if vz_traceLoop s
      then let ((c, tr), again) = traceFrame m (vz_traceScreen s) ts (vz_nodes s) (vz_traceCtx s, vz_trace s)
           in s\<lparr>vz_traceCtx := c, vz_trace := tr, vz_traceLoop := again\<rparr>
      else s)"

section \<open>Events\<close>

text \<open>The script as it is loaded.\<close>

definition startViz :: "Maths \<Rightarrow> Layout \<Rightarrow> (nat \<Rightarrow> jsnum) \<Rightarrow> jsnum \<Rightarrow> Viz" where
  "startViz m lo rnd slider =
     traceSize lo rnd (growthRedraw m lo
       \<lparr>vz_charts = startCharts, vz_watching = True, vz_built = 0, vz_bars = [], vz_barLoops = [], vz_radarLoops = 0, vz_radar = freshCtx,
        vz_slider = slider, vz_growth = freshCtx, vz_read = [], vz_trace = startTrace, vz_traceScreen = \<lparr>scW = NaN, scH = NaN, scD = NaN\<rparr>,
        vz_nodes = [], vz_traceCtx = freshCtx, vz_traceLoop = True\<rparr>)"

definition vizTick :: "Maths \<Rightarrow> jsnum \<Rightarrow> Layout \<Rightarrow> Viz \<Rightarrow> Viz" where
  "vizTick m ts lo s =
     (let s = traceTick m ts s;
          s = fold (barLoop m ts) (vz_barLoops s) (s\<lparr>vz_barLoops := []\<rparr>)
      in (radarLoop m ts lo ^^ vz_radarLoops s) (s\<lparr>vz_radarLoops := 0\<rparr>))"

text \<open>Resizing redraws the growth chart, lays out the tracing game, and draws the radar without its coins.\<close>

definition vizResize :: "Maths \<Rightarrow> Layout \<Rightarrow> (nat \<Rightarrow> jsnum) \<Rightarrow> Viz \<Rightarrow> Viz" where
  "vizResize m lo rnd s =
     (let s = traceSize lo rnd (growthRedraw m lo s)
      in s\<lparr>vz_radar := snd (paint (drawRadar m (fitOf (lo_radar lo) lo)) (vz_radar s))\<rparr>)"

fun vizHandle :: "Maths \<Rightarrow> vizEvent \<Rightarrow> Viz \<Rightarrow> Viz option" where
  "vizHandle m (DimTab i clock) s = (if i < length DIMS then Some (dimTab i clock s) else None)"
| "vizHandle m (CoinTab i clock) s = (if i < length radarCoins then Some (coinTab i clock s) else None)"
| "vizHandle m (Seen es) s = (if vz_watching s then Some (fold entrySeen es s) else None)"
| "vizHandle m (Slide v lo) s = Some (growthRedraw m lo (s\<lparr>vz_slider := v\<rparr>))"
| "vizHandle m (TraceGo clock) s = Some (s\<lparr>vz_trace := traceClick clock (vz_trace s)\<rparr>)"
| "vizHandle m (Tick ts lo) s = Some (vizTick m ts lo s)"
| "vizHandle m (Resized lo rnd) s = Some (vizResize m lo rnd s)"

section \<open>Progress of an animation\<close>







section \<open>Bars\<close>





section \<open>Radar\<close>


section \<open>The invariant\<close>








lemma chips_length [simp]: "length (chips n i) = n"
  by (simp add: chips_def)






lemma growthRedraw_keeps:
  "vz_charts (growthRedraw m lo s) = vz_charts s" "vz_built (growthRedraw m lo s) = vz_built s" "vz_bars (growthRedraw m lo s) = vz_bars s"
  "vz_barLoops (growthRedraw m lo s) = vz_barLoops s" "vz_traceScreen (growthRedraw m lo s) = vz_traceScreen s"
  "vz_traceLoop (growthRedraw m lo s) = vz_traceLoop s" "vz_radar (growthRedraw m lo s) = vz_radar s" "vz_radarLoops (growthRedraw m lo s) = vz_radarLoops s"
  by (simp_all add: growthRedraw_def Let_def split: prod.split option.split)





section \<open>A frame\<close>








section \<open>Which coins the radar shows\<close>

text \<open>The filled polygon of a coin is on the canvas.\<close>

definition painted :: "Coin \<Rightarrow> Ctx \<Rightarrow> bool" where
  "painted coin c \<longleftrightarrow> (\<exists>path a. (path, js (co_color coin @ ''26''), a) \<in> set (cx_ink c) \<and> CClose \<in> set path)"








text \<open>The grid has no closed path.\<close>

definition openInk :: "Ctx \<Rightarrow> bool" where
  "openInk c \<longleftrightarrow> CClose \<notin> set (cx_path c) \<and> (\<forall>x \<in> set (cx_ink c). CClose \<notin> set (fst x))"

lemma openInk_fold: "list_all (\<lambda>cmd. cmd \<noteq> CClose) cmds \<Longrightarrow> openInk c \<Longrightarrow> openInk (fold execCmd cmds c)"
proof (induction cmds arbitrary: c)
  case (Cons cmd cmds)
  have "openInk (execCmd cmd c)" using Cons.prems by (cases cmd) (auto simp: openInk_def freshCtx_def)
  then show ?case using Cons.IH Cons.prems(1) by simp
qed simp

lemma radar_grid_open:
  assumes "nn (scD s)"
  shows "openInk (snd (paint (drawRadar m s) c))"
proof -
  have moves: "moveOrLine i x y \<noteq> CClose" for i x y by (simp add: moveOrLine_def)
  obtain cmds where cmds: "drawRadar m s = CSize (scW s) (scH s) # cmds" "list_all (\<lambda>cmd. cmd \<noteq> CClose) cmds"
    by (simp add: drawRadar_def Let_def ok_simps moves)
  have "list_all okCmd (drawRadar m s)" using radar_ok [OF assms, of m] by (simp add: radarStep_def Let_def)
  then have "snd (paint (drawRadar m s) c) = fold execCmd cmds freshCtx" using cmds(1) by (simp add: paint_ok)
  moreover have "openInk freshCtx" by (simp add: openInk_def freshCtx_def)
  ultimately show ?thesis using openInk_fold [OF cmds(2)] by simp
qed

lemma openInk_unpainted: "openInk c \<Longrightarrow> \<not> painted coin c"
  by (auto simp: openInk_def painted_def)

text \<open>Events that start no animation of the radar leave it alone.\<close>

lemma radar_untouched:
  assumes "vizHandle m e s = Some s'" and "vz_radarLoops s = 0" and "case e of CoinTab i c \<Rightarrow> False | Seen es \<Rightarrow> False | _ \<Rightarrow> True"
  shows "vz_radarLoops s' = 0 \<and> ch_coin (vz_charts s') = ch_coin (vz_charts s) \<and> ch_legend (vz_charts s') = ch_legend (vz_charts s)
    \<and> (case e of Resized lo rnd \<Rightarrow> vz_radar s' = snd (paint (drawRadar m (fitOf (lo_radar lo) lo)) (vz_radar s)) | _ \<Rightarrow> vz_radar s' = vz_radar s)"
proof -
  have bars: "vz_radarLoops (fold (barLoop m ts) ls u) = vz_radarLoops u \<and> vz_charts (fold (barLoop m ts) ls u) = vz_charts u
      \<and> vz_radar (fold (barLoop m ts) ls u) = vz_radar u" for ts ls u
    by (induction ls arbitrary: u) (auto simp: barLoop_def Let_def split: prod.split)
  have trace: "vz_radarLoops (traceTick m ts u) = vz_radarLoops u \<and> vz_charts (traceTick m ts u) = vz_charts u \<and> vz_radar (traceTick m ts u) = vz_radar u" for ts u
    by (auto simp: traceTick_def Let_def split: prod.split)
  show ?thesis using assms bars trace
    by (cases e) (auto simp: dimTab_def dimClick_def animBars_def vizTick_def vizResize_def traceSize_def Let_def growthRedraw_keeps split: if_splits)
qed

section \<open>Correctness\<close>


definition linearMaths :: Maths where
  "linearMaths = plainMaths\<lparr>ma_pow := (\<lambda>x _. x)\<rparr>"


definition plainLayout :: Layout where
  "plainLayout = \<lparr>lo_radar = (Fin 400, Fin 300), lo_growth = (Fin 400, Fin 300), lo_trace = (Fin 400, Fin 300), lo_dpr = Fin 1\<rparr>"



text \<open>\<^bold>\<open>C40.\<close> Resizing the window empties the radar: the handler draws the grid on the resized canvas and drops the function that plots the coins. If no
  animation of the radar is under way, no coin's polygon is on the canvas from then on, whatever else happens, until a coin is chosen
  or the section is first seen, while the legend goes on naming the coin compared.\<close>

theorem resize_empties_radar:
  assumes "runEvents (vizHandle m) (Resized lo rnd # es) s = Some s'" and "vz_radarLoops s = 0" and "nn (lo_dpr lo)"
    and "\<forall>e \<in> set es. case e of CoinTab i c \<Rightarrow> False | Seen es' \<Rightarrow> False | Resized lo' rnd' \<Rightarrow> nn (lo_dpr lo') | _ \<Rightarrow> True"
  shows "(\<forall>coin. \<not> painted coin (vz_radar s')) \<and> ch_coin (vz_charts s') = ch_coin (vz_charts s) \<and> ch_legend (vz_charts s') = ch_legend (vz_charts s)"
proof -
  let ?quiet = "\<lambda>e. case e of CoinTab i c \<Rightarrow> False | Seen es' \<Rightarrow> False | Resized lo' rnd' \<Rightarrow> nn (lo_dpr lo') | _ \<Rightarrow> True"
  have grid: "openInk (snd (paint (drawRadar m (fitOf (lo_radar l) l)) c))" if "nn (lo_dpr l)" for l c
    by (rule radar_grid_open) (simp add: fitOf_def fitCanvas_nn that)
  have step: "vz_radarLoops w = 0 \<and> openInk (vz_radar w) \<and> ch_coin (vz_charts w) = ch_coin (vz_charts u) \<and> ch_legend (vz_charts w) = ch_legend (vz_charts u)"
    if "vizHandle m e u = Some w" "vz_radarLoops u = 0" "?quiet e" "openInk (vz_radar u) \<or> (\<exists>l r. e = Resized l r)" for e u w
    using radar_untouched [OF that(1,2)] that(3,4) grid by (cases e) auto
  have "openInk (vz_radar u') \<and> ch_coin (vz_charts u') = ch_coin (vz_charts u) \<and> ch_legend (vz_charts u') = ch_legend (vz_charts u)"
    if "runEvents (vizHandle m) es u = Some u'" "vz_radarLoops u = 0" "openInk (vz_radar u)" "\<forall>e \<in> set es. ?quiet e" for u u'
    using that
  proof (induction es arbitrary: u)
    case (Cons e es)
    then obtain w where w: "vizHandle m e u = Some w" "runEvents (vizHandle m) es w = Some u'" by (auto simp: bind_eq_Some_conv)
    then show ?case using step [OF w(1)] Cons.IH [OF w(2)] Cons.prems by auto
  qed simp
  moreover obtain w where w: "vizHandle m (Resized lo rnd) s = Some w" "runEvents (vizHandle m) es w = Some s'" using assms(1) by auto
  moreover note step [OF w(1) assms(2)]
  ultimately show ?thesis using assms(3,4) openInk_unpainted by auto
qed

theorem resize_empties_radar_witness:
  "\<exists>s'. runEvents (vizHandle linearMaths) [Resized plainLayout (\<lambda>_. Fin 0), DimTab 2 (Fin 5), Tick (Fin 6) plainLayout]
      (startViz linearMaths plainLayout (\<lambda>_. Fin 0) (Fin 50)) = Some s' \<and> (\<forall>coin. \<not> painted coin (vz_radar s'))"
proof -
  let ?s = "startViz linearMaths plainLayout (\<lambda>_. Fin 0) (Fin 50)"
  obtain s' where s': "runEvents (vizHandle linearMaths) [Resized plainLayout (\<lambda>_. Fin 0), DimTab 2 (Fin 5), Tick (Fin 6) plainLayout] ?s = Some s'"
    by (simp add: DIMS_def)
  have "vz_radarLoops ?s = 0" by (simp add: startViz_def traceSize_def Let_def growthRedraw_keeps)
  then show ?thesis using resize_empties_radar [OF s'] s' by (simp add: plainLayout_def)
qed

end
