(* ===== verification/Spec2Isabelle.thy ===== *)
theory Spec2Isabelle
  imports Wallet_Qr Proxy Dash_App Go_Types Go_Load Site_Stage Site_Page Site_Compare
begin

text \<open>
  \<^bold>\<open>The JavaScript of the Obscura node\<close>

  Obscura is a node, miner and wallet written in Go. The JavaScript beside it is the part its users
  touch, and this is the part modelled here:

  \<^item> the local dashboard (\<^verbatim>\<open>src/cmd/obscura-dashboard/webui\<close>): \<^verbatim>\<open>app.js\<close> polls the node, shows status, blocks
    and balance, validates and sends transfers; \<^verbatim>\<open>qr.js\<close> draws the receiving address as a QR code;
  \<^item> the public site (\<^verbatim>\<open>src/cmd/obscura-node/website\<close>): \<^verbatim>\<open>qrcodegen.js\<close> is the QR encoder of the web wallet,
    \<^verbatim>\<open>api/explorer.js\<close> the function that forwards explorer requests to a node, \<^verbatim>\<open>wasm_exec.js\<close> the glue through which the
    wallet compiled from Go runs in the browser, and \<^verbatim>\<open>assets/showcase.js\<close>, \<^verbatim>\<open>assets/app.js\<close>, \<^verbatim>\<open>assets/viz.js\<close> the
    carousel, the widgets and the charts of its pages.

  \<^bold>\<open>How they interact.\<close> The dashboard sends requests to the Go server behind it and continues with each
  answer whenever it comes; an address it receives goes to the renderer of \<^verbatim>\<open>qr.js\<close>. The two encoders are
  independent implementations of one standard. The proxy stands alone between a browser and a node. The
  glue hands JavaScript values to a Go program as numbers in its memory and calls back into it. The scripts of the
  pages share nothing but the page.

  \<^bold>\<open>Shared theories.\<close>
  \<^item> \<^verbatim>\<open>Prelude\<close>: exceptions as values (a result is an error or a value), lists updated by index with the
    out-of-range behaviour of arrays, bits of words.
  \<^item> \<^verbatim>\<open>Js_Text\<close>, \<^verbatim>\<open>Js_String\<close>: strings as lists of UTF-16 code units; code points, UTF-8,
    \<^verbatim>\<open>encodeURI\<close> and its URIError; decimal digits, joining.
  \<^item> \<^verbatim>\<open>Js_Number\<close>: doubles as rationals rounded to 53 bits with ties to even, NaN and the infinities; conversions
    between numbers and strings (\<^verbatim>\<open>Number\<close>, \<^verbatim>\<open>String\<close>, \<^verbatim>\<open>toFixed\<close>, \<^verbatim>\<open>toLocaleString("en-US")\<close>). The sign of
    zero is not kept.
  \<^item> \<^verbatim>\<open>Event_System\<close>: programs driven by events, and two interfaces proved once: a handler that simulates an abstract
    machine (\<^verbatim>\<open>simulation\<close>) and one with an invariant and an abstraction (\<^verbatim>\<open>abstraction\<close>). The dashboard, the table of
    references, the carousel alone and with its canvas, the comparison charts and the pages are its instances.

  \<^bold>\<open>The dashboard's encoder\<close> (\<^verbatim>\<open>qr.js\<close>), one theory per stage, in the order of the code:
  \<^item> \<^verbatim>\<open>Gf256\<close>: the field with 256 elements, as a type with its ring structure; no code.
  \<^item> \<^verbatim>\<open>Qr_Tables\<close>, \<^verbatim>\<open>Qr_Segment\<close>: levels, tables, capacities, segments, the choice of version and level, padding.
    The version search is a recursion on the versions left; padding ends because the list shrinks to capacity.
  \<^item> \<^verbatim>\<open>Qr_ReedSolomon\<close>: multiplication is the field product; data with its remainder is a code word, and any two
    code words differ in more positions than there are check bytes.
  \<^item> \<^verbatim>\<open>Qr_Blocks\<close>: splitting and interleaving, and that they can be undone, for all versions and levels.
  \<^item> \<^verbatim>\<open>Qr_Grid\<close>: the grid with its function modules (interface \<^verbatim>\<open>module_grid\<close>), format and version information.
  \<^item> \<^verbatim>\<open>Qr_Mask\<close>: the zigzag placement and the masks, both reversible.
  \<^item> \<^verbatim>\<open>Qr_Penalty\<close>: the incremental score equals a declarative one.
  \<^item> \<^verbatim>\<open>Qr_Symbol\<close>: the constructor; the search for the best mask is proved once over the interface \<^verbatim>\<open>mask_search\<close>
    and used for both encoders.
  \<^item> \<^verbatim>\<open>Qr_Api\<close>, \<^verbatim>\<open>Qr_Capacity\<close>, \<^verbatim>\<open>Qr_Reader\<close>: \<^verbatim>\<open>encodeText\<close>, \<^verbatim>\<open>generate\<close> and \<^verbatim>\<open>render\<close>; the room for code words; a reader
    that gets the bytes back from the modules alone, the abstract specification of the encoder.

  \<^bold>\<open>The wallet's encoder\<close> (\<^verbatim>\<open>qrcodegen.js\<close>): \<^verbatim>\<open>Wallet_Qr\<close> translates it routine by routine (names with a leading w where
  both files use the same one), proves it draws the same symbols as the dashboard's for the same payload,
  and transfers the round trip. Its penalty is simpler, so the two may choose different masks.

  \<^bold>\<open>The proxy\<close> (\<^verbatim>\<open>api/explorer.js\<close>): \<^verbatim>\<open>Proxy\<close> models the request, the tables, the routing and the answer. The network
  and the text of inherited object members are parameters. The theorems say what can be forwarded, which requests are answered
  500, 400, 405 and 502 instead, and where a lookup on an object literal forwards more than the tables list.

  \<^bold>\<open>The dashboard\<close> (\<^verbatim>\<open>app.js\<close>):
  \<^item> \<^verbatim>\<open>Dash_Format\<close>: amounts, integers and shortened texts, and what their display keeps.
  \<^item> \<^verbatim>\<open>Dash_Page\<close>: the page as a map from selectors to elements, the \<^verbatim>\<open>state\<close> object, toasts, requests, theme. A promise
    is a call in the list of those waiting together with the continuation its constructor names. The browser is
    the record \<^verbatim>\<open>Env\<close> of parameters: storage, computed style, parsing of JSON, clipboard, colour scheme.
  \<^item> \<^verbatim>\<open>Dash_Node\<close>: status cards, sample window, chart, block list. The loop over heights is a partial function: that
    it returns, and for which height it does not, is a theorem.
  \<^item> \<^verbatim>\<open>Dash_Wallet\<close>: address, balance, clipboard, validation, confirmation dialog with focus trap, sending, tabs, \<^verbatim>\<open>init\<close>.
  \<^item> \<^verbatim>\<open>Dash_App\<close>: every listener, timer and answer as an event, in any order; reachable states; the invariant of
    dialog, tabs, waiting calls and samples; the refinement of an abstract transfer; the five requests that go out; the way of an address to the canvas.

  \<^bold>\<open>The Go glue\<close> (\<^verbatim>\<open>wasm_exec.js\<close>):
  \<^item> \<^verbatim>\<open>Go_Memory\<close>: the linear memory behind a \<^verbatim>\<open>DataView\<close> (interface \<^verbatim>\<open>memory\<close>), bytes of words, doubles as 64 bits.
  \<^item> \<^verbatim>\<open>Go_Values\<close>: the table of values with its counts, numbers and free list, and its refinement of counted bindings.
  \<^item> \<^verbatim>\<open>Go_Glue\<close>: a state monad with exceptions for the \<^verbatim>\<open>Go\<close> object; integers of 64 bits, \<^verbatim>\<open>loadValue\<close> and \<^verbatim>\<open>storeValue\<close>,
    slices; what is stored is loaded back.
  \<^item> \<^verbatim>\<open>Go_Types\<close>: the type of a value can be read off the words stored for it, unless it is a big integer.
  \<^item> \<^verbatim>\<open>Go_Imports\<close>: the functions a Go program imports, the stubs for files and processes, \<^verbatim>\<open>_resume\<close> and the function
    wrappers. The program and the objects it reaches are the record \<^verbatim>\<open>Host\<close> of parameters. Console output is complete,
    calls report results and exceptions alike, and for a timeout handler it is said, run by run of the program, when it returns,
    when it throws and when it never ends: its retry loop is a partial function.
  \<^item> \<^verbatim>\<open>Go_Run\<close>: \<^verbatim>\<open>run\<close> with the layout of arguments and environment in memory, every address aligned to eight bytes.
  \<^item> \<^verbatim>\<open>Go_Load\<close>: what loading the script does to the global object, the interfaces it insists on, the constructor.

  \<^bold>\<open>The pages\<close> (\<^verbatim>\<open>website/assets\<close>):
  \<^item> \<^verbatim>\<open>Site_Showcase\<close>: the carousel as an event system: what it shows, when it moves on, and two ways in which it gets stuck.
  \<^item> \<^verbatim>\<open>Site_Widgets\<close>: menu, reveal, copy buttons, tabs, sidebar; the ring of decoys, whose loop ends if the random
    numbers reach every index; the emission curve, whose loop ends after 241 points within its bounds and stands at the cap
    from point 143 on, where the chain's own schedule goes past it.
  \<^item> \<^verbatim>\<open>Site_Viz\<close>: the data, bars, chips, set sizes and their display, meters of the tracing game.
  \<^item> \<^verbatim>\<open>Site_Canvas\<close>: the operators of JavaScript on doubles, a canvas context that executes drawing commands and throws for negative
    radii, and rules for signs and bounds that survive rounding. The transcendental functions are the record \<^verbatim>\<open>Maths\<close> of parameters.
  \<^item> \<^verbatim>\<open>Site_Slides\<close>, \<^verbatim>\<open>Site_Scenes\<close>, \<^verbatim>\<open>Site_Charts\<close>: what the slides, the widgets and the charts paint, function by function: that
    painting never fails at times from the start on, what state of the context it leaves, how many outputs are lit or dimmed;
    and how the carousel's clock can run into a drawing that throws.
  \<^item> \<^verbatim>\<open>Site_Stage\<close>, \<^verbatim>\<open>Site_Compare\<close>, \<^verbatim>\<open>Site_Page\<close>: each of the three scripts as a whole, a state and a handler for every listener, observer,
    animation frame and resize. Callbacks waiting for a frame are part of the state, with what they captured; an exception ends its
    callback only. An invariant holds after every sequence of events; from it: which drawings can throw, that the charts
    come to rest on the right values, that a resize loses the radar's coins, that the page never hangs.

  \<^bold>\<open>Not modelled.\<close>
  \<^item> How a host prints a time in its locale and time zone (\<^verbatim>\<open>fmtTimestamp\<close>), the transcendental functions, layout, styling and what a
    browser paints are outside; a canvas is its size and its list of drawing commands.
  \<^item> The order of callbacks within one animation frame is fixed; callbacks of one script that run in the same frame
    touch disjoint parts of its state. Pages are assumed to have the elements the scripts look for, except where a theory says otherwise.
  \<^item> Minified libraries, the Go program, HTML and CSS are not part of this development.
\<close>

end
